(* ===== verification/Go_Prelude.thy ===== *)
theory Go_Prelude
  imports
    Main
    "HOL-Library.Word"
    "HOL-Library.Monad_Syntax"
    "HOL-Library.Multiset"
    "HOL-Library.Char_ord"
    "HOL-Library.List_Lexorder"
begin

text \<open>
  What the component theories share: how Go values and Go failures are represented, the
  generic lemmas about them, and the reachability interface of the concurrent components.

  \<^item> A computation that can panic has type \<open>'a option\<close>; \<^term>\<open>None\<close> is the panic.
    A Go \<^verbatim>\<open>error\<close> result is a value of a sum type, \<^term>\<open>Inl\<close> being the error.
  \<^item> A Go string is its byte sequence, a \<^typ>\<open>string\<close>; \<^verbatim>\<open><\<close> on strings is the
    lexicographic order of \<open>List_Lexorder\<close> and \<open>Char_ord\<close>, Go's byte order.
  \<^item> A slice whose nil-ness the code observes is a \<open>'a list option\<close>.
  \<^item> Machine integers are \<open>'n word\<close>, or \<^typ>\<open>int\<close> with \<open>wrap64\<close> around each
    operation whose overflow the code does not exclude.
\<close>

named_theorems go_defs \<open>definitions of the Go runtime helpers\<close>
named_theorems go_inv \<open>invariants established by the operations of a component\<close>

type_synonym byte = "8 word"
type_synonym bytes = "8 word list"

section \<open>Slices\<close>

text \<open>Indexing panics outside the slice; \<^verbatim>\<open>nil\<close> reads as the empty slice.\<close>

definition go_nth :: "'a list \<Rightarrow> nat \<Rightarrow> 'a option" where
  "go_nth xs i = (if i < length xs then Some (xs ! i) else None)"

definition go_upd :: "'a list \<Rightarrow> nat \<Rightarrow> 'a \<Rightarrow> 'a list option" where
  "go_upd xs i v = (if i < length xs then Some (xs[i := v]) else None)"

definition slice_of :: "'a list option \<Rightarrow> 'a list" where
  "slice_of s = (case s of None \<Rightarrow> [] | Some xs \<Rightarrow> xs)"

lemma go_nth_in [simp]: "i < length xs \<Longrightarrow> go_nth xs i = Some (xs ! i)"
  by (simp add: go_nth_def)

lemma go_nth_out [simp]: "length xs \<le> i \<Longrightarrow> go_nth xs i = None"
  by (simp add: go_nth_def)

lemma go_upd_in [simp]: "i < length xs \<Longrightarrow> go_upd xs i v = Some (xs[i := v])"
  by (simp add: go_upd_def)

lemma slice_of_simps [simp]: "slice_of None = []" "slice_of (Some xs) = xs"
  by (simp_all add: slice_of_def)

section \<open>Strings\<close>

text \<open>A name written before its first separator can be read back.\<close>

lemma first_separator_unique:
  "x \<notin> set a \<Longrightarrow> x \<notin> set a' \<Longrightarrow> a @ x # b = a' @ x # b' \<longleftrightarrow> a = a' \<and> b = b'"
proof (induction a arbitrary: a')
  case Nil
  then show ?case by (cases a') auto
next
  case (Cons y a)
  then show ?case by (cases a') auto
qed

text \<open>\<^verbatim>\<open>strings.Split\<close> on a one-byte separator, \<^verbatim>\<open>strings.Join\<close> and \<^verbatim>\<open>strings.Trim\<close>.\<close>

fun strings_Split :: "char \<Rightarrow> string \<Rightarrow> string list" where
  "strings_Split c [] = [[]]"
| "strings_Split c (x # xs) =
     (if x = c then [] # strings_Split c xs
      else case strings_Split c xs of [] \<Rightarrow> [[x]] | y # ys \<Rightarrow> (x # y) # ys)"

fun strings_Join :: "string \<Rightarrow> string list \<Rightarrow> string" where
  "strings_Join sep [] = []"
| "strings_Join sep [s] = s"
| "strings_Join sep (s # t # ss) = s @ sep @ strings_Join sep (t # ss)"

definition strings_Trim :: "char list \<Rightarrow> string \<Rightarrow> string" where
  "strings_Trim cutset s =
     rev (dropWhile (\<lambda>c. c \<in> set cutset) (rev (dropWhile (\<lambda>c. c \<in> set cutset) s)))"

lemma strings_Split_not_Nil [simp]: "strings_Split c s \<noteq> []"
  by (induction s) (auto split: list.splits)

lemma strings_Split_no_sep: "seg \<in> set (strings_Split c s) \<Longrightarrow> c \<notin> set seg"
  by (induction s arbitrary: seg) (fastforce split: if_splits list.splits)+

lemma strings_Split_append_sep:
  "c \<notin> set a \<Longrightarrow> strings_Split c (a @ c # b) = a # strings_Split c b"
  by (induction a) (auto split: list.splits)

lemma strings_Split_whole: "c \<notin> set a \<Longrightarrow> strings_Split c a = [a]"
  by (induction a) auto

lemma strings_Join_Split: "strings_Join [c] (strings_Split c s) = s"
proof (induction s)
  case (Cons x s)
  then show ?case by (cases "strings_Split c s"; cases "tl (strings_Split c s)") auto
qed simp

lemma strings_Split_Join:
  "ss \<noteq> [] \<Longrightarrow> (\<forall>s \<in> set ss. c \<notin> set s) \<Longrightarrow> strings_Split c (strings_Join [c] ss) = ss"
  by (induction "[c]" ss rule: strings_Join.induct)
    (auto simp: strings_Split_whole strings_Split_append_sep)

lemma dropWhile_idem_rev:
  "dropWhile P (rev (dropWhile P (rev (dropWhile P s)))) = rev (dropWhile P (rev (dropWhile P s)))"
proof (cases "dropWhile P s")
  case (Cons x xs)
  then have "\<not> P x" by (simp add: dropWhile_eq_Cons_conv)
  then show ?thesis using Cons by (simp add: dropWhile_append)
next
  case Nil
  then show ?thesis unfolding Nil by simp
qed

lemma strings_Trim_idem [simp]: "strings_Trim cs (strings_Trim cs s) = strings_Trim cs s"
  by (simp add: strings_Trim_def dropWhile_idem_rev)

lemma strings_Trim_Nil [simp]: "strings_Trim cs [] = []"
  by (simp add: strings_Trim_def)

lemma set_strings_Trim: "set (strings_Trim cs s) \<subseteq> set s"
  unfolding strings_Trim_def by (metis set_dropWhileD set_rev subsetI)

section \<open>64-bit integers\<close>

definition wrap64 :: "int \<Rightarrow> int" where
  "wrap64 x = (x + 2 ^ 63) mod 2 ^ 64 - 2 ^ 63"

definition in_int64 :: "int \<Rightarrow> bool" where
  "in_int64 x \<longleftrightarrow> - (2 ^ 63) \<le> x \<and> x < 2 ^ 63"

lemma wrap64_id [simp]: "in_int64 x \<Longrightarrow> wrap64 x = x"
  by (simp add: wrap64_def in_int64_def)

lemma in_int64_wrap64 [simp, intro]: "in_int64 (wrap64 x)"
proof -
  have "0 \<le> (x + 2 ^ 63) mod 2 ^ 64" "(x + 2 ^ 63) mod 2 ^ 64 < (2::int) ^ 64"
    by simp_all
  then show ?thesis by (simp add: wrap64_def in_int64_def)
qed

lemma in_int64_mono: "in_int64 x \<Longrightarrow> 0 \<le> y \<Longrightarrow> y \<le> x \<Longrightarrow> in_int64 y"
  by (simp add: in_int64_def)

section \<open>Reachable states of a step relation\<close>

inductive reach :: "('s \<Rightarrow> bool) \<Rightarrow> ('s \<Rightarrow> 's \<Rightarrow> bool) \<Rightarrow> 's \<Rightarrow> bool"
  for init :: "'s \<Rightarrow> bool" and step :: "'s \<Rightarrow> 's \<Rightarrow> bool" where
  reach_init: "init s \<Longrightarrow> reach init step s"
| reach_step: "reach init step s \<Longrightarrow> step s t \<Longrightarrow> reach init step t"

text \<open>
  The contract a concurrent component proves once: its invariant holds at the start and
  every step keeps it. What follows from it holds in every reachable state.
\<close>

locale inductive_invariant =
  fixes init :: "'s \<Rightarrow> bool" and step :: "'s \<Rightarrow> 's \<Rightarrow> bool" and inv :: "'s \<Rightarrow> bool"
  assumes inv_init: "init s \<Longrightarrow> inv s"
    and inv_step: "inv s \<Longrightarrow> step s t \<Longrightarrow> inv t"
begin

lemma inv_reach: "reach init step s \<Longrightarrow> inv s"
  by (induction rule: reach.induct) (auto intro: inv_init inv_step)

end

end
