(* ===== verification/Ring.thy ===== *)
theory Ring
  imports Go_Prelude
begin

text \<open>
  The bounded ring buffer of \<^verbatim>\<open>pkg/appsrv/ring.go\<close>, which holds the backlog of every
  worker manager, and the interface its client relies on: a bounded FIFO queue.
  An \<^verbatim>\<open>interface{}\<close> element is an \<open>'a option\<close>, \<^term>\<open>None\<close> being \<^verbatim>\<open>nil\<close>.
  The two indices start at 0 and only \<^verbatim>\<open>nextPointer\<close> writes them, so they are naturals.
  The mutex makes each operation one atomic step.
\<close>

section \<open>The code\<close>

record 'a Ring =
  buffer :: "'a option list"
  header :: nat
  tail :: nat

definition NewRing :: "int \<Rightarrow> 'a Ring option" where
  "NewRing sz =
     (if sz + 1 < 0 then None
      else Some \<lparr>buffer = replicate (nat (sz + 1)) None, header = 0, tail = 0\<rparr>)"

definition nextPointer :: "nat \<Rightarrow> nat \<Rightarrow> nat" where
  "nextPointer idx sz = (let idx = idx + 1 in if idx \<ge> sz then 0 else idx)"

definition Push :: "'a Ring \<Rightarrow> 'a option \<Rightarrow> ('a Ring \<times> bool) option" where
  "Push r val =
     (if nextPointer (header r) (length (buffer r)) = tail r then Some (r, False)
      else do {
        b \<leftarrow> go_upd (buffer r) (header r) val;
        let r = r\<lparr>buffer := b\<rparr>;
        Some (r\<lparr>header := nextPointer (header r) (length (buffer r))\<rparr>, True)
      })"

definition Pop :: "'a Ring \<Rightarrow> ('a Ring \<times> 'a option) option" where
  "Pop r =
     (if tail r = header r then Some (r, None)
      else do {
        ret \<leftarrow> go_nth (buffer r) (tail r);
        Some (r\<lparr>tail := nextPointer (tail r) (length (buffer r))\<rparr>, ret)
      })"

definition Capacity :: "'a Ring \<Rightarrow> int" where
  "Capacity r = int (length (buffer r)) - 1"

definition Size :: "'a Ring \<Rightarrow> nat" where
  "Size r =
     (if tail r \<le> header r then header r - tail r
      else length (buffer r) - tail r + header r)"

section \<open>The interface: a bounded FIFO queue\<close>

datatype 'e queue_op = OpPush 'e | OpPop

datatype 'e queue_out = Pushed bool | Popped 'e

text \<open>A client's run over any implementation, and the run of the abstract queue.\<close>

fun queue_run ::
  "('q \<Rightarrow> 'e \<Rightarrow> ('q \<times> bool) option) \<Rightarrow> ('q \<Rightarrow> ('q \<times> 'e) option) \<Rightarrow>
   'e queue_op list \<Rightarrow> 'q \<Rightarrow> ('q \<times> 'e queue_out list) option" where
  "queue_run push pop [] q = Some (q, [])"
| "queue_run push pop (OpPush v # ops) q =
     do { (q', b) \<leftarrow> push q v; (q'', outs) \<leftarrow> queue_run push pop ops q'; Some (q'', Pushed b # outs) }"
| "queue_run push pop (OpPop # ops) q =
     do { (q', v) \<leftarrow> pop q; (q'', outs) \<leftarrow> queue_run push pop ops q'; Some (q'', Popped v # outs) }"

fun fifo_run :: "int \<Rightarrow> 'e \<Rightarrow> 'e queue_op list \<Rightarrow> 'e list \<Rightarrow> 'e list \<times> 'e queue_out list" where
  "fifo_run cap nil [] xs = (xs, [])"
| "fifo_run cap nil (OpPush v # ops) xs =
     (let room = int (length xs) < cap;
          (ys, outs) = fifo_run cap nil ops (if room then xs @ [v] else xs)
      in (ys, Pushed room # outs))"
| "fifo_run cap nil (OpPop # ops) xs =
     (case xs of
        [] \<Rightarrow> let (ys, outs) = fifo_run cap nil ops [] in (ys, Popped nil # outs)
      | v # vs \<Rightarrow> let (ys, outs) = fifo_run cap nil ops vs in (ys, Popped v # outs))"

locale bounded_fifo =
  fixes push :: "'q \<Rightarrow> 'e \<Rightarrow> ('q \<times> bool) option"
    and pop :: "'q \<Rightarrow> ('q \<times> 'e) option"
    and size :: "'q \<Rightarrow> nat"
    and cap :: "'q \<Rightarrow> int"
    and nil :: 'e
    and elems :: "'q \<Rightarrow> 'e list"
    and inv :: "'q \<Rightarrow> bool"
  assumes push_room: "inv q \<Longrightarrow> int (length (elems q)) < cap q \<Longrightarrow>
      \<exists>q'. push q v = Some (q', True) \<and> inv q' \<and> elems q' = elems q @ [v] \<and> cap q' = cap q"
    and push_full: "inv q \<Longrightarrow> cap q \<le> int (length (elems q)) \<Longrightarrow> push q v = Some (q, False)"
    and pop_elem: "inv q \<Longrightarrow> elems q = v # vs \<Longrightarrow>
      \<exists>q'. pop q = Some (q', v) \<and> inv q' \<and> elems q' = vs \<and> cap q' = cap q"
    and pop_nil: "inv q \<Longrightarrow> elems q = [] \<Longrightarrow> pop q = Some (q, nil)"
    and size_elems: "inv q \<Longrightarrow> size q = length (elems q)"
    and elems_bound: "inv q \<Longrightarrow> elems q \<noteq> [] \<Longrightarrow> int (length (elems q)) \<le> cap q"
begin

lemma push_total: "inv q \<Longrightarrow> \<exists>q' b. push q v = Some (q', b) \<and> inv q' \<and>
    b = (int (length (elems q)) < cap q) \<and> elems q' = (if b then elems q @ [v] else elems q)"
  using push_room [of q v] push_full [of q v] by (cases "int (length (elems q)) < cap q") auto

lemma pop_total: "inv q \<Longrightarrow> \<exists>q' v. pop q = Some (q', v) \<and> inv q' \<and> elems q' = tl (elems q) \<and>
    v = (case elems q of [] \<Rightarrow> nil | x # _ \<Rightarrow> x)"
  using pop_elem [of q] pop_nil [of q] by (cases "elems q") auto

lemma run_refines_fifo:
  "inv q \<Longrightarrow> \<exists>q' outs. queue_run push pop ops q = Some (q', outs) \<and> inv q' \<and> cap q' = cap q \<and>
     fifo_run (cap q) nil ops (elems q) = (elems q', outs)"
proof (induction ops arbitrary: q)
  case Nil
  then show ?case by simp
next
  case (Cons x ops)
  show ?case
  proof (cases x)
    case (OpPush v)
    show ?thesis
    proof (cases "int (length (elems q)) < cap q")
      case True
      from push_room [OF Cons.prems True] obtain q1
        where "push q v = Some (q1, True)" "inv q1" "elems q1 = elems q @ [v]" "cap q1 = cap q"
        by blast
      with Cons.IH [of q1] OpPush True show ?thesis by force
    next
      case False
      with push_full Cons.prems have "push q v = Some (q, False)" by simp
      with Cons.IH [of q] Cons.prems OpPush False show ?thesis by force
    qed
  next
    case OpPop
    show ?thesis
    proof (cases "elems q")
      case Nil
      with pop_nil Cons.prems Cons.IH [of q] OpPop show ?thesis by force
    next
      case (Cons v vs)
      with pop_elem Cons.prems obtain q1
        where "pop q = Some (q1, v)" "inv q1" "elems q1 = vs" "cap q1 = cap q" by blast
      with Cons.IH [of q1] OpPop Cons show ?thesis by force
    qed
  qed
qed

end

section \<open>The ring implements it\<close>

definition ring_elems :: "'a Ring \<Rightarrow> 'a option list" where
  "ring_elems r =
     (if tail r \<le> header r then take (header r - tail r) (drop (tail r) (buffer r))
      else drop (tail r) (buffer r) @ take (header r) (buffer r))"

definition ring_inv :: "'a Ring \<Rightarrow> bool" where
  "ring_inv r \<longleftrightarrow> (if buffer r = [] then header r = 0 \<and> tail r = 0
                  else header r < length (buffer r) \<and> tail r < length (buffer r))"

lemma nextPointer_mod: "i < n \<Longrightarrow> nextPointer i n = (i + 1) mod n"
  by (auto simp: nextPointer_def Let_def) (metis Suc_leI le_antisym mod_self)

lemma nextPointer_0 [simp]: "nextPointer i 0 = 0"
  by (simp add: nextPointer_def)

lemma NewRing_spec: "0 \<le> sz \<Longrightarrow>
    \<exists>r. NewRing sz = Some r \<and> ring_inv r \<and> ring_elems r = [] \<and> Capacity r = sz"
  by (auto simp: NewRing_def ring_inv_def ring_elems_def Capacity_def)

lemma length_ring_elems: "ring_inv r \<Longrightarrow> length (ring_elems r) = Size r"
  by (auto simp: ring_inv_def ring_elems_def Size_def split: if_splits)

lemma ring_full_iff:
  assumes "ring_inv r"
  shows "nextPointer (header r) (length (buffer r)) = tail r \<longleftrightarrow>
         Capacity r \<le> int (length (ring_elems r))"
  using assms
  by (auto simp: length_ring_elems Size_def Capacity_def ring_inv_def nextPointer_def Let_def
      split: if_splits)

lemma ring_push_room:
  assumes inv: "ring_inv r" and room: "int (length (ring_elems r)) < Capacity r"
  shows "\<exists>r'. Push r v = Some (r', True) \<and> ring_inv r' \<and> ring_elems r' = ring_elems r @ [v] \<and>
           Capacity r' = Capacity r"
proof -
  let ?n = "length (buffer r)" and ?h = "header r" and ?t = "tail r"
  from room have ne: "buffer r \<noteq> []" by (auto simp: Capacity_def)
  with inv have h: "?h < ?n" and t: "?t < ?n" by (auto simp: ring_inv_def)
  have nf: "nextPointer ?h ?n \<noteq> ?t" using ring_full_iff [OF inv] room by simp
  define r' where "r' = r\<lparr>buffer := (buffer r)[?h := v], header := nextPointer ?h ?n\<rparr>"
  have "Push r v = Some (r', True)" using nf h by (simp add: Push_def r'_def)
  moreover have "ring_inv r'" using h t ne
    by (auto simp: ring_inv_def r'_def nextPointer_def Let_def)
  moreover have "Capacity r' = Capacity r" by (simp add: Capacity_def r'_def)
  moreover have "ring_elems r' = ring_elems r @ [v]"
  proof (cases "?t \<le> ?h")
    case True
    then show ?thesis using h t nf
      by (auto simp: r'_def ring_elems_def nextPointer_def nth_append nth_list_update
          less_Suc_eq intro!: nth_equalityI)
  next
    case False
    with nf t have "Suc ?h < ?t" by (auto simp: nextPointer_def Let_def split: if_splits)
    then show ?thesis using h t
      by (simp add: r'_def ring_elems_def nextPointer_def take_Suc_conv_app_nth)
  qed
  ultimately show ?thesis by blast
qed

lemma ring_pop_elem:
  assumes inv: "ring_inv r" and el: "ring_elems r = v # vs"
  shows "\<exists>r'. Pop r = Some (r', v) \<and> ring_inv r' \<and> ring_elems r' = vs \<and> Capacity r' = Capacity r"
proof -
  let ?n = "length (buffer r)" and ?h = "header r" and ?t = "tail r"
  from el have ne: "?t \<noteq> ?h" and bne: "buffer r \<noteq> []"
    by (auto simp: ring_elems_def split: if_splits)
  with inv have h: "?h < ?n" and t: "?t < ?n" by (auto simp: ring_inv_def)
  define r' where "r' = r\<lparr>tail := nextPointer ?t ?n\<rparr>"
  have split: "drop ?t (buffer r) = buffer r ! ?t # drop (Suc ?t) (buffer r)"
    using t by (rule Cons_nth_drop_Suc [symmetric])
  have v: "v = buffer r ! ?t"
    using el ne by (auto simp: ring_elems_def split take_Cons' split: if_splits)
  have "Pop r = Some (r', v)" using ne t by (simp add: Pop_def r'_def v)
  moreover have "ring_inv r'" using h t bne
    by (auto simp: ring_inv_def r'_def nextPointer_def Let_def)
  moreover have "Capacity r' = Capacity r" by (simp add: Capacity_def r'_def)
  moreover have "ring_elems r' = vs"
  proof (cases "?t \<le> ?h")
    case True
    with ne h have "Suc ?t < ?n" "?t < ?h" by simp_all
    with el show ?thesis
      by (auto simp: ring_elems_def r'_def nextPointer_def split take_Cons' Suc_diff_Suc)
  next
    case False
    then show ?thesis using el t
      by (auto simp: ring_elems_def r'_def nextPointer_def split split: if_splits)
  qed
  ultimately show ?thesis by blast
qed

lemma ring_elems_Nil_iff: "ring_inv r \<Longrightarrow> ring_elems r = [] \<longleftrightarrow> tail r = header r"
  by (auto simp: ring_inv_def ring_elems_def split: if_splits)

lemma ring_Size_bound: "ring_inv r \<Longrightarrow> ring_elems r \<noteq> [] \<Longrightarrow> int (Size r) \<le> Capacity r"
  by (auto simp: ring_inv_def ring_elems_def Size_def Capacity_def split: if_splits)

interpretation ring: bounded_fifo Push Pop Size Capacity None ring_elems ring_inv
proof unfold_locales
  fix q :: "'a Ring" and v :: "'a option"
  assume "ring_inv q" "Capacity q \<le> int (length (ring_elems q))"
  then show "Push q v = Some (q, False)"
    using ring_full_iff [of q] by (simp add: Push_def)
next
  fix q :: "'a Ring"
  assume "ring_inv q" "ring_elems q = []"
  then show "Pop q = Some (q, None)" by (simp add: ring_elems_Nil_iff Pop_def)
qed (simp_all add: ring_push_room ring_pop_elem length_ring_elems ring_Size_bound)

text \<open>
  C22. A ring of capacity \<open>n\<close> is a bounded FIFO queue: from the new ring every sequence of
  pushes and pops runs without a panic, answers exactly as the list queue of bound \<open>n\<close>
  does (a push is refused iff \<open>n\<close> elements are queued, a pop returns the oldest one,
  \<^verbatim>\<open>nil\<close> when there is none), and the final size and capacity agree with it.
\<close>

theorem ring_is_bounded_fifo:
  fixes ops :: "'a option queue_op list"
  shows "\<exists>r r' outs. NewRing (int n) = Some r \<and> queue_run Push Pop ops r = Some (r', outs) \<and>
     fifo_run (int n) None ops [] = (ring_elems r', outs) \<and>
     Size r' = length (ring_elems r') \<and> Size r' \<le> n \<and> Capacity r' = int n"
proof -
  obtain r :: "'a Ring"
    where r: "NewRing (int n) = Some r" "ring_inv r" "ring_elems r = []" "Capacity r = int n"
    using NewRing_spec [of "int n"] by auto
  from ring.run_refines_fifo [OF r(2), of ops] obtain r' outs
    where r': "queue_run Push Pop ops r = Some (r', outs)" "ring_inv r'" "Capacity r' = Capacity r"
      "fifo_run (Capacity r) None ops (ring_elems r) = (ring_elems r', outs)" by blast
  have "int (Size r') \<le> int n"
    using ring_Size_bound [OF r'(2)] r'(3) r(4) length_ring_elems [OF r'(2)]
    by (cases "ring_elems r' = []") auto
  with r r' length_ring_elems [OF r'(2)] show ?thesis by auto
qed

end
