(* ===== verification/Worker_Manager.thy ===== *)
theory Worker_Manager
  imports Ring
begin

text \<open>
  The worker pool of \<^verbatim>\<open>pkg/appsrv/workers.go\<close> with the request side of
  \<^verbatim>\<open>pkg/appsrv/response.go\<close> that hands workers over and detaches them.

  \<^item> A \<^verbatim>\<open>*SWorker\<close> is an index into \<open>heap\<close>. An element of a \<^verbatim>\<open>container/list\<close> is a
    fresh number; a list holds pairs of an element and the worker it carries, so that
    \<^verbatim>\<open>e.list == l\<close> reads: the element occurs in \<open>l\<close>.
  \<^item> \<open>pcs\<close> holds, per worker goroutine, where \<^verbatim>\<open>run\<close> stands. Each step is one critical
    section of the code (one mutex, or one channel operation); the steps of different
    goroutines interleave freely in \<open>pool_step\<close>.
  \<^item> \<open>accepted\<close>, \<open>started\<close>, \<open>executed\<close> and \<open>issued\<close> are logs; the code never
    reads them. \<open>issued\<close> makes every call of \<^verbatim>\<open>Run\<close> bring a task of its own.
\<close>

section \<open>Data\<close>

definition WORKER_STATE_ACTIVE :: int where "WORKER_STATE_ACTIVE = 0"
definition WORKER_STATE_DETACH :: int where "WORKER_STATE_DETACH = 1"

record SWorker =
  wid :: "64 word"
  state :: int
  container :: "nat option"

text \<open>A task: a number for its closures, and whether it carries a channel (\<^verbatim>\<open>worker != nil\<close>).\<close>

record sWorkerTask =
  task :: nat
  worker_chan :: bool

type_synonym SWorkerList = "(nat \<times> nat) list"

record SWorkerManager =
  mname :: string
  queue :: "sWorkerTask Ring"
  workerCount :: int
  backlog :: int
  activeWorker :: SWorkerList
  detachedWorker :: SWorkerList
  workerId :: "64 word"
  dbWorker :: bool

datatype run_pc = AtCheck | AtPop | AtHandoff sWorkerTask | AtExec sWorkerTask | AtRemove | Finished

record Pool =
  mgr :: SWorkerManager
  heap :: "SWorker list"
  nelem :: nat
  pcs :: "run_pc list"
  calls :: "sWorkerTask list"
  waiting :: "(nat \<times> nat option) list"
  issued :: "nat list"
  accepted :: "sWorkerTask list"
  started :: "sWorkerTask list"
  executed :: "sWorkerTask list"

section \<open>Operations\<close>

definition newWorker :: "64 word \<Rightarrow> SWorker" where
  "newWorker i = \<lparr>wid = i, state = WORKER_STATE_ACTIVE, container = None\<rparr>"

definition isDetached :: "Pool \<Rightarrow> nat \<Rightarrow> bool" where
  "isDetached s w \<longleftrightarrow> state (heap s ! w) = WORKER_STATE_DETACH"

definition StateStr :: "SWorker \<Rightarrow> string" where
  "StateStr w = (if state w = WORKER_STATE_ACTIVE then ''active'' else ''detach'')"

definition setWorker :: "nat \<Rightarrow> (SWorker \<Rightarrow> SWorker) \<Rightarrow> Pool \<Rightarrow> Pool" where
  "setWorker w f s = s\<lparr>heap := (heap s)[w := f (heap s ! w)]\<rparr>"

definition addActive :: "nat \<Rightarrow> Pool \<Rightarrow> Pool" where
  "addActive w s =
     (let ele = nelem s;
          s = s\<lparr>nelem := ele + 1, mgr := (mgr s)\<lparr>activeWorker := activeWorker (mgr s) @ [(ele, w)]\<rparr>\<rparr>
      in setWorker w (\<lambda>r. r\<lparr>container := Some ele\<rparr>) s)"

definition addDetached :: "nat \<Rightarrow> Pool \<Rightarrow> Pool" where
  "addDetached w s =
     (let ele = nelem s;
          s = s\<lparr>nelem := ele + 1, mgr := (mgr s)\<lparr>detachedWorker := detachedWorker (mgr s) @ [(ele, w)]\<rparr>\<rparr>
      in setWorker w (\<lambda>r. r\<lparr>container := Some ele\<rparr>) s)"

text \<open>\<^verbatim>\<open>list.Remove(nil)\<close> dereferences the nil element and panics; it removes \<open>e\<close> from
  \<open>l\<close> only where \<open>e\<close> is in \<open>l\<close>.\<close>

definition removeActive :: "nat \<Rightarrow> Pool \<Rightarrow> Pool option" where
  "removeActive w s =
     do { ele \<leftarrow> container (heap s ! w);
          Some (setWorker w (\<lambda>r. r\<lparr>container := None\<rparr>)
            (s\<lparr>mgr := (mgr s)\<lparr>activeWorker := filter (\<lambda>x. fst x \<noteq> ele) (activeWorker (mgr s))\<rparr>\<rparr>)) }"

definition removeDetached :: "nat \<Rightarrow> Pool \<Rightarrow> Pool option" where
  "removeDetached w s =
     do { ele \<leftarrow> container (heap s ! w);
          Some (setWorker w (\<lambda>r. r\<lparr>container := None\<rparr>)
            (s\<lparr>mgr := (mgr s)\<lparr>detachedWorker := filter (\<lambda>x. fst x \<noteq> ele) (detachedWorker (mgr s))\<rparr>\<rparr>)) }"

definition ActiveWorkerCount :: "SWorkerManager \<Rightarrow> nat" where
  "ActiveWorkerCount m = length (activeWorker m)"

definition DetachedWorkerCount :: "SWorkerManager \<Rightarrow> nat" where
  "DetachedWorkerCount m = length (detachedWorker m)"

definition NewWorkerManager :: "string \<Rightarrow> int \<Rightarrow> int \<Rightarrow> bool \<Rightarrow> SWorkerManager option" where
  "NewWorkerManager n cnt blog db =
     do { q \<leftarrow> NewRing (wrap64 (cnt * blog));
          Some \<lparr>mname = n, queue = q, workerCount = cnt, backlog = blog, activeWorker = [],
                detachedWorker = [], workerId = 0, dbWorker = db\<rparr> }"

text \<open>\<^verbatim>\<open>scheduleWithLock\<close>; \<^verbatim>\<open>go worker.run()\<close> starts the goroutine at its loop head.\<close>

definition scheduleWithLock :: "Pool \<Rightarrow> Pool" where
  "scheduleWithLock s =
     (if int (ActiveWorkerCount (mgr s)) < workerCount (mgr s) \<and> Size (queue (mgr s)) > 0 then
        let s = s\<lparr>mgr := (mgr s)\<lparr>workerId := workerId (mgr s) + 1\<rparr>\<rparr>;
            w = length (heap s);
            s = s\<lparr>heap := heap s @ [newWorker (workerId (mgr s))]\<rparr>;
            s = addActive w s
        in s\<lparr>pcs := pcs s @ [AtCheck]\<rparr>
      else s)"

definition removeWorker :: "nat \<Rightarrow> Pool \<Rightarrow> Pool option" where
  "removeWorker w s =
     (if state (heap s ! w) = WORKER_STATE_ACTIVE then removeActive w s else removeDetached w s)"

text \<open>\<^verbatim>\<open>Detach\<close>: the flag says that it panicked; what was written before the panic stays.\<close>

definition Detach :: "nat \<Rightarrow> Pool \<Rightarrow> Pool \<times> bool" where
  "Detach w s =
     (let s = setWorker w (\<lambda>r. r\<lparr>state := WORKER_STATE_DETACH\<rparr>) s
      in case removeActive w s of
           None \<Rightarrow> (s, True)
         | Some s \<Rightarrow> (scheduleWithLock (addDetached w s), False))"

record SWorkerManagerStates =
  Name :: string
  Backlog :: int
  QueueCnt :: nat
  MaxWorkerCnt :: int
  ActiveWorkerCnt :: nat
  DetachWorkerCnt :: nat

definition getState :: "SWorkerManager \<Rightarrow> SWorkerManagerStates" where
  "getState m = \<lparr>Name = mname m, Backlog = backlog m, QueueCnt = Size (queue m),
     MaxWorkerCnt = workerCount m, ActiveWorkerCnt = length (activeWorker m),
     DetachWorkerCnt = length (detachedWorker m)\<rparr>"

definition GetDBConnectionCount :: "SWorkerManager list \<Rightarrow> int" where
  "GetDBConnectionCount ms = fold (\<lambda>m conn. if dbWorker m then wrap64 (conn + workerCount m) else conn) ms 0"

section \<open>Steps\<close>

text \<open>
  \<^verbatim>\<open>Run\<close> pushes and, if the push succeeded, schedules; the caller then enters \<^verbatim>\<open>wait\<close>
  (when it passed a channel). \<open>run_push\<close> is the push, \<open>run_schedule\<close> the locked schedule.
\<close>

definition run_push :: "sWorkerTask \<Rightarrow> Pool \<Rightarrow> (Pool \<times> bool) option" where
  "run_push t s =
     do { (q, ret) \<leftarrow> Push (queue (mgr s)) (Some t);
          let s = s\<lparr>mgr := (mgr s)\<lparr>queue := q\<rparr>, issued := issued s @ [task t]\<rparr>;
          Some (if ret then (s\<lparr>calls := calls s @ [t], accepted := accepted s @ [t]\<rparr>, True)
                else (s, False)) }"

definition enter_wait :: "sWorkerTask \<Rightarrow> Pool \<Rightarrow> Pool" where
  "enter_wait t s = (if worker_chan t then s\<lparr>waiting := waiting s @ [(task t, None)]\<rparr> else s)"

definition run_schedule :: "sWorkerTask \<Rightarrow> Pool \<Rightarrow> Pool" where
  "run_schedule t s = enter_wait t (scheduleWithLock (s\<lparr>calls := remove1 t (calls s)\<rparr>))"

definition setPc :: "nat \<Rightarrow> run_pc \<Rightarrow> Pool \<Rightarrow> Pool" where
  "setPc w pc s = s\<lparr>pcs := (pcs s)[w := pc]\<rparr>"

definition run_pop :: "nat \<Rightarrow> Pool \<Rightarrow> Pool option" where
  "run_pop w s =
     do { (q, req) \<leftarrow> Pop (queue (mgr s));
          let s = s\<lparr>mgr := (mgr s)\<lparr>queue := q\<rparr>\<rparr>;
          Some (case req of
                  Some t \<Rightarrow> setPc w (if worker_chan t then AtHandoff t else AtExec t)
                              (s\<lparr>started := started s @ [t]\<rparr>)
                | None \<Rightarrow> setPc w AtRemove s) }"

text \<open>
  One rule per critical section of \<^verbatim>\<open>SWorker.run\<close>, \<^verbatim>\<open>SWorkerManager.Run\<close> and
  \<^verbatim>\<open>responseWriterChannel.wait\<close>. The unbuffered send \<^verbatim>\<open>task.worker <- worker\<close> proceeds only
  with a request that still waits for that task. A request stops waiting when the task closed
  its channels (after it ran), or at its deadline, when it detaches the worker it received.
\<close>

inductive pool_step :: "Pool \<Rightarrow> Pool \<Rightarrow> bool" where
  call_ok: "task t \<notin> set (issued s) \<Longrightarrow> run_push t s = Some (s', True) \<Longrightarrow> pool_step s s'"
| call_full: "task t \<notin> set (issued s) \<Longrightarrow> run_push t s = Some (s', False) \<Longrightarrow> pool_step s (enter_wait t s')"
| call_schedule: "t \<in> set (calls s) \<Longrightarrow> pool_step s (run_schedule t s)"
| worker_check: "w < length (pcs s) \<Longrightarrow> pcs s ! w = AtCheck \<Longrightarrow>
    pool_step s (setPc w (if isDetached s w then AtRemove else AtPop) s)"
| worker_pop: "w < length (pcs s) \<Longrightarrow> pcs s ! w = AtPop \<Longrightarrow> run_pop w s = Some s' \<Longrightarrow>
    pool_step s s'"
| worker_handoff: "w < length (pcs s) \<Longrightarrow> pcs s ! w = AtHandoff t \<Longrightarrow>
    i < length (waiting s) \<Longrightarrow> fst (waiting s ! i) = task t \<Longrightarrow>
    pool_step s (setPc w (AtExec t) (s\<lparr>waiting := (waiting s)[i := (task t, Some w)]\<rparr>))"
| worker_exec: "w < length (pcs s) \<Longrightarrow> pcs s ! w = AtExec t \<Longrightarrow>
    pool_step s (setPc w AtCheck (s\<lparr>executed := executed s @ [t]\<rparr>))"
| worker_remove: "w < length (pcs s) \<Longrightarrow> pcs s ! w = AtRemove \<Longrightarrow> removeWorker w s = Some s' \<Longrightarrow>
    pool_step s (setPc w Finished s')"
| wait_done: "i < length (waiting s) \<Longrightarrow> fst (waiting s ! i) \<in> task ` set (executed s) \<Longrightarrow>
    pool_step s (s\<lparr>waiting := take i (waiting s) @ drop (Suc i) (waiting s)\<rparr>)"
| wait_timeout_queued: "i < length (waiting s) \<Longrightarrow> snd (waiting s ! i) = None \<Longrightarrow>
    pool_step s (s\<lparr>waiting := take i (waiting s) @ drop (Suc i) (waiting s)\<rparr>)"
| wait_timeout_running: "i < length (waiting s) \<Longrightarrow> snd (waiting s ! i) = Some w \<Longrightarrow>
    Detach w (s\<lparr>waiting := take i (waiting s) @ drop (Suc i) (waiting s)\<rparr>) = (s', panicked) \<Longrightarrow>
    pool_step s s'"

definition new_pool :: "string \<Rightarrow> int \<Rightarrow> int \<Rightarrow> bool \<Rightarrow> Pool option" where
  "new_pool n cnt blog db =
     map_option (\<lambda>m. \<lparr>mgr = m, heap = [], nelem = 0, pcs = [], calls = [], waiting = [], issued = [],
       accepted = [], started = [], executed = []\<rparr>) (NewWorkerManager n cnt blog db)"

definition pool_init :: "Pool \<Rightarrow> bool" where
  "pool_init s \<longleftrightarrow> (\<exists>n cnt blog db. new_pool n cnt blog db = Some s)"

section \<open>The invariant\<close>

text \<open>
  What the two lists say of the workers: an element is in one list at most; a worker has a
  container until its goroutine has removed it, the container is in the list of the worker's
  state, and the active list holds containers of active workers only.
\<close>

definition worker_ok :: "SWorkerList \<Rightarrow> SWorkerList \<Rightarrow> nat \<Rightarrow> SWorker \<Rightarrow> run_pc \<Rightarrow> bool" where
  "worker_ok act det w r pc \<longleftrightarrow>
     (pc = Finished \<longleftrightarrow> container r = None) \<and>
     (state r = WORKER_STATE_ACTIVE \<or> state r = WORKER_STATE_DETACH) \<and>
     (\<forall>e. container r = Some e \<longrightarrow> (e, w) \<in> set (if state r = WORKER_STATE_ACTIVE then act else det))"

definition lists_ok :: "SWorkerList \<Rightarrow> SWorkerList \<Rightarrow> nat \<Rightarrow> SWorker list \<Rightarrow> run_pc list \<Rightarrow> bool" where
  "lists_ok act det n hp pc \<longleftrightarrow>
     length pc = length hp \<and> distinct (map fst (act @ det)) \<and> (\<forall>x \<in> set (act @ det). fst x < n) \<and>
     (\<forall>w < length hp. worker_ok act det w (hp ! w) (pc ! w)) \<and>
     (\<forall>x \<in> set act. snd x < length hp \<and> state (hp ! snd x) = WORKER_STATE_ACTIVE \<and>
        container (hp ! snd x) = Some (fst x))"

lemmas worker_defs = worker_ok_def WORKER_STATE_ACTIVE_def WORKER_STATE_DETACH_def

lemma lists_ok_spawn:
  assumes "lists_ok act det n hp pc"
  shows "lists_ok (act @ [(n, length hp)]) det (Suc n)
           (hp @ [\<lparr>wid = i, state = WORKER_STATE_ACTIVE, container = Some n\<rparr>]) (pc @ [AtCheck])"
  using assms unfolding lists_ok_def
  by (auto simp: worker_defs nth_append less_Suc_eq)

lemma lists_ok_container_unique:
  assumes ok: "lists_ok act det n hp pc" and vw: "v < length hp" "w < length hp" "v \<noteq> w"
    and e: "container (hp ! w) = Some e"
  shows "container (hp ! v) \<noteq> Some e"
proof
  assume "container (hp ! v) = Some e"
  with ok vw e have "(e, v) \<in> set (act @ det)" "(e, w) \<in> set (act @ det)"
    by (auto simp: lists_ok_def worker_ok_def split: if_splits)
  moreover have "distinct (map fst (act @ det))" using ok by (simp add: lists_ok_def)
  ultimately have "v = w" by (rule eq_key_imp_eq_value [rotated 1])
  with vw show False by simp
qed

text \<open>
  The three ways an operation changes a worker of the heap: it is moved to the detached list,
  it is marked detached without having a container, or its container is removed.
\<close>

lemma lists_ok_detach:
  assumes ok: "lists_ok act det n hp pc" and w: "w < length hp" and e: "container (hp ! w) = Some e"
  shows "lists_ok (filter (\<lambda>x. fst x \<noteq> e) act) (det @ [(n, w)]) (Suc n)
           (hp[w := (hp ! w)\<lparr>state := WORKER_STATE_DETACH, container := Some n\<rparr>]) pc"
    (is "lists_ok ?act ?det _ (hp[w := ?r]) pc")
proof -
  have "worker_ok ?act ?det v (hp[w := ?r] ! v) (pc ! v)" if "v < length hp" for v
    using ok that lists_ok_container_unique [OF ok that w _ e] w e
    by (cases "v = w") (auto simp: lists_ok_def worker_defs)
  moreover have "snd x < length hp \<and> state (hp[w := ?r] ! snd x) = WORKER_STATE_ACTIVE \<and>
      container (hp[w := ?r] ! snd x) = Some (fst x)" if "x \<in> set ?act" for x
    using ok that e by (cases "snd x = w") (auto simp: lists_ok_def)
  ultimately show ?thesis using ok
    by (auto simp: lists_ok_def distinct_map_filter less_Suc_eq)
qed

lemma lists_ok_detach_gone:
  assumes ok: "lists_ok act det n hp pc" and w: "w < length hp" and e: "container (hp ! w) = None"
  shows "lists_ok act det n (hp[w := (hp ! w)\<lparr>state := WORKER_STATE_DETACH\<rparr>]) pc"
    (is "lists_ok _ _ _ (hp[w := ?r]) _")
proof -
  have "worker_ok act det v (hp[w := ?r] ! v) (pc ! v)" if "v < length hp" for v
    using ok that w e by (cases "v = w") (auto simp: lists_ok_def worker_defs)
  moreover have "snd x < length hp \<and> state (hp[w := ?r] ! snd x) = WORKER_STATE_ACTIVE \<and>
      container (hp[w := ?r] ! snd x) = Some (fst x)" if "x \<in> set act" for x
    using ok that e by (cases "snd x = w") (auto simp: lists_ok_def)
  ultimately show ?thesis using ok by (auto simp: lists_ok_def)
qed

lemma lists_ok_remove:
  assumes ok: "lists_ok act det n hp pc" and w: "w < length hp" and e: "container (hp ! w) = Some e"
    and act: "act' = (if state (hp ! w) = WORKER_STATE_ACTIVE then filter (\<lambda>x. fst x \<noteq> e) act else act)"
    and det: "det' = (if state (hp ! w) = WORKER_STATE_ACTIVE then det else filter (\<lambda>x. fst x \<noteq> e) det)"
  shows "lists_ok act' det' n (hp[w := (hp ! w)\<lparr>container := None\<rparr>]) (pc[w := Finished])"
    (is "lists_ok _ _ _ (hp[w := ?r]) _")
proof -
  have "worker_ok act' det' v (hp[w := ?r] ! v) (pc[w := Finished] ! v)" if "v < length hp" for v
    using ok that lists_ok_container_unique [OF ok that w _ e] w e act det
    by (cases "v = w") (auto simp: lists_ok_def worker_defs)
  moreover have "snd x < length hp \<and> state (hp[w := ?r] ! snd x) = WORKER_STATE_ACTIVE \<and>
      container (hp[w := ?r] ! snd x) = Some (fst x)" if "x \<in> set act'" for x
    using ok that e act by (cases "snd x = w") (auto simp: lists_ok_def split: if_splits)
  ultimately show ?thesis using ok act det
    by (auto simp: lists_ok_def distinct_map_filter split: if_splits)
qed

lemma lists_ok_pc:
  assumes "lists_ok act det n hp pc" "w < length hp" "(q = Finished) = (pc ! w = Finished)"
  shows "lists_ok act det n hp (pc[w := q])"
  using assms by (auto simp: lists_ok_def worker_ok_def nth_list_update)

lemma int_length_filter_le [intro]: "int (length xs) \<le> m \<Longrightarrow> int (length (filter P xs)) \<le> m"
  using length_filter_le [of P xs] by linarith

definition pool_inv :: "Pool \<Rightarrow> bool" where
  "pool_inv s \<longleftrightarrow>
     ring_inv (queue (mgr s)) \<and>
     lists_ok (activeWorker (mgr s)) (detachedWorker (mgr s)) (nelem s) (heap s) (pcs s) \<and>
     int (length (activeWorker (mgr s))) \<le> max 0 (workerCount (mgr s)) \<and>
     (\<forall>x \<in> set (waiting s). \<forall>w. snd x = Some w \<longrightarrow> w < length (heap s)) \<and>
     map Some (accepted s) = map Some (started s) @ ring_elems (queue (mgr s))"

lemma pool_inv_lengths: "pool_inv s \<Longrightarrow> length (pcs s) = length (heap s)"
  by (simp add: pool_inv_def lists_ok_def)

lemma pool_init_inv: "pool_init s \<Longrightarrow> pool_inv s"
  by (auto simp: pool_init_def new_pool_def pool_inv_def NewWorkerManager_def NewRing_def ring_inv_def
      ring_elems_def lists_ok_def bind_eq_Some_conv split: if_splits)

lemma schedule_inv: "pool_inv s \<Longrightarrow> pool_inv (scheduleWithLock s)"
  using lists_ok_spawn [of "activeWorker (mgr s)" "detachedWorker (mgr s)" "nelem s" "heap s" "pcs s"
      "workerId (mgr s) + 1"]
  by (auto simp: scheduleWithLock_def addActive_def setWorker_def newWorker_def pool_inv_def Let_def
      ActiveWorkerCount_def less_SucI)

lemma detach_inv:
  assumes inv: "pool_inv s" and w: "w < length (heap s)"
  shows "pool_inv (fst (Detach w s))"
proof (cases "container (heap s ! w)")
  case None
  with inv w lists_ok_detach_gone [of "activeWorker (mgr s)" "detachedWorker (mgr s)" "nelem s" "heap s" "pcs s" w]
  show ?thesis by (auto simp: Detach_def removeActive_def setWorker_def pool_inv_def Let_def)
next
  case (Some e)
  define s1 where "s1 = s\<lparr>nelem := Suc (nelem s),
      mgr := (mgr s)\<lparr>activeWorker := filter (\<lambda>x. fst x \<noteq> e) (activeWorker (mgr s)),
        detachedWorker := detachedWorker (mgr s) @ [(nelem s, w)]\<rparr>,
      heap := (heap s)[w := (heap s ! w)\<lparr>state := WORKER_STATE_DETACH, container := Some (nelem s)\<rparr>]\<rparr>"
  have "Detach w s = (scheduleWithLock s1, False)"
    using Some w by (simp add: Detach_def removeActive_def addDetached_def setWorker_def Let_def s1_def)
  moreover have "pool_inv s1"
  proof -
    have "lists_ok (activeWorker (mgr s1)) (detachedWorker (mgr s1)) (nelem s1) (heap s1) (pcs s1)"
      using lists_ok_detach [OF _ w Some] inv by (simp add: pool_inv_def s1_def)
    then show ?thesis using inv by (auto simp: pool_inv_def s1_def)
  qed
  ultimately show ?thesis by (simp add: schedule_inv)
qed

lemma remove_inv:
  assumes inv: "pool_inv s" and w: "w < length (heap s)" and pc: "pcs s ! w \<noteq> Finished"
  shows "\<exists>s'. removeWorker w s = Some s' \<and> pool_inv (setPc w Finished s')"
proof -
  have ok: "lists_ok (activeWorker (mgr s)) (detachedWorker (mgr s)) (nelem s) (heap s) (pcs s)"
    using inv by (simp add: pool_inv_def)
  with w pc obtain e where e: "container (heap s ! w) = Some e"
    by (auto simp: lists_ok_def worker_ok_def)
  show ?thesis using inv e lists_ok_remove [OF ok w e refl refl]
    by (auto simp: removeWorker_def removeActive_def removeDetached_def setWorker_def setPc_def
        pool_inv_def)
qed

lemma push_inv:
  assumes "pool_inv s" "run_push t s = Some (s', b)"
  shows "pool_inv s' \<and> (b \<longrightarrow> t \<in> set (calls s'))"
proof -
  have q: "ring_inv (queue (mgr s))" using assms by (simp add: pool_inv_def)
  from assms ring.push_total [OF q, of "Some t"] show ?thesis
    by (auto simp: run_push_def pool_inv_def Let_def split: if_splits)
qed

lemma pop_inv:
  assumes "pool_inv s" "run_pop w s = Some s'" "w < length (pcs s)" "pcs s ! w = AtPop"
  shows "pool_inv s'"
proof -
  have q: "ring_inv (queue (mgr s))" using assms by (simp add: pool_inv_def)
  obtain q' v where v: "Pop (queue (mgr s)) = Some (q', v)" "ring_inv q'"
      "ring_elems q' = tl (ring_elems (queue (mgr s)))"
      "v = (case ring_elems (queue (mgr s)) of [] \<Rightarrow> None | x # _ \<Rightarrow> x)"
    using ring.pop_total [OF q] by blast
  have el: "\<exists>ts. ring_elems (queue (mgr s)) = map Some ts"
    using assms(1) by (auto simp: pool_inv_def map_eq_append_conv)
  have pcs: "lists_ok act det n (heap s) ((pcs s)[w := p])"
    if "lists_ok act det n (heap s) (pcs s)" "p \<noteq> Finished" for act det n p
    using that assms lists_ok_pc [of act det n "heap s" "pcs s" w p] by (simp add: lists_ok_def)
  show ?thesis
  proof (cases "ring_elems (queue (mgr s))")
    case Nil
    with v have "Pop (queue (mgr s)) = Some (q', None)" "ring_elems q' = []" by simp_all
    with Nil show ?thesis using assms v(2) pcs
      by (auto simp: run_pop_def pool_inv_def setPc_def Let_def)
  next
    case (Cons x xs)
    with el obtain t where "x = Some t" by auto
    with v Cons have "Pop (queue (mgr s)) = Some (q', Some t)" "ring_elems q' = xs" by simp_all
    with Cons \<open>x = Some t\<close> show ?thesis using assms v(2) pcs
      by (auto simp: run_pop_def pool_inv_def setPc_def Let_def)
  qed
qed

lemma setPc_inv:
  assumes "pool_inv s" "w < length (pcs s)" "pcs s ! w \<noteq> Finished" "q \<noteq> Finished"
  shows "pool_inv (setPc w q s)"
  using assms lists_ok_pc [of "activeWorker (mgr s)" "detachedWorker (mgr s)" "nelem s" "heap s" "pcs s" w q]
  by (simp add: pool_inv_def setPc_def lists_ok_def)

lemma waiting_inv: "pool_inv s \<Longrightarrow> set xs \<subseteq> set (waiting s) \<Longrightarrow> pool_inv (s\<lparr>waiting := xs\<rparr>)"
  by (auto simp: pool_inv_def)

lemma set_take_drop: "set (take i xs @ drop (Suc i) xs) \<subseteq> set xs"
  by (auto dest: in_set_takeD in_set_dropD)

lemma enter_wait_inv: "pool_inv s \<Longrightarrow> pool_inv (enter_wait t s)"
  by (auto simp: enter_wait_def pool_inv_def)

lemma pool_step_inv: "pool_step s s' \<Longrightarrow> pool_inv s \<Longrightarrow> pool_inv s'"
proof (induction rule: pool_step.induct)
  case (call_ok t s s')
  then show ?case using push_inv by blast
next
  case (call_full t s s')
  then show ?case using push_inv enter_wait_inv by blast
next
  case (call_schedule t s)
  then have "pool_inv (s\<lparr>calls := remove1 t (calls s)\<rparr>)" by (simp add: pool_inv_def)
  then show ?case by (simp add: run_schedule_def enter_wait_inv schedule_inv)
next
  case (worker_check w s)
  then show ?case by (simp add: setPc_inv)
next
  case (worker_pop w s s')
  then show ?case using pop_inv by blast
next
  case (worker_handoff w s t i)
  then have "pool_inv (s\<lparr>waiting := (waiting s)[i := (task t, Some w)]\<rparr>)"
    using set_update_subset_insert [of "waiting s" i "(task t, Some w)"]
    by (auto simp: pool_inv_def lists_ok_def)
  with worker_handoff show ?case by (simp add: setPc_inv)
next
  case (worker_exec w s t)
  then have "pool_inv (s\<lparr>executed := executed s @ [t]\<rparr>)" by (simp add: pool_inv_def)
  with worker_exec show ?case by (simp add: setPc_inv)
next
  case (worker_remove w s s')
  then obtain s1 where "removeWorker w s = Some s1" "pool_inv (setPc w Finished s1)"
    using remove_inv [of s w] by (metis pool_inv_lengths run_pc.distinct(29))
  with worker_remove show ?case by simp
next
  case (wait_done i s)
  from wait_done.prems show ?case by (rule waiting_inv [OF _ set_take_drop])
next
  case (wait_timeout_queued i s)
  from wait_timeout_queued.prems show ?case by (rule waiting_inv [OF _ set_take_drop])
next
  case (wait_timeout_running i s w s' panicked)
  let ?s = "s\<lparr>waiting := take i (waiting s) @ drop (Suc i) (waiting s)\<rparr>"
  have "waiting s ! i \<in> set (waiting s)" using wait_timeout_running by simp
  then have "w < length (heap ?s)" using wait_timeout_running by (auto simp: pool_inv_def)
  moreover have "pool_inv ?s" 
    by (rule waiting_inv [OF wait_timeout_running.prems set_take_drop])
  ultimately have "pool_inv (fst (Detach w ?s))" by (intro detach_inv)
  with wait_timeout_running show ?case by simp
qed

interpretation pool: inductive_invariant pool_init pool_step pool_inv
  by unfold_locales (auto intro: pool_init_inv pool_step_inv)

section \<open>Executable runs\<close>

text \<open>The steps as a function of an action, so that a concrete interleaving can be evaluated.\<close>

datatype pool_act =
    Call sWorkerTask | Schedule sWorkerTask | Check nat | PopQ nat | Handoff nat nat | Exec nat
  | Remove nat | WaitDone nat | TimeoutQueued nat | TimeoutRunning nat

definition drop_waiting :: "nat \<Rightarrow> Pool \<Rightarrow> Pool" where
  "drop_waiting i s = s\<lparr>waiting := take i (waiting s) @ drop (Suc i) (waiting s)\<rparr>"

fun pool_exec :: "pool_act \<Rightarrow> Pool \<Rightarrow> Pool option" where
  "pool_exec (Call t) s =
     (if task t \<in> set (issued s) then None
      else do { (s', ok) \<leftarrow> run_push t s; Some (if ok then s' else enter_wait t s') })"
| "pool_exec (Schedule t) s = (if t \<in> set (calls s) then Some (run_schedule t s) else None)"
| "pool_exec (Check w) s =
     (if w < length (pcs s) \<and> pcs s ! w = AtCheck
      then Some (setPc w (if isDetached s w then AtRemove else AtPop) s) else None)"
| "pool_exec (PopQ w) s = (if w < length (pcs s) \<and> pcs s ! w = AtPop then run_pop w s else None)"
| "pool_exec (Handoff w i) s =
     (if w < length (pcs s) \<and> i < length (waiting s) then
        case pcs s ! w of
          AtHandoff t \<Rightarrow> if fst (waiting s ! i) = task t
            then Some (setPc w (AtExec t) (s\<lparr>waiting := (waiting s)[i := (task t, Some w)]\<rparr>)) else None
        | _ \<Rightarrow> None
      else None)"
| "pool_exec (Exec w) s =
     (if w < length (pcs s) then
        case pcs s ! w of AtExec t \<Rightarrow> Some (setPc w AtCheck (s\<lparr>executed := executed s @ [t]\<rparr>)) | _ \<Rightarrow> None
      else None)"
| "pool_exec (Remove w) s =
     (if w < length (pcs s) \<and> pcs s ! w = AtRemove then map_option (setPc w Finished) (removeWorker w s)
      else None)"
| "pool_exec (WaitDone i) s =
     (if i < length (waiting s) \<and> fst (waiting s ! i) \<in> set (map task (executed s))
      then Some (drop_waiting i s) else None)"
| "pool_exec (TimeoutQueued i) s =
     (if i < length (waiting s) \<and> snd (waiting s ! i) = None then Some (drop_waiting i s) else None)"
| "pool_exec (TimeoutRunning i) s =
     (if i < length (waiting s) then
        case snd (waiting s ! i) of Some w \<Rightarrow> Some (fst (Detach w (drop_waiting i s))) | None \<Rightarrow> None
      else None)"

fun pool_execs :: "pool_act list \<Rightarrow> Pool \<Rightarrow> Pool option" where
  "pool_execs [] s = Some s"
| "pool_execs (a # as) s = do { s' \<leftarrow> pool_exec a s; pool_execs as s' }"

lemma pool_exec_step:
  assumes "pool_exec a s = Some s'"
  shows "pool_step s s'"
proof (cases a)
  case (Check w)
  with assms show ?thesis using pool_step.worker_check [of w s] by (simp split: if_splits)
next
  case (TimeoutRunning i)
  with assms show ?thesis
    by (auto simp: drop_waiting_def split: if_splits option.splits
        intro!: pool_step.wait_timeout_running [OF _ _ prod.collapse [symmetric]])
qed (use assms in \<open>auto simp: bind_eq_Some_conv drop_waiting_def
    split: if_splits run_pc.splits option.splits intro: pool_step.intros\<close>)

lemma pool_execs_reach:
  "pool_execs as s = Some s' \<Longrightarrow> reach pool_init pool_step s \<Longrightarrow> reach pool_init pool_step s'"
  by (induction as arbitrary: s)
    (auto simp: bind_eq_Some_conv dest: pool_exec_step intro: reach.reach_step)

lemma new_pool_run_reach:
  "do { s \<leftarrow> new_pool n cnt blog db; pool_execs as s } = Some s' \<Longrightarrow> reach pool_init pool_step s'"
proof -
  assume "do { s \<leftarrow> new_pool n cnt blog db; pool_execs as s } = Some s'"
  then obtain s where "pool_init s" "pool_execs as s = Some s'"
    unfolding pool_init_def bind_eq_Some_conv by blast
  then show ?thesis by (blast intro: pool_execs_reach reach.reach_init)
qed

definition strand_run :: "pool_act list" where
  "strand_run = (let a = \<lparr>task = 1, worker_chan = False\<rparr>; b = \<lparr>task = 2, worker_chan = False\<rparr> in
     [Call a, Schedule a, Check 0, PopQ 0, Exec 0, Check 0, PopQ 0, Call b, Schedule b, Remove 0])"

definition strand_state :: Pool where
  "strand_state = the (do { s \<leftarrow> new_pool ''wm'' 1 2 False; pool_execs strand_run s })"

lemma strand_reach: "reach pool_init pool_step strand_state"
proof (rule new_pool_run_reach)
  show "do { s \<leftarrow> new_pool ''wm'' 1 2 False; pool_execs strand_run s } = Some strand_state"
    by code_simp
qed

definition jam_run :: "pool_act list" where
  "jam_run = (let a = \<lparr>task = 1, worker_chan = True\<rparr> in
     [Call a, Schedule a, TimeoutQueued 0, Check 0, PopQ 0])"

definition jam_state :: Pool where
  "jam_state = the (do { s \<leftarrow> new_pool ''wm'' 1 2 False; pool_execs jam_run s })"

lemma jam_reach: "reach pool_init pool_step jam_state"
proof (rule new_pool_run_reach)
  show "do { s \<leftarrow> new_pool ''wm'' 1 2 False; pool_execs jam_run s } = Some jam_state"
    by code_simp
qed

text \<open>
  The one worker of the pool has taken a task whose request has already timed out, and sends
  on the channel that nobody reads any more.
\<close>

definition jammed :: "sWorkerTask \<Rightarrow> Pool \<Rightarrow> bool" where
  "jammed t s \<longleftrightarrow>
     workerCount (mgr s) = 1 \<and> length (activeWorker (mgr s)) = 1 \<and> pcs s = [AtHandoff t] \<and>
     task t \<in> set (issued s) \<and> (\<forall>x \<in> set (calls s). task x \<noteq> task t) \<and>
     (\<forall>x \<in> set (waiting s). fst x \<noteq> task t \<and> snd x = None)"

lemma run_push_frame:
  "run_push t s = Some (s', b) \<Longrightarrow>
     pcs s' = pcs s \<and> waiting s' = waiting s \<and> started s' = started s \<and> executed s' = executed s \<and>
     workerCount (mgr s') = workerCount (mgr s) \<and> activeWorker (mgr s') = activeWorker (mgr s) \<and>
     issued s' = issued s @ [task t] \<and> calls s' = (if b then calls s @ [t] else calls s)"
  by (auto simp: run_push_def bind_eq_Some_conv Let_def split: if_splits)

lemma jammed_step:
  assumes "pool_step s s'" and jam: "jammed t s"
  shows "jammed t s' \<and> started s' = started s \<and> executed s' = executed s"
  using assms(1)
proof cases
  case (call_ok x)
  with jam run_push_frame [OF call_ok(2)] show ?thesis by (auto simp: jammed_def)
next
  case (call_full x s1)
  with jam run_push_frame [OF call_full(3)] show ?thesis
    by (auto simp: jammed_def enter_wait_def)
next
  case (call_schedule x)
  with jam show ?thesis
    by (auto simp: jammed_def run_schedule_def scheduleWithLock_def enter_wait_def
        ActiveWorkerCount_def dest: set_remove1_subset [THEN subsetD])
next
  case (worker_handoff w x i)
  then have "waiting s ! i \<in> set (waiting s)" by simp
  with jam worker_handoff show ?thesis by (auto simp: jammed_def)
next
  case (wait_done i)
  with jam set_take_drop [of i "waiting s"] show ?thesis by (auto simp: jammed_def)
next
  case (wait_timeout_queued i)
  with jam set_take_drop [of i "waiting s"] show ?thesis by (auto simp: jammed_def)
next
  case (wait_timeout_running i w p)
  then have "waiting s ! i \<in> set (waiting s)" by simp
  with jam wait_timeout_running show ?thesis by (auto simp: jammed_def)
qed (use jam in \<open>auto simp: jammed_def\<close>)

lemma jammed_steps: "pool_step\<^sup>*\<^sup>* s s' \<Longrightarrow> jammed t s \<Longrightarrow>
    jammed t s' \<and> started s' = started s \<and> executed s' = executed s"
  by (induction rule: rtranclp_induct) (use jammed_step in fastforce)+

section \<open>Properties\<close>

lemma active_workers_distinct:
  assumes ok: "lists_ok act det n hp pc"
  shows "distinct (map snd act)"
proof -
  have "inj_on snd (set act)"
  proof (rule inj_onI)
    fix x y assume "x \<in> set act" "y \<in> set act" "snd x = snd y"
    then have "Some (fst x) = Some (fst y)" using ok by (metis lists_ok_def)
    with \<open>snd x = snd y\<close> show "x = y" by (simp add: prod_eq_iff)
  qed
  moreover have "distinct act" using ok by (auto simp: lists_ok_def distinct_map)
  ultimately show ?thesis by (simp add: distinct_map)
qed

text \<open>
  C1. In every reachable state of the pool, whatever the interleaving of calls, workers and
  request timeouts, the active list holds exactly the workers that are active and have not
  left, each once, and there are at most \<^verbatim>\<open>workerCount\<close> of them; and a worker that leaves
  never panics in \<^verbatim>\<open>removeWorker\<close>.
\<close>

theorem pool_concurrency_bound:
  assumes "reach pool_init pool_step s"
  shows "snd ` set (activeWorker (mgr s)) =
           {w. w < length (heap s) \<and> state (heap s ! w) = WORKER_STATE_ACTIVE \<and> pcs s ! w \<noteq> Finished} \<and>
         distinct (map snd (activeWorker (mgr s))) \<and>
         int (ActiveWorkerCount (mgr s)) \<le> max 0 (workerCount (mgr s)) \<and>
         (\<forall>w < length (pcs s). pcs s ! w = AtRemove \<longrightarrow> removeWorker w s \<noteq> None)"
proof (intro conjI allI impI)
  have inv: "pool_inv s" using assms by (rule pool.inv_reach)
  then have ok: "lists_ok (activeWorker (mgr s)) (detachedWorker (mgr s)) (nelem s) (heap s) (pcs s)"
    by (simp add: pool_inv_def)
  show "snd ` set (activeWorker (mgr s)) =
      {w. w < length (heap s) \<and> state (heap s ! w) = WORKER_STATE_ACTIVE \<and> pcs s ! w \<noteq> Finished}"
  proof (intro set_eqI iffI CollectI)
    fix w assume "w \<in> snd ` set (activeWorker (mgr s))"
    then obtain e where e: "(e, w) \<in> set (activeWorker (mgr s))" by auto
    with ok have "w < length (heap s)" "state (heap s ! w) = WORKER_STATE_ACTIVE"
      "container (heap s ! w) = Some e" by (auto simp: lists_ok_def)
    with ok show "w < length (heap s) \<and> state (heap s ! w) = WORKER_STATE_ACTIVE \<and> pcs s ! w \<noteq> Finished"
      by (auto simp: lists_ok_def worker_ok_def)
  next
    fix w assume "w \<in> {w. w < length (heap s) \<and> state (heap s ! w) = WORKER_STATE_ACTIVE \<and> pcs s ! w \<noteq> Finished}"
    with ok have "worker_ok (activeWorker (mgr s)) (detachedWorker (mgr s)) w (heap s ! w) (pcs s ! w)"
      "state (heap s ! w) = WORKER_STATE_ACTIVE" "pcs s ! w \<noteq> Finished" by (auto simp: lists_ok_def)
    then obtain e where "(e, w) \<in> set (activeWorker (mgr s))" by (auto simp: worker_ok_def)
    then show "w \<in> snd ` set (activeWorker (mgr s))" by force
  qed
  show "distinct (map snd (activeWorker (mgr s)))"
    using ok active_workers_distinct by blast
  show "int (ActiveWorkerCount (mgr s)) \<le> max 0 (workerCount (mgr s))"
    using inv by (simp add: pool_inv_def ActiveWorkerCount_def)
  fix w assume "w < length (pcs s)" "pcs s ! w = AtRemove"
  then show "removeWorker w s \<noteq> None"
    using remove_inv [OF inv, of w] pool_inv_lengths [OF inv] by auto
qed

lemma pool_concurrency_bound_witness:
  "reach pool_init pool_step jam_state \<and> int (ActiveWorkerCount (mgr jam_state)) = 1 \<and>
   int (ActiveWorkerCount (mgr jam_state)) \<le> max 0 (workerCount (mgr jam_state))"
proof (intro conjI)
  show "int (ActiveWorkerCount (mgr jam_state)) = 1" by code_simp
  show "int (ActiveWorkerCount (mgr jam_state)) \<le> max 0 (workerCount (mgr jam_state))"
    using pool_concurrency_bound [OF jam_reach] by simp
qed (rule jam_reach)

text \<open>
  C26. No accepted task is lost, duplicated or overtaken in the queue: in every reachable state
  the tasks \<^verbatim>\<open>Run\<close> accepted, in their order, are those the workers have popped so far
  followed by the content of the queue.
\<close>

theorem pool_tasks_fifo:
  assumes "reach pool_init pool_step s"
  shows "map Some (accepted s) = map Some (started s) @ ring_elems (queue (mgr s))"
  using pool.inv_reach [OF assms] by (simp add: pool_inv_def)

lemma pool_tasks_fifo_witness:
  "reach pool_init pool_step strand_state \<and> length (accepted strand_state) = 2 \<and>
   map Some (accepted strand_state) = map Some (started strand_state) @ ring_elems (queue (mgr strand_state))"
proof (intro conjI)
  show "length (accepted strand_state) = 2" by code_simp
qed (rule strand_reach, rule pool_tasks_fifo [OF strand_reach])

text \<open>
  A queued task can be left with no worker to run it: the pool reaches a state in which
  every goroutine has finished, no call of \<^verbatim>\<open>Run\<close> is in progress and room for a worker is
  free, and yet an accepted task is still queued. (A worker that found the queue empty counts
  as active until \<^verbatim>\<open>removeWorker\<close>, so the \<^verbatim>\<open>schedule\<close> of a task pushed in between starts
  no worker.)
\<close>

theorem pool_stranded_task:
  "\<exists>s. reach pool_init pool_step s \<and> Size (queue (mgr s)) = 1 \<and> set (pcs s) = {Finished} \<and>
     calls s = [] \<and> waiting s = [] \<and> int (ActiveWorkerCount (mgr s)) < workerCount (mgr s)"
proof (intro exI conjI)
  show "reach pool_init pool_step strand_state" by (rule strand_reach)
  show "Size (queue (mgr strand_state)) = 1" by code_simp
  show "set (pcs strand_state) = {Finished}" by code_simp
  show "calls strand_state = []" by code_simp
  show "waiting strand_state = []" by code_simp
  show "int (ActiveWorkerCount (mgr strand_state)) < workerCount (mgr strand_state)" by code_simp
qed

text \<open>
  C34. A pool whose only worker hands itself over to a request that no longer waits never
  starts or finishes another task, whatever happens afterwards; the witness reaches such a
  state (the request timed out while its task was queued) and accepts a task there.
\<close>

theorem pool_jammed_forever:
  assumes "jammed t s" and "pool_step\<^sup>*\<^sup>* s s'"
  shows "started s' = started s \<and> executed s' = executed s \<and> pcs s' = [AtHandoff t]"
  using jammed_steps [OF assms(2,1)] by (simp add: jammed_def)

definition jam_later :: Pool where
  "jam_later = the (pool_exec (Call \<lparr>task = 2, worker_chan = False\<rparr>) jam_state)"

lemma jam_later_step: "pool_step jam_state jam_later"
proof (rule pool_exec_step)
  show "pool_exec (Call \<lparr>task = 2, worker_chan = False\<rparr>) jam_state = Some jam_later" by code_simp
qed

lemma jam_state_jammed: "jammed \<lparr>task = 1, worker_chan = True\<rparr> jam_state"
  by code_simp

lemma pool_jammed_forever_witness:
  "reach pool_init pool_step jam_state \<and> jammed \<lparr>task = 1, worker_chan = True\<rparr> jam_state \<and>
   pool_step\<^sup>*\<^sup>* jam_state jam_later \<and> length (accepted jam_later) = 2 \<and>
   started jam_later = started jam_state \<and> executed jam_later = executed jam_state"
proof -
  have steps: "pool_step\<^sup>*\<^sup>* jam_state jam_later" using jam_later_step by (rule r_into_rtranclp)
  moreover have "length (accepted jam_later) = 2" by code_simp
  ultimately show ?thesis
    using pool_jammed_forever [OF jam_state_jammed steps] jam_reach jam_state_jammed by simp
qed

end
