(* ===== verification/Lock_Manager.thy ===== *)
theory Lock_Manager
  imports Go_Prelude
begin

text \<open>
  The in-memory lock manager of \<^verbatim>\<open>pkg/cloudcommon/db/lockman\<close>: every mutation of a model
  object and every quota operation of the control plane runs under a lock of it.

  \<^item> A \<^verbatim>\<open>context.Context\<close> is a number, compared by identity; \<^verbatim>\<open>nil\<close> is \<^term>\<open>None\<close>.
  \<^item> A lock record is an index into \<open>recs\<close>, since a goroutine can hold a pointer to a record
    that has left \<open>lockTable\<close>.
  \<^item> The condition variable is the list of contexts asleep in \<^verbatim>\<open>Wait\<close> and those
    \<^verbatim>\<open>Signal\<close> has woken but which have not yet run again.
  \<^item> \<^verbatim>\<open>LockKey\<close> is three critical sections: the table lookup (\<^verbatim>\<open>tableLock\<close>), the first
    part of \<^verbatim>\<open>lockContext\<close> up to \<^verbatim>\<open>Wait\<close> and the part after it (the record's lock).
    \<^verbatim>\<open>UnlockKey\<close> is one, under the table lock.
  \<^item> \<open>own\<close> counts, per context and key, the calls of \<^verbatim>\<open>LockKey\<close> that returned and are not
    yet undone by \<^verbatim>\<open>UnlockKey\<close>; the code has no such field.
\<close>

type_synonym ctx = nat

section \<open>FIFO of waiting contexts (fifo.go)\<close>

type_synonym 'a FIFO = "'a list"

definition NewFIFO :: "'a FIFO" where "NewFIFO = []"

definition FIFO_Push :: "'a FIFO \<Rightarrow> 'a \<Rightarrow> 'a FIFO" where
  "FIFO_Push f ele = f @ [ele]"

text \<open>\<^verbatim>\<open>Pop\<close> walks to the first element equal to its argument and removes that one.\<close>

fun FIFO_Pop :: "'a FIFO \<Rightarrow> 'a \<Rightarrow> 'a FIFO" where
  "FIFO_Pop [] ele = []"
| "FIFO_Pop (e # f) ele = (if e \<noteq> ele then e # FIFO_Pop f ele else f)"

definition FIFO_Len :: "'a FIFO \<Rightarrow> nat" where
  "FIFO_Len f = length f"

definition FIFO_Enum :: "('a \<Rightarrow> 's \<Rightarrow> 's) \<Rightarrow> 'a FIFO \<Rightarrow> 's \<Rightarrow> 's" where
  "FIFO_Enum eif f = fold eif f"

lemma FIFO_Pop_remove1: "FIFO_Pop f ele = remove1 ele f"
  by (induction f) auto

section \<open>Lock records (inmemory.go)\<close>

record SInMemoryLockRecord =
  holder :: "ctx option"
  depth :: int
  waiter :: "ctx FIFO"
  asleep :: "ctx list"
  woken :: "ctx list"

definition newInMemoryLockRecord :: "ctx \<Rightarrow> SInMemoryLockRecord" where
  "newInMemoryLockRecord c = \<lparr>holder = Some c, depth = 0, waiter = NewFIFO, asleep = [], woken = []\<rparr>"

datatype lock_outcome = Acquired | Blocked | TooManyRecursiveLocks | LockFromWaiter

text \<open>\<^verbatim>\<open>lockContext\<close> up to the first \<^verbatim>\<open>cond.Wait\<close>.\<close>

definition lockContext :: "ctx \<Rightarrow> SInMemoryLockRecord \<Rightarrow> SInMemoryLockRecord \<times> lock_outcome" where
  "lockContext c r =
     (if holder r = None then (r\<lparr>holder := Some c, depth := 1\<rparr>, Acquired)
      else if holder r = Some c then
        let r = r\<lparr>depth := depth r + 1\<rparr>
        in (r, if depth r > 32 then TooManyRecursiveLocks else Acquired)
      else if FIFO_Enum (\<lambda>electx found. found \<or> electx = c) (waiter r) False then (r, LockFromWaiter)
      else (r\<lparr>waiter := FIFO_Push (waiter r) c, asleep := asleep r @ [c]\<rparr>, Blocked))"

text \<open>\<^verbatim>\<open>lockContext\<close> from the return of \<^verbatim>\<open>cond.Wait\<close> on: sleep again while the record is held.\<close>

definition lockContext_resume :: "ctx \<Rightarrow> SInMemoryLockRecord \<Rightarrow> SInMemoryLockRecord \<times> lock_outcome" where
  "lockContext_resume c r =
     (let r = r\<lparr>woken := remove1 c (woken r)\<rparr>
      in if holder r \<noteq> None then (r\<lparr>asleep := asleep r @ [c]\<rparr>, Blocked)
         else (r\<lparr>waiter := FIFO_Pop (waiter r) c, holder := Some c, depth := 1\<rparr>, Acquired))"

definition Signal :: "SInMemoryLockRecord \<Rightarrow> SInMemoryLockRecord" where
  "Signal r = (case asleep r of [] \<Rightarrow> r | c # cs \<Rightarrow> r\<lparr>asleep := cs, woken := woken r @ [c]\<rparr>)"

text \<open>\<^term>\<open>None\<close>: \<^verbatim>\<open>log.Fatalf\<close>, which ends the process.\<close>

definition unlockContext :: "ctx \<Rightarrow> SInMemoryLockRecord \<Rightarrow> (SInMemoryLockRecord \<times> bool) option" where
  "unlockContext c r =
     (if holder r \<noteq> Some c then None
      else let r = r\<lparr>depth := depth r - 1\<rparr>
           in if depth r \<le> 0 then
                let r = r\<lparr>holder := None\<rparr>
                in Some (if FIFO_Len (waiter r) = 0 then (r, True) else (Signal r, False))
              else Some (r, False))"

section \<open>The lock manager\<close>

datatype lock_pc = Idle | GotRecord string nat | Waiting string nat

record LockMan =
  lockTable :: "string \<Rightarrow> nat option"
  recs :: "SInMemoryLockRecord list"
  pc :: "ctx \<Rightarrow> lock_pc"
  own :: "ctx \<Rightarrow> string \<Rightarrow> nat"
  fatal :: bool

definition NewInMemoryLockManager :: LockMan where
  "NewInMemoryLockManager =
     \<lparr>lockTable = (\<lambda>_. None), recs = [], pc = (\<lambda>_. Idle), own = (\<lambda>_ _. 0), fatal = False\<rparr>"

definition getRecord :: "ctx \<Rightarrow> string \<Rightarrow> bool \<Rightarrow> LockMan \<Rightarrow> LockMan \<times> nat option" where
  "getRecord c key new s =
     (case lockTable s key of
        None \<Rightarrow>
          if \<not> new then (s, None)
          else (s\<lparr>lockTable := (lockTable s)(key \<mapsto> length (recs s)),
                  recs := recs s @ [newInMemoryLockRecord c]\<rparr>, Some (length (recs s)))
      | Some r \<Rightarrow> (s, Some r))"

definition getRecordWithLock :: "ctx \<Rightarrow> string \<Rightarrow> LockMan \<Rightarrow> LockMan" where
  "getRecordWithLock c key s =
     (case getRecord c key True s of
        (s', Some r) \<Rightarrow> s'\<lparr>pc := (pc s')(c := GotRecord key r)\<rparr>
      | (s', None) \<Rightarrow> s')"

definition own_upd :: "ctx \<Rightarrow> string \<Rightarrow> nat \<Rightarrow> LockMan \<Rightarrow> LockMan" where
  "own_upd c key n s = s\<lparr>own := (own s)(c := (own s c)(key := n))\<rparr>"

text \<open>What the goroutine does with the outcome: return from \<^verbatim>\<open>LockKey\<close>, sleep, or, for the
  explicit panic, unwind without the lock having been counted; \<^verbatim>\<open>log.Fatalf\<close> ends everything.\<close>

definition locked :: "ctx \<Rightarrow> string \<Rightarrow> nat \<Rightarrow> SInMemoryLockRecord \<times> lock_outcome \<Rightarrow> LockMan \<Rightarrow> LockMan" where
  "locked c key r res s =
     (let s = s\<lparr>recs := (recs s)[r := fst res]\<rparr>
      in case snd res of
           Acquired \<Rightarrow> own_upd c key (own s c key + 1) (s\<lparr>pc := (pc s)(c := Idle)\<rparr>)
         | Blocked \<Rightarrow> s\<lparr>pc := (pc s)(c := Waiting key r)\<rparr>
         | TooManyRecursiveLocks \<Rightarrow> s\<lparr>pc := (pc s)(c := Idle)\<rparr>
         | LockFromWaiter \<Rightarrow> s\<lparr>fatal := True\<rparr>)"

definition UnlockKey :: "ctx \<Rightarrow> string \<Rightarrow> LockMan \<Rightarrow> LockMan" where
  "UnlockKey c key s =
     (case getRecord c key False s of
        (s, None) \<Rightarrow> s
      | (s, Some r) \<Rightarrow>
          (case unlockContext c (recs s ! r) of
             None \<Rightarrow> s\<lparr>fatal := True\<rparr>
           | Some (rec, needClean) \<Rightarrow>
               let s = s\<lparr>recs := (recs s)[r := rec]\<rparr>
               in if needClean then s\<lparr>lockTable := (lockTable s)(key := None)\<rparr> else s))"

text \<open>
  The steps. A context runs one call at a time and unlocks what it has locked: the callers
  pair \<^verbatim>\<open>LockKey\<close> with a deferred \<^verbatim>\<open>UnlockKey\<close>.
\<close>

datatype lock_act = Get ctx string | Lock ctx | Wake ctx | Unlock ctx string

fun lock_exec :: "lock_act \<Rightarrow> LockMan \<Rightarrow> LockMan option" where
  "lock_exec (Get c key) s =
     (if \<not> fatal s \<and> pc s c = Idle then Some (getRecordWithLock c key s) else None)"
| "lock_exec (Lock c) s =
     (case pc s c of
        GotRecord key r \<Rightarrow>
          if fatal s then None else Some (locked c key r (lockContext c (recs s ! r)) s)
      | _ \<Rightarrow> None)"
| "lock_exec (Wake c) s =
     (case pc s c of
        Waiting key r \<Rightarrow>
          if fatal s \<or> c \<notin> set (woken (recs s ! r)) then None
          else Some (locked c key r (lockContext_resume c (recs s ! r)) s)
      | _ \<Rightarrow> None)"
| "lock_exec (Unlock c key) s =
     (if \<not> fatal s \<and> pc s c = Idle \<and> own s c key > 0
      then Some (own_upd c key (own s c key - 1) (UnlockKey c key s)) else None)"

fun lock_execs :: "lock_act list \<Rightarrow> LockMan \<Rightarrow> LockMan option" where
  "lock_execs [] s = Some s"
| "lock_execs (a # as) s = do { s' \<leftarrow> lock_exec a s; lock_execs as s' }"

inductive lock_step :: "LockMan \<Rightarrow> LockMan \<Rightarrow> bool" where
  lock_step: "lock_exec a s = Some s' \<Longrightarrow> lock_step s s'"

text \<open>
  Executions in which no key is unlocked while another context stands between its table
  lookup and its \<^verbatim>\<open>lockContext\<close> for the same key.
\<close>

definition no_pending_lookup :: "lock_act \<Rightarrow> LockMan \<Rightarrow> bool" where
  "no_pending_lookup a s =
     (case a of Unlock c key \<Rightarrow> (\<forall>c' r. pc s c' \<noteq> GotRecord key r) | _ \<Rightarrow> True)"

inductive quiet_step :: "LockMan \<Rightarrow> LockMan \<Rightarrow> bool" where
  quiet_step: "lock_exec a s = Some s' \<Longrightarrow> no_pending_lookup a s \<Longrightarrow> quiet_step s s'"

definition lock_init :: "LockMan \<Rightarrow> bool" where
  "lock_init s \<longleftrightarrow> s = NewInMemoryLockManager"

section \<open>Keys (lockman.go)\<close>

definition getClassKey :: "string \<Rightarrow> string \<Rightarrow> string" where
  "getClassKey keyword projectId = keyword @ ''-'' @ projectId"

definition getRawObjectKey :: "string \<Rightarrow> string \<Rightarrow> string" where
  "getRawObjectKey resName resId = resName @ ''-'' @ resId"

definition getObjectKey :: "string \<times> string \<Rightarrow> string" where
  "getObjectKey model = getRawObjectKey (fst model) (snd model)"

definition getJointObjectKey :: "string \<times> string \<Rightarrow> string \<times> string \<Rightarrow> string" where
  "getJointObjectKey model model2 = getObjectKey model @ ''-'' @ getObjectKey model2"

section \<open>The invariant of quiet executions\<close>

definition rec_ok :: "LockMan \<Rightarrow> string \<Rightarrow> nat \<Rightarrow> bool" where
  "rec_ok s key r \<longleftrightarrow>
     distinct (waiter (recs s ! r)) \<and>
     set (waiter (recs s ! r)) = {c. pc s c = Waiting key r} \<and>
     mset (asleep (recs s ! r) @ woken (recs s ! r)) = mset (waiter (recs s ! r)) \<and>
     (holder (recs s ! r) = None \<longrightarrow> woken (recs s ! r) \<noteq> []) \<and>
     (\<forall>c. own s c key > 0 \<longrightarrow> holder (recs s ! r) = Some c) \<and>
     (\<forall>c. int (own s c key) \<le> depth (recs s ! r))"

definition lock_inv :: "LockMan \<Rightarrow> bool" where
  "lock_inv s \<longleftrightarrow>
     \<not> fatal s \<and>
     (\<forall>key r. lockTable s key = Some r \<longrightarrow> r < length (recs s) \<and> rec_ok s key r) \<and>
     (\<forall>key key' r. lockTable s key = Some r \<longrightarrow> lockTable s key' = Some r \<longrightarrow> key = key') \<and>
     (\<forall>c key r. pc s c = GotRecord key r \<or> pc s c = Waiting key r \<longrightarrow> lockTable s key = Some r) \<and>
     (\<forall>c key. lockTable s key = None \<longrightarrow> own s c key = 0)"

lemma rec_ok_cong:
  assumes "recs s' ! r = recs s ! r" "\<And>c. own s' c key = own s c key"
    "\<And>c. pc s' c = Waiting key r \<longleftrightarrow> pc s c = Waiting key r"
  shows "rec_ok s' key r = rec_ok s key r"
  using assms by (simp add: rec_ok_def)

text \<open>The common shape of \<^verbatim>\<open>lockContext\<close> and \<^verbatim>\<open>unlockContext\<close>: one record, the program counter
  of one context and its count for the record's key change.\<close>

definition rec_upd :: "ctx \<Rightarrow> string \<Rightarrow> nat \<Rightarrow> SInMemoryLockRecord \<Rightarrow> lock_pc \<Rightarrow> nat \<Rightarrow> LockMan \<Rightarrow> LockMan" where
  "rec_upd c key r R p n s = own_upd c key n (s\<lparr>recs := (recs s)[r := R], pc := (pc s)(c := p)\<rparr>)"

lemma rec_upd_simps [simp]:
  "lockTable (rec_upd c key r R p n s) = lockTable s"
  "recs (rec_upd c key r R p n s) = (recs s)[r := R]"
  "pc (rec_upd c key r R p n s) = (pc s)(c := p)"
  "own (rec_upd c key r R p n s) = (own s)(c := (own s c)(key := n))"
  "fatal (rec_upd c key r R p n s) = fatal s"
  by (simp_all add: rec_upd_def own_upd_def)

lemma rec_upd_inv:
  assumes inv: "lock_inv s" and tab: "lockTable s key = Some r"
    and old: "pc s c = Idle \<or> pc s c = GotRecord key r \<or> pc s c = Waiting key r"
    and new: "p = Idle \<or> p = Waiting key r"
    and ok: "rec_ok (rec_upd c key r R p n s) key r"
  shows "lock_inv (rec_upd c key r R p n s)" (is "lock_inv ?s")
proof -
  have "k < length (recs ?s) \<and> rec_ok ?s key' k" if k: "lockTable s key' = Some k" for key' k
  proof (cases "key' = key")
    case True
    with ok tab k inv show ?thesis by (auto simp: lock_inv_def)
  next
    case False
    then have "k \<noteq> r" using inv tab k by (auto simp: lock_inv_def)
    then have "rec_ok ?s key' k = rec_ok s key' k"
      using False old new by (intro rec_ok_cong) auto
    with inv k show ?thesis by (auto simp: lock_inv_def)
  qed
  then show ?thesis using inv tab new by (auto simp: lock_inv_def)
qed

lemma enum_found: "FIFO_Enum (\<lambda>e found. found \<or> e = c) f b \<longleftrightarrow> b \<or> c \<in> set f"
  by (induction f arbitrary: b) (auto simp: FIFO_Enum_def)

lemma lock_inv_lock:
  assumes inv: "lock_inv s" and pc: "pc s c = GotRecord key r"
  shows "lock_inv (locked c key r (lockContext c (recs s ! r)) s)"
proof -
  have tab: "lockTable s key = Some r" using inv pc by (auto simp: lock_inv_def)
  then have r: "r < length (recs s)" and ok: "rec_ok s key r" using inv by (auto simp: lock_inv_def)
  let ?R = "recs s ! r"
  have nw: "c \<notin> set (waiter ?R)" using ok pc by (auto simp: rec_ok_def)
  have upd: "lock_inv (rec_upd c key r R p n s)"
    if "p = Idle \<or> p = Waiting key r" "rec_ok (rec_upd c key r R p n s) key r" for R p n
    using rec_upd_inv [OF inv tab _ that(1) that(2)] pc by simp
  consider (free) "holder ?R = None" | (same) "holder ?R = Some c"
    | (other) c' where "holder ?R = Some c'" "c' \<noteq> c" by (cases "holder ?R") auto
  then show ?thesis
  proof cases
    case free
    then have "\<forall>c. own s c key = 0" using ok by (auto simp: rec_ok_def)
    with free have "locked c key r (lockContext c ?R) s =
        rec_upd c key r (?R\<lparr>holder := Some c, depth := 1\<rparr>) Idle 1 s"
      by (simp add: locked_def lockContext_def rec_upd_def own_upd_def)
    moreover have "rec_ok (rec_upd c key r (?R\<lparr>holder := Some c, depth := 1\<rparr>) Idle 1 s) key r"
      using ok r free pc \<open>\<forall>c. own s c key = 0\<close> by (auto simp: rec_ok_def)
    ultimately show ?thesis using upd by simp
  next
    case same
    define R where "R = ?R\<lparr>depth := depth ?R + 1\<rparr>"
    define n where "n = (if depth R > 32 then own s c key else own s c key + 1)"
    have "locked c key r (lockContext c ?R) s = rec_upd c key r R Idle n s"
      using same unfolding locked_def lockContext_def rec_upd_def own_upd_def Let_def R_def n_def
      by (cases "32 < depth ?R + 1") simp_all
    moreover have "rec_ok (rec_upd c key r R Idle n s) key r"
      using ok r same pc by (cases "depth R > 32") (auto simp: rec_ok_def R_def n_def intro: order_trans)
    ultimately show ?thesis using upd by simp
  next
    case other
    define R where "R = ?R\<lparr>waiter := waiter ?R @ [c], asleep := asleep ?R @ [c]\<rparr>"
    have "locked c key r (lockContext c ?R) s = rec_upd c key r R (Waiting key r) (own s c key) s"
      using other nw
      by (simp add: locked_def lockContext_def enum_found rec_upd_def own_upd_def FIFO_Push_def R_def)
    moreover have "rec_ok (rec_upd c key r R (Waiting key r) (own s c key) s) key r"
      using ok r other nw by (auto simp: rec_ok_def R_def)
    ultimately show ?thesis using upd by simp
  qed
qed

lemma lock_inv_wake:
  assumes inv: "lock_inv s" and pc: "pc s c = Waiting key r" and w: "c \<in> set (woken (recs s ! r))"
  shows "lock_inv (locked c key r (lockContext_resume c (recs s ! r)) s)"
proof -
  have tab: "lockTable s key = Some r" using inv pc by (auto simp: lock_inv_def)
  then have r: "r < length (recs s)" and ok: "rec_ok s key r" using inv by (auto simp: lock_inv_def)
  let ?R = "recs s ! r"
  have upd: "lock_inv (rec_upd c key r R p n s)"
    if "p = Idle \<or> p = Waiting key r" "rec_ok (rec_upd c key r R p n s) key r" for R p n
    using rec_upd_inv [OF inv tab _ that(1) that(2)] pc by simp
  have ms: "mset (asleep ?R) + mset (woken ?R) = mset (waiter ?R)" using ok by (simp add: rec_ok_def)
  have cw: "c \<in># mset (woken ?R)" using w by simp
  show ?thesis
  proof (cases "holder ?R = None")
    case True
    define R where "R = ?R\<lparr>woken := remove1 c (woken ?R), waiter := remove1 c (waiter ?R), holder := Some c, depth := 1\<rparr>"
    have none: "\<forall>c. own s c key = 0" using ok True by (auto simp: rec_ok_def)
    with True have "locked c key r (lockContext_resume c ?R) s = rec_upd c key r R Idle 1 s"
      by (simp add: locked_def lockContext_resume_def rec_upd_def own_upd_def FIFO_Pop_remove1 R_def)
    moreover have "mset (asleep ?R) + (mset (woken ?R) - {#c#}) = mset (waiter ?R) - {#c#}"
      using ms cw by (metis add.commute diff_union_single_conv)
    then have "rec_ok (rec_upd c key r R Idle 1 s) key r"
      using ok r none by (auto simp: rec_ok_def R_def)
    ultimately show ?thesis using upd by simp
  next
    case False
    define R where "R = ?R\<lparr>woken := remove1 c (woken ?R), asleep := asleep ?R @ [c]\<rparr>"
    have "locked c key r (lockContext_resume c ?R) s = rec_upd c key r R (Waiting key r) (own s c key) s"
      using False by (simp add: locked_def lockContext_resume_def rec_upd_def own_upd_def R_def)
    moreover have "mset (asleep ?R) + {#c#} + (mset (woken ?R) - {#c#}) = mset (waiter ?R)"
      using ms cw by (metis add.commute add.left_commute insert_DiffM2)
    then have "rec_ok (rec_upd c key r R (Waiting key r) (own s c key) s) key r"
      using ok r False pc by (auto simp: rec_ok_def R_def)
    ultimately show ?thesis using upd by simp
  qed
qed

lemma rec_ok_owner_unique:
  assumes "rec_ok s key r" "own s c key > 0" "c' \<noteq> c"
  shows "own s c' key = 0"
proof (rule ccontr)
  assume "own s c' key \<noteq> 0"
  moreover have "\<And>x. own s x key > 0 \<Longrightarrow> holder (recs s ! r) = Some x"
    using assms(1) by (simp add: rec_ok_def)
  ultimately have "Some c' = Some c" using assms(2) by (metis gr0I)
  with assms(3) show False by simp
qed

lemma lock_inv_get:
  assumes inv: "lock_inv s" and idle: "pc s c = Idle"
  shows "lock_inv (getRecordWithLock c key s)"
proof (cases "lockTable s key")
  case (Some r)
  let ?s = "s\<lparr>pc := (pc s)(c := GotRecord key r)\<rparr>"
  have "rec_ok ?s k r' = rec_ok s k r'" for k r' using idle by (intro rec_ok_cong) auto
  then have "lock_inv ?s" using inv Some by (auto simp: lock_inv_def)
  with Some show ?thesis by (simp add: getRecordWithLock_def getRecord_def)
next
  case None
  let ?n = "length (recs s)"
  let ?s = "s\<lparr>lockTable := (lockTable s)(key \<mapsto> ?n), recs := recs s @ [newInMemoryLockRecord c],
      pc := (pc s)(c := GotRecord key ?n)\<rparr>"
  have none: "own s c' key = 0" "pc s c' \<noteq> Waiting key r" for c' r
    using inv None by (auto simp: lock_inv_def)
  have old: "r < ?n \<and> rec_ok ?s k r" if "lockTable s k = Some r" for k r
  proof -
    have "r < ?n" "rec_ok s k r" using inv that by (auto simp: lock_inv_def)
    moreover have "rec_ok ?s k r = rec_ok s k r"
      using \<open>r < ?n\<close> idle by (intro rec_ok_cong) (auto simp: nth_append)
    ultimately show ?thesis by simp
  qed
  have new: "rec_ok ?s key ?n"
    using none by (auto simp: rec_ok_def newInMemoryLockRecord_def NewFIFO_def)
  have "lock_inv ?s" unfolding lock_inv_def
  proof (intro conjI allI impI)
    fix k r assume "lockTable ?s k = Some r"
    then show "r < length (recs ?s)" and "rec_ok ?s k r"
      using old [of k r] new by (auto split: if_splits)
  next
    fix k k' r assume "lockTable ?s k = Some r" "lockTable ?s k' = Some r"
    then show "k = k'" using inv old [of k r] old [of k' r] by (auto simp: lock_inv_def split: if_splits)
  next
    show "\<not> fatal ?s" using inv by (simp add: lock_inv_def)
  next
    fix c' k r assume "pc ?s c' = GotRecord k r \<or> pc ?s c' = Waiting k r"
    then have "k = key \<and> r = ?n \<or> lockTable s k = Some r"
      using inv by (auto simp: lock_inv_def split: if_splits)
    then show "lockTable ?s k = Some r" using None by auto
  next
    fix c' k assume "lockTable ?s k = None"
    then show "own ?s c' k = 0" using inv by (auto simp: lock_inv_def split: if_splits)
  qed
  with None show ?thesis by (simp add: getRecordWithLock_def getRecord_def)
qed

lemma rec_ok_release:
  assumes ok: "rec_ok s key r" and r: "r < length (recs s)" and idle: "pc s c = Idle"
    and own: "own s c key = 1" and w: "waiter (recs s ! r) \<noteq> []"
  shows "rec_ok (rec_upd c key r (Signal ((recs s ! r)\<lparr>depth := 0, holder := None\<rparr>)) Idle 0 s) key r"
proof -
  have "\<forall>c'. c' \<noteq> c \<longrightarrow> own s c' key = 0" using rec_ok_owner_unique [OF ok, of c] own by simp
  moreover have "asleep (recs s ! r) = [] \<Longrightarrow> woken (recs s ! r) \<noteq> []"
    using ok w by (auto simp: rec_ok_def)
  ultimately show ?thesis using ok r idle
    by (cases "asleep (recs s ! r)") (auto simp: rec_ok_def Signal_def)
qed

lemma lock_inv_unlock:
  assumes inv: "lock_inv s" and idle: "pc s c = Idle" and own: "own s c key > 0"
    and quiet: "\<forall>c' r. pc s c' \<noteq> GotRecord key r"
  shows "lock_inv (own_upd c key (own s c key - 1) (UnlockKey c key s))"
proof -
  obtain r where tab: "lockTable s key = Some r"
    using inv own by (cases "lockTable s key") (auto simp: lock_inv_def)
  let ?R = "recs s ! r"
  have r: "r < length (recs s)" and ok: "rec_ok s key r" using inv tab by (auto simp: lock_inv_def)
  have h: "holder ?R = Some c" and d: "int (own s c key) \<le> depth ?R" using ok own by (auto simp: rec_ok_def)
  have others: "own s c' key = 0" if "c' \<noteq> c" for c' using rec_ok_owner_unique [OF ok own that] .
  have upd: "lock_inv (rec_upd c key r R Idle n s)" if "rec_ok (rec_upd c key r R Idle n s) key r" for R n
    using rec_upd_inv [OF inv tab _ _ that] idle by simp
  have pcid: "(pc s)(c := Idle) = pc s" using idle by (rule fun_upd_idem)
  show ?thesis
  proof (cases "depth ?R - 1 \<le> 0")
    case False
    define R where "R = ?R\<lparr>depth := depth ?R - 1\<rparr>"
    have "own_upd c key (own s c key - 1) (UnlockKey c key s) = rec_upd c key r R Idle (own s c key - 1) s"
      using False h tab pcid
      by (simp add: UnlockKey_def getRecord_def unlockContext_def rec_upd_def own_upd_def R_def)
    moreover have "rec_ok (rec_upd c key r R Idle (own s c key - 1) s) key r"
    proof -
      have "int (own s c key - Suc 0) < depth ?R" "0 < depth ?R" using d own False by simp_all
      moreover have "set (waiter ?R) = {c'. ((pc s)(c := Idle)) c' = Waiting key r}"
        unfolding pcid using ok by (simp add: rec_ok_def)
      ultimately show ?thesis using ok r h others unfolding rec_ok_def by (simp add: R_def)
    qed
    ultimately show ?thesis using upd by simp
  next
    case True
    with d own have one: "own s c key = 1" "depth ?R = 1" by simp_all
    let ?Q = "?R\<lparr>depth := 0, holder := None\<rparr>"
    show ?thesis
    proof (cases "waiter ?R = []")
      case False
      have "own_upd c key (own s c key - 1) (UnlockKey c key s) = rec_upd c key r (Signal ?Q) Idle 0 s"
        using False True h tab pcid one
        by (simp add: UnlockKey_def getRecord_def unlockContext_def FIFO_Len_def rec_upd_def own_upd_def)
      then show ?thesis using upd rec_ok_release [OF ok r idle one(1) False] by simp
    next
      case True
      let ?s = "own_upd c key 0 (s\<lparr>recs := (recs s)[r := ?Q], lockTable := (lockTable s)(key := None)\<rparr>)"
      have "own_upd c key (own s c key - 1) (UnlockKey c key s) = ?s"
        using True h tab one
        by (simp add: UnlockKey_def getRecord_def unlockContext_def FIFO_Len_def own_upd_def)
      moreover have "rec_ok ?s k r' = rec_ok s k r'" if "lockTable s k = Some r'" "k \<noteq> key" for k r'
      proof -
        have "r' \<noteq> r" using inv tab that by (auto simp: lock_inv_def)
        with that show ?thesis by (intro rec_ok_cong) (auto simp: own_upd_def)
      qed
      moreover have "pc s c' \<noteq> Waiting key r'" for c' r'
        using ok True inv tab by (auto simp: rec_ok_def lock_inv_def)
      ultimately show ?thesis using inv quiet others
        by (auto simp: lock_inv_def own_upd_def)
    qed
  qed
qed

lemma quiet_step_inv: "quiet_step s s' \<Longrightarrow> lock_inv s \<Longrightarrow> lock_inv s'"
proof (induction rule: quiet_step.induct)
  case (quiet_step a s s')
  then show ?case
    using lock_inv_unlock [of s]
    by (cases a) (auto simp: no_pending_lookup_def lock_inv_get lock_inv_lock lock_inv_wake
        split: lock_pc.splits if_splits)
qed

lemma lock_init_inv: "lock_init s \<Longrightarrow> lock_inv s"
  by (simp add: lock_init_def NewInMemoryLockManager_def lock_inv_def)

interpretation lockman: inductive_invariant lock_init quiet_step lock_inv
  by unfold_locales (auto intro: lock_init_inv quiet_step_inv)

section \<open>Concrete runs\<close>

lemma lock_execs_reach:
  "lock_execs as s = Some s' \<Longrightarrow> reach lock_init lock_step s \<Longrightarrow> reach lock_init lock_step s'"
  by (induction as arbitrary: s)
    (auto simp: bind_eq_Some_conv, meson lock_step.intros reach.reach_step)

text \<open>Context 1 locks and unlocks the key while context 2 holds the record it looked up.\<close>

definition race_run :: "lock_act list" where
  "race_run = [Get 1 ''k'', Lock 1, Get 2 ''k'', Unlock 1 ''k'', Get 3 ''k'', Lock 3, Lock 2]"

definition race_state :: LockMan where
  "race_state = the (lock_execs race_run NewInMemoryLockManager)"

definition crash_state :: LockMan where
  "crash_state = the (lock_exec (Unlock 2 ''k'') race_state)"

lemma race_state_reach: "reach lock_init lock_step race_state"
proof (rule lock_execs_reach)
  have "lock_execs race_run NewInMemoryLockManager \<noteq> None" by code_simp
  then show "lock_execs race_run NewInMemoryLockManager = Some race_state"
    unfolding race_state_def by auto
qed (auto simp: lock_init_def intro: reach.reach_init)

lemma crash_state_step: "lock_step race_state crash_state"
proof (rule lock_step.lock_step)
  have "lock_exec (Unlock 2 ''k'') race_state \<noteq> None" by code_simp
  then show "lock_exec (Unlock 2 ''k'') race_state = Some crash_state"
    unfolding crash_state_def by auto
qed

text \<open>Runs that name their contexts, with the quietness of each step checked on them.\<close>

fun act_ctx :: "lock_act \<Rightarrow> ctx" where
  "act_ctx (Get c key) = c"
| "act_ctx (Lock c) = c"
| "act_ctx (Wake c) = c"
| "act_ctx (Unlock c key) = c"

fun looks_up :: "string \<Rightarrow> lock_pc \<Rightarrow> bool" where
  "looks_up key (GotRecord k r) = (k = key)"
| "looks_up key _ = False"

fun quiet_execs :: "ctx list \<Rightarrow> lock_act list \<Rightarrow> LockMan \<Rightarrow> LockMan option" where
  "quiet_execs cs [] s = Some s"
| "quiet_execs cs (a # as) s =
     (if act_ctx a \<in> set cs \<and>
         (case a of Unlock c key \<Rightarrow> list_all (\<lambda>c'. \<not> looks_up key (pc s c')) cs | _ \<Rightarrow> True)
      then do { s' \<leftarrow> lock_exec a s; quiet_execs cs as s' } else None)"

lemma lock_exec_pc_frame: "lock_exec a s = Some s' \<Longrightarrow> c \<noteq> act_ctx a \<Longrightarrow> pc s' c = pc s c"
  by (cases a) (auto simp: getRecordWithLock_def getRecord_def locked_def UnlockKey_def own_upd_def Let_def
      split: if_splits option.splits lock_pc.splits lock_outcome.splits)

lemma quiet_execs_reach:
  "quiet_execs cs as s = Some s' \<Longrightarrow> (\<forall>c. c \<notin> set cs \<longrightarrow> pc s c = Idle) \<Longrightarrow>
     reach lock_init quiet_step s \<Longrightarrow> reach lock_init quiet_step s'"
proof (induction as arbitrary: s)
  case (Cons a as)
  from Cons.prems(1) obtain s1 where s1: "lock_exec a s = Some s1" "quiet_execs cs as s1 = Some s'"
    and c: "act_ctx a \<in> set cs"
    and q: "case a of Unlock c key \<Rightarrow> list_all (\<lambda>c'. \<not> looks_up key (pc s c')) cs | _ \<Rightarrow> True"
    by (auto simp: bind_eq_Some_conv split: if_splits)
  have "no_pending_lookup a s"
  proof (cases a)
    case (Unlock c key)
    with q Cons.prems(2) have "\<not> looks_up key (pc s c')" for c'
      by (cases "c' \<in> set cs") (auto simp: list_all_iff)
    then show ?thesis using Unlock by (auto simp: no_pending_lookup_def) (metis looks_up.simps(1))
  qed (simp_all add: no_pending_lookup_def)
  with s1 have "reach lock_init quiet_step s1"
    by (blast intro: reach.reach_step [OF Cons.prems(3)] quiet_step.intros)
  moreover have "\<forall>c. c \<notin> set cs \<longrightarrow> pc s1 c = Idle"
    using Cons.prems(2) c lock_exec_pc_frame [OF s1(1)] by metis
  ultimately show ?case using Cons.IH s1(2) by blast
qed simp

text \<open>Two contexts contend for a key without the race: 2 waits and is signalled.\<close>

definition handover_state :: LockMan where
  "handover_state = the (quiet_execs [1, 2]
     [Get 1 ''k'', Lock 1, Get 2 ''k'', Lock 2, Unlock 1 ''k''] NewInMemoryLockManager)"

lemma handover_reach: "reach lock_init quiet_step handover_state"
proof (rule quiet_execs_reach)
  have "quiet_execs [1, 2] [Get 1 ''k'', Lock 1, Get 2 ''k'', Lock 2, Unlock 1 ''k'']
      NewInMemoryLockManager \<noteq> None" by code_simp
  then show "quiet_execs [1, 2] [Get 1 ''k'', Lock 1, Get 2 ''k'', Lock 2, Unlock 1 ''k'']
      NewInMemoryLockManager = Some handover_state" unfolding handover_state_def by auto
qed (auto simp: lock_init_def NewInMemoryLockManager_def intro: reach.reach_init)

section \<open>Properties\<close>


definition reentered_state :: LockMan where
  "reentered_state = the (quiet_execs [1, 2]
     [Get 1 ''k'', Lock 1, Get 1 ''k'', Lock 1, Get 2 ''k'', Lock 2] NewInMemoryLockManager)"

lemma reentered_reach: "reach lock_init quiet_step reentered_state"
proof (rule quiet_execs_reach)
  have "quiet_execs [1, 2] [Get 1 ''k'', Lock 1, Get 1 ''k'', Lock 1, Get 2 ''k'', Lock 2]
      NewInMemoryLockManager \<noteq> None" by code_simp
  then show "quiet_execs [1, 2] [Get 1 ''k'', Lock 1, Get 1 ''k'', Lock 1, Get 2 ''k'', Lock 2]
      NewInMemoryLockManager = Some reentered_state" unfolding reentered_state_def by auto
qed (auto simp: lock_init_def NewInMemoryLockManager_def intro: reach.reach_init)


text \<open>
  C33. No wake-up is lost: in every reachable state of such an execution, when the record of a
  key is free, some waiting context has been signalled, and when it runs it acquires the key.
\<close>

theorem lock_no_lost_wakeup:
  assumes "reach lock_init quiet_step s" and "lockTable s key = Some r" and "holder (recs s ! r) = None"
  shows "\<exists>c s'. pc s c = Waiting key r \<and> lock_exec (Wake c) s = Some s' \<and> own s' c key = 1"
proof -
  have inv: "lock_inv s" using assms(1) by (rule lockman.inv_reach)
  with assms(2) have ok: "rec_ok s key r" by (simp add: lock_inv_def)
  then have "woken (recs s ! r) \<noteq> []" using assms(3) by (simp add: rec_ok_def)
  then obtain c where c: "c \<in> set (woken (recs s ! r))" by (cases "woken (recs s ! r)") auto
  then have "c \<in># mset (waiter (recs s ! r))"
    using ok unfolding rec_ok_def by (metis UnI2 in_multiset_in_set set_append set_mset_mset)
  then have pc: "pc s c = Waiting key r" using ok by (simp add: rec_ok_def)
  have "own s c key = 0" using ok assms(3) by (auto simp: rec_ok_def)
  then show ?thesis using c pc inv assms(3)
    by (auto simp: lock_inv_def locked_def lockContext_resume_def own_upd_def intro!: exI [of _ c])
qed

lemma lock_no_lost_wakeup_witness:
  "lockTable handover_state ''k'' = Some 0 \<and> holder (recs handover_state ! 0) = None \<and>
   (\<exists>c s'. pc handover_state c = Waiting ''k'' 0 \<and>
      lock_exec (Wake c) handover_state = Some s' \<and> own s' c ''k'' = 1)"
proof -
  have t: "lockTable handover_state ''k'' = Some 0" by code_simp
  moreover have h: "holder (recs handover_state ! 0) = None" by code_simp
  ultimately show ?thesis using lock_no_lost_wakeup [OF handover_reach t h] by blast
qed

text \<open>
  Without that restriction mutual exclusion fails: a context that looked up the record of
  a key can lock it after the holder's \<^verbatim>\<open>UnlockKey\<close> has deleted it from the table, while
  another context locks the record created in its place. Two contexts then have the same key
  locked, and the first one's \<^verbatim>\<open>UnlockKey\<close> ends the process with \<^verbatim>\<open>log.Fatalf\<close>.
\<close>

theorem lock_race:
  "\<exists>s s' c c' key. reach lock_init lock_step s \<and> c \<noteq> c' \<and> own s c key > 0 \<and> own s c' key > 0 \<and>
     lock_exec (Unlock c key) s = Some s' \<and> fatal s'"
proof (intro exI conjI)
  show "reach lock_init lock_step race_state" by (rule race_state_reach)
  show "(2::nat) \<noteq> 3" by simp
  show "own race_state 2 ''k'' > 0" by code_simp
  show "own race_state 3 ''k'' > 0" by code_simp
  have "lock_exec (Unlock 2 ''k'') race_state \<noteq> None" by code_simp
  then show "lock_exec (Unlock 2 ''k'') race_state = Some crash_state"
    unfolding crash_state_def by auto
  show "fatal crash_state" by code_simp
qed

text \<open>
  The guard against deep recursion leaks the lock: after 32 nested locks of a key the 33rd
  \<^verbatim>\<open>LockKey\<close> panics with the depth already counted, so that when the 32 deferred
  \<^verbatim>\<open>UnlockKey\<close> calls have run the context owns nothing and is still the holder.
\<close>

theorem lock_recursion_leak:
  "\<exists>s. lock_execs (concat (replicate 33 [Get 1 ''k'', Lock 1]) @ replicate 32 (Unlock 1 ''k''))
         NewInMemoryLockManager = Some s \<and>
     own s 1 ''k'' = 0 \<and> lockTable s ''k'' = Some 0 \<and> holder (recs s ! 0) = Some 1"
proof -
  have "map_option (\<lambda>s. (own s 1 ''k'', lockTable s ''k'', holder (recs s ! 0)))
      (lock_execs (concat (replicate 33 [Get 1 ''k'', Lock 1]) @ replicate 32 (Unlock 1 ''k''))
        NewInMemoryLockManager) = Some (0, Some 0, Some 1)" by code_simp
  then show ?thesis by blast
qed

text \<open>
  Distinct objects are locked by distinct keys: for resource names without a dash the key
  determines the resource name and the identifier.
\<close>

theorem object_keys_injective:
  assumes "CHR ''-'' \<notin> set (fst m)" and "CHR ''-'' \<notin> set (fst m')"
  shows "getObjectKey m = getObjectKey m' \<longleftrightarrow> m = m'"
  using assms
  by (cases m; cases m') (auto simp: getObjectKey_def getRawObjectKey_def first_separator_unique)

lemma object_keys_injective_witness:
  "getObjectKey (''server'', ''a-b'') \<noteq> getObjectKey (''disk'', ''a-b'')"
  using object_keys_injective [of "(''server'', ''a-b'')" "(''disk'', ''a-b'')"] by simp

end
