(* ===== verification/Router.thy ===== *)
theory Router
  imports Go_Prelude "HOL-Library.AList"
begin

text \<open>
  The request router of the HTTP application server: the tree of
  \<^verbatim>\<open>pkg/appsrv/radix.go\<close> and the registration and lookup of handlers in
  \<^verbatim>\<open>pkg/appsrv/appsrv.go\<close>.

  A node has string children (a Go map, here an association list in insertion order) and
  regular-expression children (a slice, tried in order). \<^verbatim>\<open>Add\<close> is shown to be a map
  update on key paths, \<^verbatim>\<open>match\<close> to be sound and complete for the routes it holds, and
  \<^verbatim>\<open>walk\<close> to visit exactly them. Regular-expression matching is the argument \<open>rx\<close>;
  its value \<^term>\<open>None\<close> is the panic of \<^verbatim>\<open>regexp.MustCompile\<close>.
\<close>

section \<open>The tree\<close>

type_synonym segmap = "(nat \<times> string) list"

datatype 'd RadixNode = RadixNode (data: "'d option")
  (stringNodes: "(string \<times> 'd RadixNode) list")
  (regexpNodes: "(string \<times> 'd RadixNode) list")
  (segNames: "segmap option")

definition NewRadix :: "'d RadixNode" where
  "NewRadix = RadixNode None [] [] None"

fun isRegstrInRegexpNodes :: "(string \<times> 'd RadixNode) list \<Rightarrow> string \<Rightarrow> 'd RadixNode option" where
  "isRegstrInRegexpNodes [] regStr = None"
| "isRegstrInRegexpNodes ((s, node) # regNodes) regStr =
     (if s = regStr then Some node else isRegstrInRegexpNodes regNodes regStr)"

definition isRegexSegment :: "string \<Rightarrow> bool" where
  "isRegexSegment seg \<longleftrightarrow> length seg > 2 \<and> hd seg = CHR ''<'' \<and> last seg = CHR ''>''"

text \<open>The expression and the parameter name of a segment \<^verbatim>\<open><name:regexp>\<close> or \<^verbatim>\<open><name>\<close>.\<close>

definition regexSegment :: "string \<Rightarrow> string \<times> string" where
  "regexSegment seg =
     (let segStr = butlast (tl seg) in
      if CHR '':'' \<in> set segStr
      then (tl (dropWhile (\<lambda>c. c \<noteq> CHR '':'') segStr),
            ''<'' @ takeWhile (\<lambda>c. c \<noteq> CHR '':'') segStr @ ''>'')
      else (''.*'', ''<'' @ segStr @ ''>''))"

text \<open>
  \<^verbatim>\<open>add\<close> returns the error and the node as it is after the call. A child that exists is
  replaced in place, a new one is appended.
\<close>

fun add :: "string list \<Rightarrow> 'd option \<Rightarrow> nat \<Rightarrow> segmap option \<Rightarrow> 'd RadixNode \<Rightarrow>
    string option \<times> 'd RadixNode" where
  "add [] d depth names r =
     (if data r \<noteq> None then (Some ''Duplicate data for node'', r)
      else (None, RadixNode d (stringNodes r) (regexpNodes r) names))"
| "add (seg # segments) d depth names r =
     (if isRegexSegment seg then
        let (regStr, segName) = regexSegment seg;
            names = Some (AList.update (depth - 1) segName (slice_of names));
            nextNode = (case isRegstrInRegexpNodes (regexpNodes r) regStr of
                Some node \<Rightarrow> node | None \<Rightarrow> NewRadix);
            (err, nextNode') = add segments d (depth + 1) names nextNode
        in (err, RadixNode (data r) (stringNodes r)
              (AList.update regStr nextNode' (regexpNodes r)) (segNames r))
      else
        let nextNode = (case map_of (stringNodes r) seg of Some node \<Rightarrow> node | None \<Rightarrow> NewRadix);
            (err, nextNode') = add segments d (depth + 1) names nextNode
        in (err, RadixNode (data r) (AList.update seg nextNode' (stringNodes r))
              (regexpNodes r) (segNames r)))"

definition Add :: "string list \<Rightarrow> 'd option \<Rightarrow> 'd RadixNode \<Rightarrow> string option \<times> 'd RadixNode" where
  "Add segments d r =
     (case add segments d 1 None r of
        (Some err, r') \<Rightarrow> (Some (''Add Node error: '' @ err @ '' '' @ strings_Join ''/'' segments), r')
      | (None, r') \<Rightarrow> (None, r'))"

text \<open>
  The loop of \<^verbatim>\<open>match\<close> over the expression children: \<^term>\<open>Inl\<close> is its \<^verbatim>\<open>return\<close>,
  \<^term>\<open>Inr\<close> the value of \<^verbatim>\<open>nodeTmp\<close> after the loop.
\<close>

fun match_regexps :: "(string \<Rightarrow> string \<Rightarrow> bool option) \<Rightarrow>
    ('d RadixNode \<Rightarrow> ('d RadixNode \<times> bool) option) \<Rightarrow> string \<Rightarrow> (string \<times> 'd RadixNode) list \<Rightarrow>
    'd RadixNode option \<Rightarrow> ('d RadixNode \<times> bool + 'd RadixNode option) option" where
  "match_regexps rx rec seg [] nodeTmp = Some (Inr nodeTmp)"
| "match_regexps rx rec seg ((regStr, node) # regNodes) nodeTmp =
     do {
       m \<leftarrow> rx regStr seg;
       if m then do {
         (rnode, fullMatch) \<leftarrow> rec node;
         if data rnode \<noteq> None then
           if fullMatch then Some (Inl (rnode, fullMatch))
           else if nodeTmp \<noteq> None then match_regexps rx rec seg regNodes nodeTmp
           else match_regexps rx rec seg regNodes (Some rnode)
         else match_regexps rx rec seg regNodes nodeTmp }
       else match_regexps rx rec seg regNodes nodeTmp }"

fun match :: "(string \<Rightarrow> string \<Rightarrow> bool option) \<Rightarrow> string list \<Rightarrow> 'd RadixNode \<Rightarrow>
    ('d RadixNode \<times> bool) option" where
  "match rx [] r = Some (r, True)"
| "match rx (seg # segments) r =
     (if stringNodes r = [] \<and> regexpNodes r = [] then Some (r, False)
      else do {
        found \<leftarrow> (case map_of (stringNodes r) seg of
            None \<Rightarrow> Some None
          | Some node \<Rightarrow> do {
              (rnode, _) \<leftarrow> match rx segments node;
              Some (if data rnode \<noteq> None then Some rnode else None) });
        case found of
          Some rnode \<Rightarrow> Some (rnode, True)
        | None \<Rightarrow> do {
            res \<leftarrow> match_regexps rx (match rx segments) seg (regexpNodes r) None;
            Some (case res of Inl x \<Rightarrow> x
              | Inr (Some rnode) \<Rightarrow> (rnode, False)
              | Inr None \<Rightarrow> (r, False)) } })"

text \<open>
  \<^verbatim>\<open>Match\<close> ranges over the map \<^verbatim>\<open>segNames\<close> of the node found, in an order the
  language leaves open: \<open>order\<close> gives it. Reading \<^verbatim>\<open>segments[index]\<close> can panic.
\<close>

fun bindParams :: "string list \<Rightarrow> segmap \<Rightarrow> (string \<rightharpoonup> string) \<Rightarrow> (string \<rightharpoonup> string) option" where
  "bindParams segments [] params = Some params"
| "bindParams segments ((index, segName) # names) params =
     do { v \<leftarrow> go_nth segments index; bindParams segments names (params(segName \<mapsto> v)) }"

definition Match :: "(string \<Rightarrow> string \<Rightarrow> bool option) \<Rightarrow> (segmap \<Rightarrow> segmap) \<Rightarrow> string list \<Rightarrow>
    (string \<rightharpoonup> string) \<Rightarrow> 'd RadixNode \<Rightarrow> ('d option \<times> (string \<rightharpoonup> string)) option" where
  "Match rx order segments params r =
     do {
       (node, _) \<leftarrow> match rx segments r;
       params \<leftarrow> bindParams segments (order (slice_of (segNames node))) params;
       Some (data node, params) }"

text \<open>
  \<^verbatim>\<open>path.Join\<close> of a rooted path and a name: the joined path is cleaned lexically, so empty
  and \<^verbatim>\<open>.\<close> elements go and \<^verbatim>\<open>..\<close> removes the element before it.
\<close>

fun cleanSegs :: "string list \<Rightarrow> string list \<Rightarrow> string list" where
  "cleanSegs acc [] = rev acc"
| "cleanSegs acc (s # ss) =
     (if s = '''' \<or> s = ''.'' then cleanSegs acc ss
      else if s = ''..'' then cleanSegs (tl acc) ss
      else cleanSegs (s # acc) ss)"

definition path_Join :: "string \<Rightarrow> string \<Rightarrow> string" where
  "path_Join full key = ''/'' @ strings_Join ''/'' (cleanSegs [] (strings_Split CHR ''/'' (full @ ''/'' @ key)))"

fun walk :: "string \<Rightarrow> 'd RadixNode \<Rightarrow> (string \<times> 'd) list" where
  "walk fullPath (RadixNode d sns rns names) =
     (case d of None \<Rightarrow> [] | Some x \<Rightarrow> [(fullPath, x)]) @
     concat (map (\<lambda>(key, node). walk (path_Join fullPath key) node) sns) @
     concat (map (\<lambda>(regStr, node). walk (path_Join fullPath regStr) node) rns)"

definition Walk :: "'d RadixNode \<Rightarrow> (string \<times> 'd) list" where
  "Walk r = walk ''/'' r"

section \<open>Routes\<close>

text \<open>
  The abstract view of a tree: a partial map from key paths to the data and the parameter
  names stored there.
\<close>

datatype seg_key = Str string | Reg string

definition seg_key :: "string \<Rightarrow> seg_key" where
  "seg_key seg = (if isRegexSegment seg then Reg (fst (regexSegment seg)) else Str seg)"

fun child :: "seg_key \<Rightarrow> 'd RadixNode \<Rightarrow> 'd RadixNode option" where
  "child (Str s) r = map_of (stringNodes r) s"
| "child (Reg e) r = map_of (regexpNodes r) e"

fun upd_child :: "seg_key \<Rightarrow> 'd RadixNode \<Rightarrow> 'd RadixNode \<Rightarrow> 'd RadixNode" where
  "upd_child (Str s) n r =
     RadixNode (data r) (AList.update s n (stringNodes r)) (regexpNodes r) (segNames r)"
| "upd_child (Reg e) n r =
     RadixNode (data r) (stringNodes r) (AList.update e n (regexpNodes r)) (segNames r)"

fun node_at :: "seg_key list \<Rightarrow> 'd RadixNode \<Rightarrow> 'd RadixNode option" where
  "node_at [] r = Some r"
| "node_at (k # ks) r = do { n \<leftarrow> child k r; node_at ks n }"

definition routes :: "'d RadixNode \<Rightarrow> seg_key list \<Rightarrow> ('d \<times> segmap option) option" where
  "routes r ks = do { n \<leftarrow> node_at ks r; d \<leftarrow> data n; Some (d, segNames n) }"

fun add_names :: "string list \<Rightarrow> nat \<Rightarrow> segmap option \<Rightarrow> segmap option" where
  "add_names [] depth names = names"
| "add_names (seg # segs) depth names = add_names segs (depth + 1)
     (if isRegexSegment seg
      then Some (AList.update (depth - 1) (snd (regexSegment seg)) (slice_of names)) else names)"

lemma isRegstrInRegexpNodes_map_of [simp]: "isRegstrInRegexpNodes ns e = map_of ns e"
  by (induction ns e rule: isRegstrInRegexpNodes.induct) auto

lemma child_upd_child [simp]: "child k' (upd_child k n r) = (if k' = k then Some n else child k' r)"
  by (cases k; cases k') (auto simp: update_conv)

lemma data_upd_child [simp]: "data (upd_child k n r) = data r" "segNames (upd_child k n r) = segNames r"
  by (cases k; simp)+

lemma update_same: "map_of xs k = Some v \<Longrightarrow> AList.update k v xs = xs"
  by (induction xs) (auto split: if_splits)

lemma upd_child_same: "child k r = Some n \<Longrightarrow> upd_child k n r = r"
  by (cases k) (auto simp: update_same)

lemma child_NewRadix [simp]: "child k NewRadix = None" "data NewRadix = None"
  by (cases k; simp add: NewRadix_def)+

lemma routes_Nil: "routes r [] = (case data r of None \<Rightarrow> None | Some d \<Rightarrow> Some (d, segNames r))"
  by (simp add: routes_def split: option.split)

lemma routes_Cons: "routes r (k # ks) = (case child k r of None \<Rightarrow> None | Some n \<Rightarrow> routes n ks)"
  by (simp add: routes_def split: option.split)

lemma routes_NewRadix [simp]: "routes NewRadix ks = None"
  by (cases ks) (simp_all add: routes_Nil routes_Cons)

lemma add_Cons:
  "add (seg # segs) d depth names r =
     (let (err, n) = add segs d (depth + 1)
            (if isRegexSegment seg
             then Some (AList.update (depth - 1) (snd (regexSegment seg)) (slice_of names)) else names)
            (case child (seg_key seg) r of Some n \<Rightarrow> n | None \<Rightarrow> NewRadix)
      in (err, upd_child (seg_key seg) n r))"
  by (auto simp: seg_key_def split: prod.splits)

lemma add_duplicate:
  "routes r (map seg_key segs) \<noteq> None \<Longrightarrow>
     add segs d depth names r = (Some ''Duplicate data for node'', r)"
proof (induction segs arbitrary: r depth names)
  case Nil
  then show ?case by (auto simp: routes_Nil split: option.splits)
next
  case (Cons seg segs)
  then obtain n where "child (seg_key seg) r = Some n" "routes n (map seg_key segs) \<noteq> None"
    by (auto simp: routes_Cons split: option.splits)
  with Cons.IH show ?case by (simp add: add_Cons upd_child_same del: add.simps)
qed

lemma routes_upd_child:
  "routes (upd_child k n r) = (\<lambda>ks. case ks of [] \<Rightarrow> routes r [] | k' # ks' \<Rightarrow>
     if k' = k then routes n ks' else routes r (k' # ks'))"
  by (rule ext) (auto simp: routes_Nil routes_Cons split: list.split option.split)

lemma add_new:
  "routes r (map seg_key segs) = None \<Longrightarrow>
     \<exists>r'. add segs (Some d) depth names r = (None, r') \<and>
       routes r' = (routes r)(map seg_key segs \<mapsto> (d, add_names segs depth names))"
proof (induction segs arbitrary: r depth names)
  case Nil
  have "routes (RadixNode (Some d) (stringNodes r) (regexpNodes r) names) ks =
      ((routes r)([] \<mapsto> (d, names))) ks" for ks
  proof (cases ks)
    case (Cons k ks')
    then show ?thesis by (cases k) (simp_all add: routes_Cons)
  qed (simp add: routes_Nil)
  then show ?case using Nil by (auto simp: routes_Nil split: option.splits)
next
  case (Cons seg segs)
  define n where "n = (case child (seg_key seg) r of Some n \<Rightarrow> n | None \<Rightarrow> NewRadix)"
  have n: "routes n ks = routes r (seg_key seg # ks)" for ks
    by (simp add: n_def routes_Cons split: option.split)
  with Cons.prems have "routes n (map seg_key segs) = None" by simp
  from Cons.IH [OF this] obtain n' where
    "add segs (Some d) (depth + 1) (if isRegexSegment seg
       then Some (AList.update (depth - 1) (snd (regexSegment seg)) (slice_of names)) else names) n =
       (None, n')"
    and n': "routes n' = (routes n)(map seg_key segs \<mapsto> (d, add_names (seg # segs) depth names))"
    unfolding add_names.simps by blast
  then have "add (seg # segs) (Some d) depth names r = (None, upd_child (seg_key seg) n' r)"
    unfolding add_Cons n_def [symmetric] by simp
  moreover have "routes (upd_child (seg_key seg) n' r) ks = ((routes r)(map seg_key (seg # segs) \<mapsto>
      (d, add_names (seg # segs) depth names))) ks" for ks
    by (cases ks) (auto simp: routes_upd_child n' n simp del: add_names.simps)
  ultimately show ?case by (auto intro!: exI ext simp del: add.simps)
qed

text \<open>The trees the server builds: routes registered one after another on an empty tree.\<close>

definition addAll :: "(string list \<times> 'd) list \<Rightarrow> 'd RadixNode" where
  "addAll rs = fold (\<lambda>(segs, d) r. snd (Add segs (Some d) r)) rs NewRadix"

lemma routes_Add:
  "routes (snd (Add segs (Some d) r)) =
     (if routes r (map seg_key segs) = None
      then (routes r)(map seg_key segs \<mapsto> (d, add_names segs 1 None)) else routes r)"
proof (cases "routes r (map seg_key segs)")
  case None
  with add_new [OF None, of d 1 None] show ?thesis by (auto simp: Add_def)
next
  case (Some x)
  then show ?thesis by (simp add: Add_def add_duplicate)
qed

lemma addAll_snoc: "addAll (rs @ [(segs, d)]) = snd (Add segs (Some d) (addAll rs))"
  by (simp add: addAll_def)

definition route_entry :: "string list \<times> 'd \<Rightarrow> seg_key list \<times> 'd \<times> segmap option" where
  "route_entry r = (map seg_key (fst r), snd r, add_names (fst r) 1 None)"

lemma routes_addAll: "routes (addAll rs) = map_of (map route_entry rs)"
proof (induction rs rule: rev_induct)
  case Nil
  show ?case by (rule ext) (simp add: addAll_def)
next
  case (snoc e rs)
  obtain segs d where e: "e = (segs, d)" by (cases e)
  show ?case unfolding e addAll_snoc routes_Add
    by (rule ext) (auto simp: snoc route_entry_def map_add_def split: option.split)
qed

section \<open>Well-formed trees\<close>

definition wf_node :: "'d RadixNode \<Rightarrow> bool" where
  "wf_node n \<longleftrightarrow> distinct (map fst (stringNodes n)) \<and> distinct (map fst (regexpNodes n)) \<and>
     (data n = None \<longrightarrow> segNames n = None)"

definition wf_tree :: "'d RadixNode \<Rightarrow> bool" where
  "wf_tree r \<longleftrightarrow> (\<forall>ks n. node_at ks r = Some n \<longrightarrow> wf_node n)"

lemma node_at_NewRadix: "node_at ks NewRadix = (if ks = [] then Some NewRadix else None)"
  by (cases ks) auto

lemma wf_NewRadix [simp]: "wf_tree NewRadix"
  by (auto simp: wf_tree_def node_at_NewRadix split: if_splits) (simp add: NewRadix_def wf_node_def)

lemma wf_child: "wf_tree r \<Longrightarrow> child k r = Some n \<Longrightarrow> wf_tree n"
  unfolding wf_tree_def by (metis bind.bind_lunit node_at.simps(2))

lemma wf_root: "wf_tree r \<Longrightarrow> wf_node r"
  unfolding wf_tree_def by (metis node_at.simps(1))

lemma wf_upd_child:
  assumes "wf_tree r" and "wf_tree n"
  shows "wf_tree (upd_child k n r)"
  unfolding wf_tree_def
proof (intro allI impI)
  fix ks m
  assume m: "node_at ks (upd_child k n r) = Some m"
  show "wf_node m"
  proof (cases ks)
    case Nil
    then show ?thesis using m wf_root [OF assms(1)] by (cases k) (auto simp: wf_node_def distinct_update)
  next
    case (Cons k' ks')
    then show ?thesis using m assms unfolding wf_tree_def
      by (metis child_upd_child node_at.simps(2) bind.bind_lunit)
  qed
qed

lemma wf_add: "wf_tree r \<Longrightarrow> wf_tree (snd (add segs (Some d) depth names r))"
proof (induction segs arbitrary: r depth names)
  case Nil
  have "node_at (k # ks) (RadixNode d' (stringNodes r) (regexpNodes r) names') = node_at (k # ks) r"
    for k ks d' names' by (cases k) simp_all
  moreover have "wf_node (RadixNode (Some d) (stringNodes r) (regexpNodes r) names)"
    using wf_root [OF Nil] by (simp add: wf_node_def)
  ultimately have "wf_tree (RadixNode (Some d) (stringNodes r) (regexpNodes r) names)"
    using Nil unfolding wf_tree_def by (metis list.exhaust node_at.simps(1) option.inject)
  then show ?case using Nil by simp
next
  case (Cons seg segs)
  then have "wf_tree (case child (seg_key seg) r of Some n \<Rightarrow> n | None \<Rightarrow> NewRadix)"
    by (auto intro: wf_child split: option.split)
  with Cons show ?case
    by (simp add: add_Cons case_prod_beta Let_def wf_upd_child del: add.simps)
qed

lemma snd_Add: "snd (Add segs d r) = snd (add segs d 1 None r)"
  by (simp add: Add_def split: prod.split option.split)

lemma wf_addAll [simp]: "wf_tree (addAll rs)"
  by (induction rs rule: rev_induct) (auto simp: addAll_def snd_Add wf_add)

section \<open>Matching\<close>

fun seg_matches :: "(string \<Rightarrow> string \<Rightarrow> bool option) \<Rightarrow> seg_key \<Rightarrow> string \<Rightarrow> bool" where
  "seg_matches rx (Str s) seg = (seg = s)"
| "seg_matches rx (Reg e) seg = (rx e seg = Some True)"

text \<open>One turn of the loop, by what the expression and the recursive call give.\<close>

lemma match_regexps_cases:
  "rx e seg = None \<Longrightarrow> match_regexps rx rec seg ((e, node) # ns) tmp = None"
  "rx e seg = Some False \<Longrightarrow>
     match_regexps rx rec seg ((e, node) # ns) tmp = match_regexps rx rec seg ns tmp"
  "rx e seg = Some True \<Longrightarrow> rec node = None \<Longrightarrow> match_regexps rx rec seg ((e, node) # ns) tmp = None"
  "rx e seg = Some True \<Longrightarrow> rec node = Some (n, f) \<Longrightarrow>
     match_regexps rx rec seg ((e, node) # ns) tmp =
       (if data n = None then match_regexps rx rec seg ns tmp
        else if f then Some (Inl (n, f))
        else match_regexps rx rec seg ns (if tmp = None then Some n else tmp))"
  by simp_all

lemma match_regexps_turn:
  obtains (panic) "rx e seg = None" | (miss) "rx e seg = Some False"
  | (stuck) "rx e seg = Some True" "rec node = None"
  | (hit) n f where "rx e seg = Some True" "rec node = Some (n, f)"
proof (cases "rx e seg")
  case (Some b)
  then show ?thesis using miss stuck hit by (cases b; cases "rec node") auto
qed (use panic in simp)

lemma match_regexps_result:
  assumes "match_regexps rx rec seg ns tmp = Some res"
  shows "case res of
      Inl (n, f) \<Rightarrow> f \<and> (\<exists>e node. (e, node) \<in> set ns \<and> rx e seg = Some True \<and> rec node = Some (n, f) \<and> data n \<noteq> None)
    | Inr (Some n) \<Rightarrow> tmp = Some n \<or>
        (\<exists>e node. (e, node) \<in> set ns \<and> rx e seg = Some True \<and> rec node = Some (n, False) \<and> data n \<noteq> None)
    | Inr None \<Rightarrow> tmp = None \<and> (\<forall>e node. (e, node) \<in> set ns \<longrightarrow> rx e seg = Some True \<longrightarrow>
        (\<exists>n f. rec node = Some (n, f) \<and> data n = None))"
  using assms
proof (induction ns arbitrary: tmp)
  case Nil
  then show ?case by (auto split: option.split)
next
  case (Cons en ns)
  obtain e node where en: "en = (e, node)" by (cases en)
  show ?case
  proof (cases rule: match_regexps_turn [where rx = rx and e = e and seg = seg and rec = rec and node = node])
    case miss
    with Cons.prems en have "match_regexps rx rec seg ns tmp = Some res"
      by (simp only: match_regexps_cases)
    from Cons.IH [OF this] show ?thesis using miss en by (fastforce split: sum.split prod.split option.split)
  next
    case (hit n f)
    then have eq: "match_regexps rx rec seg (en # ns) tmp =
       (if data n = None then match_regexps rx rec seg ns tmp
        else if f then Some (Inl (n, f))
        else match_regexps rx rec seg ns (if tmp = None then Some n else tmp))"
      unfolding en by (rule match_regexps_cases)
    consider "data n = None" | "data n \<noteq> None" f | "data n \<noteq> None" "\<not> f" by blast
    then show ?thesis
    proof cases
      case 1
      with eq Cons.prems have "match_regexps rx rec seg ns tmp = Some res" by simp
      from Cons.IH [OF this] show ?thesis
        using 1 hit en by (fastforce split: sum.split prod.split option.split)
    next
      case 2
      with eq Cons.prems have "res = Inl (n, f)" by simp
      then show ?thesis using 2 hit en by auto
    next
      case 3
      with eq Cons.prems have "match_regexps rx rec seg ns (if tmp = None then Some n else tmp) = Some res"
        by simp
      from Cons.IH [OF this] show ?thesis
        using 3 hit en by (fastforce split: sum.split prod.split option.split if_splits)
    qed
  qed (use Cons.prems en in \<open>simp_all only: match_regexps_cases option.distinct\<close>)
qed

lemma match_regexps_total:
  assumes "\<And>e s. rx e s \<noteq> None" and "\<And>n. rec n \<noteq> None"
  shows "match_regexps rx rec seg ns tmp \<noteq> None"
proof (induction ns arbitrary: tmp)
  case (Cons en ns)
  obtain e node where en: "en = (e, node)" by (cases en)
  show ?case using assms Cons unfolding en
    by (cases rule: match_regexps_turn [where rx = rx and e = e and seg = seg and rec = rec and node = node])
      (auto simp only: match_regexps_cases option.distinct split: if_splits)
qed simp

lemma match_Cons_cases:
  assumes "match rx (seg # segs) r = Some (n, f)"
  obtains (here) "n = r" "\<not> f" "\<forall>k node. seg_matches rx k seg \<longrightarrow> child k r = Some node \<longrightarrow>
      (\<exists>m g. match rx segs node = Some (m, g) \<and> data m = None)"
  | (str) node g where "child (Str seg) r = Some node" "match rx segs node = Some (n, g)" "data n \<noteq> None" f
  | (reg) e node where "(e, node) \<in> set (regexpNodes r)" "rx e seg = Some True"
      "match rx segs node = Some (n, f)" "data n \<noteq> None"
proof (cases "stringNodes r = [] \<and> regexpNodes r = []")
  case True
  then have "child k r = None" for k by (cases k) simp_all
  with assms True here show ?thesis by simp
next
  case False
  from assms False obtain found where found: "(case map_of (stringNodes r) seg of None \<Rightarrow> Some None
      | Some node \<Rightarrow> do { (rnode, _) \<leftarrow> match rx segs node;
          Some (if data rnode \<noteq> None then Some rnode else None) }) = Some found"
    and rest: "(case found of Some rnode \<Rightarrow> Some (rnode, True)
      | None \<Rightarrow> do { res \<leftarrow> match_regexps rx (match rx segs) seg (regexpNodes r) None;
          Some (case res of Inl x \<Rightarrow> x | Inr (Some rnode) \<Rightarrow> (rnode, False)
            | Inr None \<Rightarrow> (r, False)) }) = Some (n, f)"
    by (auto simp: bind_eq_Some_conv split: if_splits)
  show ?thesis
  proof (cases found)
    case (Some rnode)
    with found rest show ?thesis
      by (auto simp: bind_eq_Some_conv split: option.splits if_splits intro: str)
  next
    case None
    with rest obtain res where "match_regexps rx (match rx segs) seg (regexpNodes r) None = Some res"
      and res: "(case res of Inl x \<Rightarrow> x | Inr (Some rnode) \<Rightarrow> (rnode, False)
            | Inr None \<Rightarrow> (r, False)) = (n, f)"
      by (auto simp: bind_eq_Some_conv)
    note scan = match_regexps_result [OF this(1)]
    show ?thesis
    proof (cases "res = Inr None")
      case True
      have "\<exists>m g. match rx segs node = Some (m, g) \<and> data m = None"
        if "seg_matches rx k seg" "child k r = Some node" for k node
        using that scan True found None
        by (cases k) (auto simp: bind_eq_Some_conv dest!: map_of_SomeD split: option.splits if_splits)
      then show ?thesis using True res by (intro here) auto
    next
      case False
      then show ?thesis using scan res by (cases res) (auto split: option.splits intro: reg)
    qed
  qed
qed

lemma match_sound:
  "wf_tree r \<Longrightarrow> match rx segs r = Some (n, f) \<Longrightarrow>
     \<exists>ks. length ks \<le> length segs \<and> node_at ks r = Some n \<and>
       list_all2 (seg_matches rx) ks (take (length ks) segs)"
proof (induction segs arbitrary: r f)
  case Nil
  then show ?case by auto
next
  case (Cons seg segs)
  from Cons.prems(2) show ?case
  proof (cases rule: match_Cons_cases)
    case here
    then show ?thesis by (intro exI [of _ "[]"]) simp
  next
    case (str node g)
    from Cons.IH [OF wf_child [OF Cons.prems(1) str(1)] str(2)] obtain ks where
      "length ks \<le> length segs" "node_at ks node = Some n" "list_all2 (seg_matches rx) ks (take (length ks) segs)"
      by blast
    then show ?thesis using str(1) by (intro exI [of _ "Str seg # ks"]) simp
  next
    case (reg e node)
    then have c: "child (Reg e) r = Some node" using wf_root [OF Cons.prems(1)] by (simp add: wf_node_def)
    from Cons.IH [OF wf_child [OF Cons.prems(1) c] reg(3)] obtain ks where
      "length ks \<le> length segs" "node_at ks node = Some n" "list_all2 (seg_matches rx) ks (take (length ks) segs)"
      by blast
    then show ?thesis using c reg(2) by (intro exI [of _ "Reg e # ks"]) simp
  qed
qed

lemma match_total:
  assumes "\<And>e s. rx e s \<noteq> None"
  shows "match rx segs r \<noteq> None"
proof (induction segs arbitrary: r)
  case (Cons seg segs)
  obtain res where res: "match_regexps rx (match rx segs) seg (regexpNodes r) None = Some res"
    using match_regexps_total [where rx = rx and rec = "match rx segs" and seg = seg
        and ns = "regexpNodes r" and tmp = None] assms Cons.IH by blast
  show ?case
  proof (cases "map_of (stringNodes r) seg")
    case None
    with res show ?thesis by auto
  next
    case (Some node)
    moreover obtain m g where "match rx segs node = Some (m, g)" using Cons.IH [of node] by auto
    ultimately show ?thesis using res by (cases "data m") auto
  qed
qed simp

lemma match_complete:
  "match rx segs r = Some (n, f) \<Longrightarrow> routes r ks \<noteq> None \<Longrightarrow> length ks \<le> length segs \<Longrightarrow>
     list_all2 (seg_matches rx) ks (take (length ks) segs) \<Longrightarrow> data n \<noteq> None"
proof (induction segs arbitrary: r n f ks)
  case Nil
  then show ?case by (auto simp: routes_Nil split: option.splits)
next
  case (Cons seg segs)
  show ?case
  proof (cases ks)
    case Nil
    then have r: "data r \<noteq> None" using Cons.prems(2) by (auto simp: routes_Nil split: option.splits)
    from Cons.prems(1) show ?thesis using r by (cases rule: match_Cons_cases) auto
  next
    case (Cons k ks')
    note ks = this
    with Cons.prems(3,4) have k: "seg_matches rx k seg" and le: "length ks' \<le> length segs"
      and ks': "list_all2 (seg_matches rx) ks' (take (length ks') segs)" by auto
    from Cons.prems(2) obtain node where node: "child k r = Some node" "routes node ks' \<noteq> None"
      unfolding ks by (auto simp: routes_Cons split: option.splits)
    have IH: "data m \<noteq> None" if "match rx segs node = Some (m, g)" for m g
      by (rule Cons.IH [OF that node(2) le ks'])
    from Cons.prems(1) show ?thesis
    proof (cases rule: match_Cons_cases)
      case here
      then show ?thesis using k node(1) IH by blast
    qed auto
  qed
qed

lemma match_exact:
  "node_at (map Str segs) r = Some n \<Longrightarrow> data n \<noteq> None \<Longrightarrow> match rx segs r = Some (n, True)"
proof (induction segs arbitrary: r)
  case (Cons seg segs)
  then obtain node where node: "map_of (stringNodes r) seg = Some node"
    "node_at (map Str segs) node = Some n"
    by (auto simp: bind_eq_Some_conv)
  then show ?case using Cons by (cases "stringNodes r = []") (auto simp: bind_eq_Some_conv)
qed simp

section \<open>Parameters\<close>

fun pnames :: "nat \<Rightarrow> string list \<Rightarrow> segmap" where
  "pnames i [] = []"
| "pnames i (seg # segs) =
     (if isRegexSegment seg then [(i, snd (regexSegment seg))] else []) @ pnames (i + 1) segs"

lemma update_fresh: "k \<notin> fst ` set al \<Longrightarrow> AList.update k v al = al @ [(k, v)]"
  by (induction al) auto

lemma add_names_pnames:
  "0 < depth \<Longrightarrow> (\<forall>i \<in> fst ` set (slice_of names). i < depth - 1) \<Longrightarrow>
     slice_of (add_names segs depth names) = slice_of names @ pnames (depth - 1) segs"
proof (induction segs arbitrary: depth names)
  case (Cons seg segs)
  have "depth - 1 \<notin> fst ` set (slice_of names)" using Cons.prems(2) by blast
  note fresh = update_fresh [OF this]
  have "\<forall>i \<in> fst ` set (slice_of names). i < depth" "0 < depth" using Cons.prems by auto
  then show ?case
    using fresh Cons.IH [of "Suc depth" names]
      Cons.IH [of "Suc depth" "Some (slice_of names @ [(depth - 1, snd (regexSegment seg))])"]
    by simp
qed simp

lemma set_pnames:
  "(j, n) \<in> set (pnames i segs) \<longleftrightarrow>
     (\<exists>k < length segs. j = i + k \<and> isRegexSegment (segs ! k) \<and> n = snd (regexSegment (segs ! k)))"
proof (induction segs arbitrary: i)
  case (Cons seg segs)
  then show ?case by (auto simp: nth_Cons less_Suc_eq_0_disj)
qed simp

lemma bindParams_in_range:
  "(\<forall>(i, n) \<in> set l. i < length segs) \<Longrightarrow>
     bindParams segs l params = Some (params ++ map_of (rev (map (\<lambda>(i, n). (n, segs ! i)) l)))"
  by (induction segs l params rule: bindParams.induct) auto

section \<open>Handlers\<close>

record SHandlerInfo =
  hi_method :: string
  hi_path :: "string list"
  hi_name :: string
  processTimeout :: nat
  workerMan :: "string option"
  skipLog :: bool

record Application =
  roots :: "string \<rightharpoonup> SHandlerInfo RadixNode"
  app_session :: string
  readSession :: string
  app_processTimeout :: nat

definition whitespace :: "char list" where
  "whitespace = [CHR '' '', CHR 0x09, CHR 0x0D, CHR 0x0A]"

definition SplitPath :: "string \<Rightarrow> string list" where
  "SplitPath path = filter (\<lambda>seg. length seg > 0) (map (strings_Trim whitespace) (strings_Split CHR ''/'' path))"

definition getRoot :: "string \<Rightarrow> Application \<Rightarrow> SHandlerInfo RadixNode \<times> Application" where
  "getRoot method app = (case roots app method of
       Some v \<Rightarrow> (v, app)
     | None \<Rightarrow> (NewRadix, app\<lparr>roots := (roots app)(method \<mapsto> NewRadix)\<rparr>))"

definition newHandlerInfo :: "string \<Rightarrow> string list \<Rightarrow> string \<Rightarrow> SHandlerInfo" where
  "newHandlerInfo method path name =
     \<lparr>hi_method = method, hi_path = path, hi_name = name, processTimeout = 0,
      workerMan = None, skipLog = False\<rparr>"

text \<open>Registration: a second handler for a path ends the process (\<^verbatim>\<open>log.Fatalf\<close>), here \<^term>\<open>None\<close>.\<close>

definition AddHandler3 :: "SHandlerInfo \<Rightarrow> Application \<Rightarrow> Application option" where
  "AddHandler3 hi app =
     (let (root, app) = getRoot (hi_method hi) app;
          (e, root') = Add (hi_path hi) (Some hi) root
      in if e \<noteq> None then None
         else Some (app\<lparr>roots := (roots app)(hi_method hi \<mapsto> root')\<rparr>))"

definition AddHandler2 :: "string \<Rightarrow> string \<Rightarrow> string \<Rightarrow> Application \<Rightarrow> Application option" where
  "AddHandler2 method prefix name app = AddHandler3 (newHandlerInfo method (SplitPath prefix) name) app"

text \<open>
  The part of \<^verbatim>\<open>defaultHandle\<close> that decides what happens to a request: which handler runs,
  with which parameters, rest of the path, worker manager and timeout. \<open>isCors\<close> is the result
  of \<^verbatim>\<open>handleCORS\<close>; slicing the path behind the handler's own path can panic.
\<close>

datatype http_action =
    RunHandler SHandlerInfo "string \<rightharpoonup> string" "string list" string nat
  | NotFoundError
  | NothingMore

definition defaultHandle :: "(string \<Rightarrow> string \<Rightarrow> bool option) \<Rightarrow> (segmap \<Rightarrow> segmap) \<Rightarrow> bool \<Rightarrow>
    string \<Rightarrow> string \<Rightarrow> Application \<Rightarrow> (http_action \<times> Application) option" where
  "defaultHandle rx order isCors method path app =
     (let segs = SplitPath path; (root, app) = getRoot method app in
      do {
        (handler, params) \<leftarrow> Match rx order segs Map.empty root;
        case handler of
          Some hand \<Rightarrow>
            let to = (if processTimeout hand = 0 then app_processTimeout app else processTimeout hand);
                session = (case workerMan hand of
                    Some w \<Rightarrow> w
                  | None \<Rightarrow> if method = ''GET'' \<or> method = ''HEAD'' then readSession app else app_session app)
            in if length (hi_path hand) \<le> length segs
               then Some (RunHandler hand params (drop (length (hi_path hand)) segs) session to, app)
               else None
        | None \<Rightarrow> Some (if \<not> isCors then NotFoundError else NothingMore, app) })"

section \<open>Properties\<close>

text \<open>
  C27. \<^verbatim>\<open>Add\<close> is insertion into the map from key paths (literal segments and regular
  expressions) to handlers: it fails exactly when the path already has a handler and then
  leaves the tree as it was; otherwise it adds that one entry, with the names of the
  parameters in the path, and changes nothing else.
\<close>

theorem radix_add_refines:
  "case Add segs (Some d) r of (err, r') \<Rightarrow>
     (if routes r (map seg_key segs) \<noteq> None then err \<noteq> None \<and> r' = r
      else err = None \<and> routes r' = (routes r)(map seg_key segs \<mapsto> (d, add_names segs 1 None)))"
proof (cases "routes r (map seg_key segs)")
  case None
  with add_new [OF None, of d 1 None] show ?thesis by (auto simp: Add_def)
next
  case (Some x)
  then show ?thesis by (simp add: Add_def add_duplicate)
qed

definition route_matches :: "(string \<Rightarrow> string \<Rightarrow> bool option) \<Rightarrow> string list \<Rightarrow> string list \<Rightarrow> bool" where
  "route_matches rx p segs \<longleftrightarrow> length p \<le> length segs \<and>
     list_all2 (seg_matches rx) (map seg_key p) (take (length p) segs)"

lemma match_addAll_none:
  assumes "match rx segs (addAll rs) = Some (n, f)" and "data n = None"
  shows "\<forall>(p, d) \<in> set rs. \<not> route_matches rx p segs"
proof clarify
  fix p d
  assume "(p, d) \<in> set rs" and m: "route_matches rx p segs"
  then have "map seg_key p \<in> fst ` set (map route_entry rs)" by (force simp: route_entry_def)
  then have "routes (addAll rs) (map seg_key p) \<noteq> None"
    unfolding routes_addAll by (simp add: map_of_eq_None_iff)
  from match_complete [OF assms(1) this] m assms(2) show False by (simp add: route_matches_def)
qed

lemma match_addAll_some:
  assumes "match rx segs (addAll rs) = Some (n, f)" and "data n = Some d"
  shows "\<exists>p. (p, d) \<in> set rs \<and> route_matches rx p segs \<and> slice_of (segNames n) = pnames 0 p"
proof -
  from match_sound [OF wf_addAll assms(1)] obtain ks where
    ks: "length ks \<le> length segs" "node_at ks (addAll rs) = Some n"
      "list_all2 (seg_matches rx) ks (take (length ks) segs)" by blast
  then have "routes (addAll rs) ks = Some (d, segNames n)" using assms(2) by (simp add: routes_def)
  then have "(ks, d, segNames n) \<in> set (map route_entry rs)"
    unfolding routes_addAll by (rule map_of_SomeD)
  then obtain p where p: "(p, d) \<in> set rs" "ks = map seg_key p" "segNames n = add_names p 1 None"
    by (auto simp: route_entry_def)
  then have "slice_of (segNames n) = pnames 0 p" using add_names_pnames [of 1 None p] by simp
  moreover have "route_matches rx p segs" using ks(1,3) unfolding p(2) by (simp add: route_matches_def)
  ultimately show ?thesis using p(1) by blast
qed

lemma bindParams_value:
  assumes "mset l = mset (pnames 0 p)" and "length p \<le> length segs"
  shows "\<exists>params'. bindParams segs l params = Some params' \<and>
     (distinct (map snd (pnames 0 p)) \<longrightarrow> (\<forall>i < length p. isRegexSegment (p ! i) \<longrightarrow>
        params' (snd (regexSegment (p ! i))) = Some (segs ! i)))"
proof -
  have set: "set l = set (pnames 0 p)" using assms(1) by (rule mset_eq_setD)
  then have "\<forall>(i, n) \<in> set l. i < length segs" using assms(2) by (auto simp: set_pnames)
  note bind = bindParams_in_range [OF this]
  have "map_of (rev (map (\<lambda>(i, n). (n, segs ! i)) l)) (snd (regexSegment (p ! i))) = Some (segs ! i)"
    if d: "distinct (map snd (pnames 0 p))" and i: "i < length p" "isRegexSegment (p ! i)" for i
  proof -
    have "mset (map snd l) = mset (map snd (pnames 0 p))" using assms(1) by simp
    then have "distinct (map snd l)" using d mset_eq_imp_distinct_iff by blast
    then have "distinct (map fst (rev (map (\<lambda>(i, n). (n, segs ! i)) l)))"
      by (simp add: rev_map [symmetric] comp_def case_prod_beta)
    moreover have "(snd (regexSegment (p ! i)), segs ! i) \<in> set (rev (map (\<lambda>(i, n). (n, segs ! i)) l))"
      using i unfolding set_rev set_map set by (force simp: set_pnames)
    ultimately show ?thesis by (rule map_of_is_SomeI)
  qed
  then show ?thesis unfolding bind
    by (intro exI [of _ "params ++ map_of (rev (map (\<lambda>(i, n). (n, segs ! i)) l))"] conjI refl)
      (simp add: map_add_Some_iff)
qed


definition any_rx :: "string \<Rightarrow> string \<Rightarrow> bool option" where
  "any_rx e s = Some True"


text \<open>
  A literal path always reaches its own handler: whatever other routes, with whatever
  expressions (compiling or not), are registered, a request for a registered path without
  parameters is given the handler registered first for it.
\<close>

theorem radix_literal_route_wins:
  assumes "(p, d) \<in> set rs" and "\<forall>seg \<in> set p. \<not> isRegexSegment seg"
  shows "\<exists>n d'. match rx p (addAll rs) = Some (n, True) \<and> data n = Some d' \<and>
     find (\<lambda>(q, _). map seg_key q = map seg_key p) rs = Some (p, d')"
proof -
  have key: "map seg_key p = map Str p" using assms(2) by (auto simp: seg_key_def)
  have "map seg_key p \<in> fst ` set (map route_entry rs)" using assms(1) by (force simp: route_entry_def)
  then obtain d' names where r: "map_of (map route_entry rs) (map seg_key p) = Some (d', names)"
    by (metis map_of_eq_None_iff not_None_eq prod.exhaust)
  then have "routes (addAll rs) (map Str p) = Some (d', names)" unfolding routes_addAll key .
  then obtain n where n: "node_at (map Str p) (addAll rs) = Some n" "data n = Some d'"
    by (auto simp: routes_def bind_eq_Some_conv)
  have "find (\<lambda>(q, _). map seg_key q = map seg_key p) rs = Some (p, d')"
    using r
  proof (induction rs)
    case (Cons e rs)
    have "q = p" if "map seg_key q = map Str p" for q
      using that by (induction p arbitrary: q) (auto simp: seg_key_def split: if_splits)
    with Cons show ?case by (cases e) (auto simp: route_entry_def key split: if_splits)
  qed simp
  then show ?thesis using match_exact [OF n(1)] n(2) by auto
qed

lemma radix_literal_route_wins_witness:
  "\<exists>n d'. match any_rx [''servers'', ''statistics'']
       (addAll [([''servers'', ''<id>''], 0::nat), ([''servers'', ''statistics''], 1)]) = Some (n, True) \<and>
     data n = Some d' \<and>
     find (\<lambda>(q, _). map seg_key q = map seg_key [''servers'', ''statistics''])
       [([''servers'', ''<id>''], 0::nat), ([''servers'', ''statistics''], 1)] =
       Some ([''servers'', ''statistics''], d')"
  by (rule radix_literal_route_wins [of _ 1]) (simp_all add: isRegexSegment_def)

text \<open>
  The full-match flag of \<^verbatim>\<open>match\<close> is set for prefix matches below a literal
  segment, so a shorter route can hide a longer one that matches the whole path: with the
  routes \<^verbatim>\<open><a:r>/x\<close> and \<^verbatim>\<open><a:s>/x/y\<close>, a request \<^verbatim>\<open>/q/x/y\<close> that both
  first expressions match is given to the first, flagged as a full match.
\<close>

theorem radix_prefix_hides_full_match:
  "\<exists>n. match any_rx [''q'', ''x'', ''y'']
       (addAll [([''<a:r>'', ''x''], 0::nat), ([''<a:s>'', ''x'', ''y''], 1)]) = Some (n, True) \<and>
     data n = Some 0 \<and> route_matches any_rx [''<a:s>'', ''x'', ''y''] [''q'', ''x'', ''y'']"
proof -
  have "map_option (\<lambda>(n, f). (data n, f)) (match any_rx [''q'', ''x'', ''y'']
      (addAll [([''<a:r>'', ''x''], 0::nat), ([''<a:s>'', ''x'', ''y''], 1)])) = Some (Some 0, True)"
    by code_simp
  moreover have "route_matches any_rx [''<a:s>'', ''x'', ''y''] [''q'', ''x'', ''y'']" by code_simp
  ultimately show ?thesis by auto
qed

text \<open>Handlers registered in sequence, and the tree they leave for each method.\<close>

fun registerAll :: "SHandlerInfo list \<Rightarrow> Application \<Rightarrow> Application option" where
  "registerAll [] app = Some app"
| "registerAll (hi # his) app = do { app' \<leftarrow> AddHandler3 hi app; registerAll his app' }"

definition method_root :: "string \<Rightarrow> Application \<Rightarrow> SHandlerInfo RadixNode" where
  "method_root m app = fst (getRoot m app)"

definition method_routes :: "string \<Rightarrow> SHandlerInfo list \<Rightarrow> (string list \<times> SHandlerInfo) list" where
  "method_routes m his = map (\<lambda>hi. (hi_path hi, hi)) (filter (\<lambda>hi. hi_method hi = m) his)"

lemma method_root_AddHandler3:
  "AddHandler3 hi app = Some app' \<Longrightarrow>
     method_root m app' =
       (if m = hi_method hi then snd (Add (hi_path hi) (Some hi) (method_root m app)) else method_root m app)"
  by (auto simp: AddHandler3_def method_root_def getRoot_def Let_def split: prod.splits option.splits if_splits)

lemma method_root_registerAll:
  "registerAll his app = Some app' \<Longrightarrow>
     method_root m app' = fold (\<lambda>(segs, d) r. snd (Add segs (Some d) r)) (method_routes m his) (method_root m app)"
proof (induction his arbitrary: app)
  case (Cons hi his)
  then obtain app1 where "AddHandler3 hi app = Some app1" "registerAll his app1 = Some app'"
    by (auto simp: bind_eq_Some_conv)
  with Cons.IH method_root_AddHandler3 show ?case by (auto simp: method_routes_def)
qed (simp add: method_routes_def)

lemma fst_getRoot: "fst (getRoot m app) = method_root m app"
  by (simp add: method_root_def)


definition demo_app :: Application where
  "demo_app = \<lparr>roots = Map.empty, app_session = ''w'', readSession = ''r'', app_processTimeout = 15\<rparr>"

definition demo_handlers :: "SHandlerInfo list" where
  "demo_handlers = [newHandlerInfo ''GET'' [''servers'', ''<id>''] ''get'',
     newHandlerInfo ''GET'' [''servers''] ''list'', newHandlerInfo ''POST'' [''servers''] ''create'']"


text \<open>
  \<^verbatim>\<open>SplitPath\<close> yields the canonical segments of a path: they are non-empty, hold no
  slash, and joining them with slashes gives a path with the same segments.
\<close>

theorem SplitPath_canonical:
  "list_all (\<lambda>seg. seg \<noteq> [] \<and> CHR ''/'' \<notin> set seg) (SplitPath path) \<and>
   SplitPath (''/'' @ strings_Join ''/'' (SplitPath path)) = SplitPath path"
proof -
  have segs: "seg \<noteq> []" "CHR ''/'' \<notin> set seg" "strings_Trim whitespace seg = seg"
    if "seg \<in> set (SplitPath path)" for seg
    using that strings_Split_no_sep [of _ "CHR ''/''" path] set_strings_Trim
    by (auto simp: SplitPath_def)
  have canon: "filter (\<lambda>seg. length seg > 0) (map (strings_Trim whitespace) ss) = ss"
    if "\<forall>seg \<in> set ss. seg \<noteq> [] \<and> strings_Trim whitespace seg = seg" for ss
    using that by (induction ss) auto
  have "SplitPath (''/'' @ strings_Join ''/'' (SplitPath path)) = SplitPath path"
  proof (cases "SplitPath path = []")
    case True
    then show ?thesis unfolding True by (simp add: SplitPath_def)
  next
    case False
    then have "strings_Split CHR ''/'' (strings_Join ''/'' (SplitPath path)) = SplitPath path"
      by (rule strings_Split_Join) (use segs(2) in blast)
    then have "SplitPath (''/'' @ strings_Join ''/'' (SplitPath path)) =
        filter (\<lambda>seg. length seg > 0) (map (strings_Trim whitespace) ([] # SplitPath path))"
      unfolding SplitPath_def [of "''/'' @ strings_Join ''/'' (SplitPath path)"] by simp
    moreover have "filter (\<lambda>seg. length seg > 0) (map (strings_Trim whitespace) (SplitPath path)) = SplitPath path"
      by (rule canon) (use segs(1,3) in blast)
    ultimately show ?thesis by simp
  qed
  then show ?thesis using segs(1,2) by (auto simp: list_all_iff)
qed

fun key_text :: "seg_key \<Rightarrow> string" where
  "key_text (Str s) = s"
| "key_text (Reg e) = e"

definition route_path :: "string \<Rightarrow> seg_key list \<Rightarrow> string" where
  "route_path full ks = foldl path_Join full (map key_text ks)"

lemma routes_Cons_iff:
  "routes r (k # ks) = Some x \<longleftrightarrow> (\<exists>n. child k r = Some n \<and> routes n ks = Some x)"
  by (simp add: routes_Cons split: option.split)

lemma routes_entry_iff:
  assumes "wf_node (RadixNode dd sns rns names)"
  shows "(\<exists>ks ns. routes (RadixNode dd sns rns names) ks = Some (d, ns) \<and> q = route_path full ks) \<longleftrightarrow>
      dd = Some d \<and> q = full \<or>
      (\<exists>k n. (k, n) \<in> set sns \<and> (\<exists>ks ns. routes n ks = Some (d, ns) \<and> q = route_path (path_Join full k) ks)) \<or>
      (\<exists>k n. (k, n) \<in> set rns \<and> (\<exists>ks ns. routes n ks = Some (d, ns) \<and> q = route_path (path_Join full k) ks))"
    (is "(\<exists>ks ns. ?P ks ns) \<longleftrightarrow> ?R")
proof
  assume "\<exists>ks ns. ?P ks ns"
  then obtain ks ns where *: "?P ks ns" by blast
  show ?R
  proof (cases ks)
    case Nil
    with * show ?thesis by (auto simp: routes_Nil route_path_def split: option.splits)
  next
    case (Cons k ks')
    from * obtain n where n: "child k (RadixNode dd sns rns names) = Some n" "routes n ks' = Some (d, ns)"
      unfolding Cons routes_Cons_iff by blast
    have q: "q = route_path (path_Join full (key_text k)) ks'" using * Cons by (simp add: route_path_def)
    show ?thesis
    proof (cases k)
      case (Str s)
      then have "(s, n) \<in> set sns" using n(1) by (simp add: map_of_SomeD)
      with n(2) q [unfolded Str key_text.simps] show ?thesis by blast
    next
      case (Reg e)
      then have "(e, n) \<in> set rns" using n(1) by (simp add: map_of_SomeD)
      with n(2) q [unfolded Reg key_text.simps] show ?thesis by blast
    qed
  qed
next
  have wf: "distinct (map fst sns)" "distinct (map fst rns)" using assms by (simp_all add: wf_node_def)
  assume ?R
  then consider "dd = Some d" "q = full"
    | k n ks ns where "(k, n) \<in> set sns" "routes n ks = Some (d, ns)" "q = route_path (path_Join full k) ks"
    | k n ks ns where "(k, n) \<in> set rns" "routes n ks = Some (d, ns)" "q = route_path (path_Join full k) ks"
    by blast
  then show "\<exists>ks ns. ?P ks ns"
  proof cases
    case 1
    then have "?P [] names" by (simp add: routes_Nil route_path_def)
    then show ?thesis by blast
  next
    case (2 k n ks ns)
    then have "?P (Str k # ks) ns" using wf by (simp add: routes_Cons_iff route_path_def)
    then show ?thesis by blast
  next
    case (3 k n ks ns)
    then have "?P (Reg k # ks) ns" using wf by (simp add: routes_Cons_iff route_path_def)
    then show ?thesis by blast
  qed
qed

lemma walk_visits:
  "wf_tree r \<Longrightarrow> (q, d) \<in> set (walk full r) \<longleftrightarrow> (\<exists>ks names. routes r ks = Some (d, names) \<and> q = route_path full ks)"
proof (induction full r arbitrary: q d rule: walk.induct)
  case (1 full dd sns rns names)
  note wf = wf_root [OF 1(3)]
  have str: "\<forall>k n. (k, n) \<in> set sns \<longrightarrow> (q, d) \<in> set (walk (path_Join full k) n) \<longleftrightarrow>
      (\<exists>ks names. routes n ks = Some (d, names) \<and> q = route_path (path_Join full k) ks)"
  proof clarify
    fix k n
    assume kn: "(k, n) \<in> set sns"
    then have "wf_tree n" using wf wf_child [OF 1(3), of "Str k" n] by (simp add: wf_node_def)
    from 1(1) [OF kn refl this] show "(q, d) \<in> set (walk (path_Join full k) n) \<longleftrightarrow>
      (\<exists>ks names. routes n ks = Some (d, names) \<and> q = route_path (path_Join full k) ks)" .
  qed
  have reg: "\<forall>k n. (k, n) \<in> set rns \<longrightarrow> (q, d) \<in> set (walk (path_Join full k) n) \<longleftrightarrow>
      (\<exists>ks names. routes n ks = Some (d, names) \<and> q = route_path (path_Join full k) ks)"
  proof clarify
    fix k n
    assume kn: "(k, n) \<in> set rns"
    then have "wf_tree n" using wf wf_child [OF 1(3), of "Reg k" n] by (simp add: wf_node_def)
    from 1(2) [OF kn refl this] show "(q, d) \<in> set (walk (path_Join full k) n) \<longleftrightarrow>
      (\<exists>ks names. routes n ks = Some (d, names) \<and> q = route_path (path_Join full k) ks)" .
  qed
  have split: "(q, d) \<in> set (walk full (RadixNode dd sns rns names)) \<longleftrightarrow> dd = Some d \<and> q = full \<or>
      (\<exists>k n. (k, n) \<in> set sns \<and> (q, d) \<in> set (walk (path_Join full k) n)) \<or>
      (\<exists>k n. (k, n) \<in> set rns \<and> (q, d) \<in> set (walk (path_Join full k) n))"
    by (cases dd) (simp_all add: Bex_def, blast)
  show ?case unfolding routes_entry_iff [OF wf] split
    by (intro arg_cong2 [of _ _ _ _ "(\<or>)"] refl) (use str reg in blast)+
qed

lemma find_route_key: "find (\<lambda>(q, _). map seg_key q = ks) rs = Some (p, d) \<Longrightarrow> map seg_key p = ks"
  by (induction rs) (auto split: if_splits)

lemma route_entry_find:
  "(\<exists>names. map_of (map route_entry rs) ks = Some (d, names)) \<longleftrightarrow>
     (\<exists>p. find (\<lambda>(q, _). map seg_key q = ks) rs = Some (p, d))"
proof (induction rs)
  case (Cons e rs)
  obtain p d' where "e = (p, d')" by (cases e)
  with Cons show ?case by (cases "map seg_key p = ks") (simp_all add: route_entry_def)
qed simp

text \<open>
  \<^verbatim>\<open>Walk\<close> reports exactly the registered routes: the pairs it visits are the paths of
  the routes, joined from the root, each with the data registered first for its key path.
\<close>

theorem Walk_visits_routes:
  "set (Walk (addAll rs)) =
     {(route_path ''/'' (map seg_key p), d) | p d. find (\<lambda>(q, _). map seg_key q = map seg_key p) rs = Some (p, d)}"
proof -
  have iff: "(q, d) \<in> set (Walk (addAll rs)) \<longleftrightarrow>
      (\<exists>ks. (\<exists>names. map_of (map route_entry rs) ks = Some (d, names)) \<and> q = route_path ''/'' ks)" for q d
    unfolding Walk_def walk_visits [OF wf_addAll] routes_addAll by blast
  have "(q, d) \<in> set (Walk (addAll rs)) \<longleftrightarrow> (\<exists>p. q = route_path ''/'' (map seg_key p) \<and>
      find (\<lambda>(q, _). map seg_key q = map seg_key p) rs = Some (p, d))" for q d
  proof
    assume "(q, d) \<in> set (Walk (addAll rs))"
    then obtain ks p where "find (\<lambda>(q, _). map seg_key q = ks) rs = Some (p, d)" "q = route_path ''/'' ks"
      unfolding iff route_entry_find by blast
    with find_route_key [OF this(1)] show "\<exists>p. q = route_path ''/'' (map seg_key p) \<and>
      find (\<lambda>(q, _). map seg_key q = map seg_key p) rs = Some (p, d)" by auto
  next
    assume "\<exists>p. q = route_path ''/'' (map seg_key p) \<and>
      find (\<lambda>(q, _). map seg_key q = map seg_key p) rs = Some (p, d)"
    then show "(q, d) \<in> set (Walk (addAll rs))" unfolding iff route_entry_find by blast
  qed
  then show ?thesis by auto
qed

end
