(* ===== verification/Rbac.thy ===== *)
theory Rbac
  imports Go_Prelude "HOL-Library.AList"
begin

text \<open>
  Role-based access control, \<^verbatim>\<open>pkg/util/rbacutils/rabc.go\<close>: policies decoded from JSON
  into rules, the compaction of the rules, the choice of the rule that decides a request, and
  the encoding of rules back into JSON.

  A JSON dictionary is the association list of its entries in the order the run ranges over
  the map. The slice \<^verbatim>\<open>Extra\<close> of a rule is built by \<^verbatim>\<open>append\<close> from the slice of the
  rule it extends, so decoding works on an explicit store of arrays and the rules are read
  from the store at the end.
\<close>

section \<open>Results and rules\<close>

type_synonym TRbacResult = string

definition WILD_MATCH :: string where "WILD_MATCH = ''*''"
definition AllowR :: TRbacResult where "AllowR = ''allow''"
definition AdminAllow :: TRbacResult where "AdminAllow = ''admin''"
definition OwnerAllow :: TRbacResult where "OwnerAllow = ''owner''"
definition UserAllow :: TRbacResult where "UserAllow = ''user''"
definition GuestAllow :: TRbacResult where "GuestAllow = ''guest''"
definition DenyR :: TRbacResult where "DenyR = ''deny''"

lemmas result_defs = AllowR_def AdminAllow_def OwnerAllow_def UserAllow_def GuestAllow_def DenyR_def

text \<open>The map \<^verbatim>\<open>strictness\<close>; an absent key reads as 0.\<close>

definition Strictness :: "TRbacResult \<Rightarrow> nat" where
  "Strictness r =
     (if r = DenyR then 0 else if r = AdminAllow then 1 else if r = OwnerAllow then 2
      else if r = UserAllow then 3 else if r = GuestAllow then 4 else 0)"

definition StricterThan :: "TRbacResult \<Rightarrow> TRbacResult \<Rightarrow> bool" where
  "StricterThan r1 r2 \<longleftrightarrow> Strictness r1 < Strictness r2"

record SRbacRule =
  Service :: string
  Resource :: string
  Action :: string
  Extra :: "string list option"
  Result :: TRbacResult

record SRbacPolicy =
  IsAdmin :: bool
  Rules :: "SRbacRule list"
  Projects :: "string list"
  Roles :: "string list"

definition isWildMatch :: "string \<Rightarrow> bool" where
  "isWildMatch s \<longleftrightarrow> length s = 0 \<or> s = WILD_MATCH"

text \<open>
  The loop of \<^verbatim>\<open>contains\<close> over the extra keys; reading \<^verbatim>\<open>rule2.Extra[i]\<close> can panic.
\<close>

fun contains_extra :: "nat \<Rightarrow> string list \<Rightarrow> string list option \<Rightarrow> bool option" where
  "contains_extra i [] extra2 = Some True"
| "contains_extra i (e # es) extra2 =
     (if isWildMatch e then contains_extra (i + 1) es extra2
      else case extra2 of
        None \<Rightarrow> Some False
      | Some es2 \<Rightarrow>
          if length es2 < i then Some False
          else do { e2 \<leftarrow> go_nth es2 i;
                    if e \<noteq> e2 then Some False else contains_extra (i + 1) es extra2 })"

definition rule_contains :: "SRbacRule \<Rightarrow> SRbacRule \<Rightarrow> bool option" where
  "rule_contains rule rule2 =
     (if \<not> isWildMatch (Service rule) \<and> Service rule \<noteq> Service rule2 then Some False
      else if \<not> isWildMatch (Resource rule) \<and> Resource rule \<noteq> Resource rule2 then Some False
      else if \<not> isWildMatch (Action rule) \<and> Action rule \<noteq> Action rule2 then Some False
      else do {
        b \<leftarrow> contains_extra 0 (slice_of (Extra rule)) (Extra rule2);
        if \<not> b then Some False else Some (Result rule = Result rule2) })"

definition stricterThan :: "SRbacRule \<Rightarrow> SRbacRule \<Rightarrow> bool" where
  "stricterThan rule r2 = StricterThan (Result rule) (Result r2)"

fun match_extra :: "nat \<Rightarrow> string list \<Rightarrow> string list \<Rightarrow> nat \<Rightarrow> nat \<Rightarrow> (nat \<times> nat) option" where
  "match_extra i (e # es) (x # xs) matched weight =
     (if \<not> isWildMatch e
      then if e \<noteq> x then None else match_extra (i + 1) es xs (matched + 1) (weight + 1000 * (i + 1))
      else match_extra (i + 1) es xs matched weight)"
| "match_extra i _ _ matched weight = Some (matched, weight)"

text \<open>The results \<^verbatim>\<open>true, matched, weight\<close> of \<^verbatim>\<open>match\<close>; \<^term>\<open>None\<close> is \<^verbatim>\<open>false, 0, 0\<close>.\<close>

definition rule_match :: "SRbacRule \<Rightarrow> string \<Rightarrow> string \<Rightarrow> string \<Rightarrow> string list \<Rightarrow> (nat \<times> nat) option" where
  "rule_match rule service resource action extra =
     do {
       (m, w) \<leftarrow> (if \<not> isWildMatch (Service rule)
          then if Service rule \<noteq> service then None else Some (1, 1) else Some (0, 0));
       (m, w) \<leftarrow> (if \<not> isWildMatch (Resource rule)
          then if Resource rule \<noteq> resource then None else Some (m + 1, w + 10) else Some (m, w));
       (m, w) \<leftarrow> (if \<not> isWildMatch (Action rule)
          then if Action rule \<noteq> action then None else Some (m + 1, w + 100) else Some (m, w));
       match_extra 0 (slice_of (Extra rule)) extra m w }"

text \<open>
  The loop of \<^verbatim>\<open>GetMatchRule\<close>. \<^verbatim>\<open>matchRule\<close> is nil at the start, and calling
  \<^verbatim>\<open>stricterThan\<close> on nil panics; the operators \<^verbatim>\<open>&&\<close> and \<^verbatim>\<open>||\<close> evaluate it last.
\<close>

fun GetMatchRule_loop :: "string \<Rightarrow> string \<Rightarrow> string \<Rightarrow> string list \<Rightarrow> SRbacRule list \<Rightarrow>
    nat \<Rightarrow> nat \<Rightarrow> SRbacRule option \<Rightarrow> SRbacRule option option" where
  "GetMatchRule_loop service resource action extra [] maxMatchCnt minWeight matchRule = Some matchRule"
| "GetMatchRule_loop service resource action extra (rule # rules) maxMatchCnt minWeight matchRule =
     (case rule_match rule service resource action extra of
        None \<Rightarrow> GetMatchRule_loop service resource action extra rules maxMatchCnt minWeight matchRule
      | Some (matchCnt, weight) \<Rightarrow>
          if maxMatchCnt < matchCnt \<or> maxMatchCnt = matchCnt \<and> minWeight > weight
          then GetMatchRule_loop service resource action extra rules matchCnt weight (Some rule)
          else if maxMatchCnt = matchCnt \<and> minWeight = weight
          then do {
            r \<leftarrow> matchRule;
            if stricterThan r rule
            then GetMatchRule_loop service resource action extra rules matchCnt weight (Some rule)
            else GetMatchRule_loop service resource action extra rules maxMatchCnt minWeight matchRule }
          else GetMatchRule_loop service resource action extra rules maxMatchCnt minWeight matchRule)"

definition GetMatchRule :: "SRbacPolicy \<Rightarrow> string \<Rightarrow> string \<Rightarrow> string \<Rightarrow> string list \<Rightarrow>
    SRbacRule option option" where
  "GetMatchRule policy service resource action extra =
     GetMatchRule_loop service resource action extra (Rules policy) 0 1000000 None"

definition getMatchRule :: "SRbacPolicy \<Rightarrow> string list \<Rightarrow> SRbacRule option option" where
  "getMatchRule policy req =
     GetMatchRule policy
       (if length req > 0 then req ! 0 else WILD_MATCH)
       (if length req > 1 then req ! 1 else WILD_MATCH)
       (if length req > 2 then req ! 2 else WILD_MATCH)
       (if length req > 3 then drop 3 req else [])"

text \<open>\<^verbatim>\<open>CompactRules\<close>: the inner loop looks for the first rule that contains or is contained.\<close>

fun compact_insert :: "SRbacRule \<Rightarrow> SRbacRule list \<Rightarrow> SRbacRule list option" where
  "compact_insert rule [] = Some [rule]"
| "compact_insert rule (out # outs) =
     do {
       c1 \<leftarrow> rule_contains out rule;
       if c1 then Some (out # outs)
       else do {
         c2 \<leftarrow> rule_contains rule out;
         if c2 then Some (rule # outs)
         else do { outs' \<leftarrow> compact_insert rule outs; Some (out # outs') } } }"

fun compact_loop :: "SRbacRule list \<Rightarrow> SRbacRule list \<Rightarrow> SRbacRule list option" where
  "compact_loop output [] = Some output"
| "compact_loop output (rule # rules) =
     do { output' \<leftarrow> compact_insert rule output; compact_loop output' rules }"

fun CompactRules :: "SRbacRule list \<Rightarrow> SRbacRule list option" where
  "CompactRules [] = Some []"
| "CompactRules (rule # rules) = compact_loop [rule] rules"

section \<open>Decoding\<close>

datatype json = JSONString string | JSONDict "(string \<times> json) list" | JSONArray "json list"
  | JSONBool bool | JSONInt int

text \<open>
  Slices of strings over a store of arrays. \<^verbatim>\<open>append\<close> writes into the array when the
  slice has room and otherwise copies it into an array of twice the capacity (the growth of
  the runtime below 1024 elements).
\<close>

record slice =
  arr :: nat
  len :: nat
  cap :: nat

type_synonym store = "string list list"

definition make1 :: "string \<Rightarrow> store \<Rightarrow> slice \<times> store" where
  "make1 x h = (\<lparr>arr = length h, len = 1, cap = 1\<rparr>, h @ [[x]])"

definition append1 :: "slice \<Rightarrow> string \<Rightarrow> store \<Rightarrow> slice \<times> store" where
  "append1 sl x h =
     (if len sl < cap sl
      then (sl\<lparr>len := len sl + 1\<rparr>, h[arr sl := (h ! arr sl)[len sl := x]])
      else (\<lparr>arr = length h, len = len sl + 1, cap = 2 * cap sl\<rparr>,
            h @ [take (len sl) (h ! arr sl) @ [x] @ replicate (2 * cap sl - len sl - 1) []]))"

definition read_slice :: "store \<Rightarrow> slice \<Rightarrow> string list" where
  "read_slice h sl = take (len sl) (h ! arr sl)"

record raw_rule =
  rService :: string
  rResource :: string
  rAction :: string
  rExtra :: "slice option"
  rResult :: TRbacResult

definition read_rule :: "store \<Rightarrow> raw_rule \<Rightarrow> SRbacRule" where
  "read_rule h r = \<lparr>Service = rService r, Resource = rResource r, Action = rAction r,
     Extra = map_option (read_slice h) (rExtra r), Result = rResult r\<rparr>"

definition result_of :: "bool \<Rightarrow> string \<Rightarrow> TRbacResult option" where
  "result_of isAdmin ruleStr =
     (if ruleStr = AllowR then Some (if isAdmin then AdminAllow else OwnerAllow)
      else if ruleStr \<in> {AdminAllow, OwnerAllow, UserAllow, GuestAllow, DenyR} then Some ruleStr
      else None)"

definition set_level :: "nat \<Rightarrow> string \<Rightarrow> raw_rule \<Rightarrow> store \<Rightarrow> raw_rule \<times> store" where
  "set_level level key rule h =
     (if level = 0 then (rule\<lparr>rService := key\<rparr>, h)
      else if level = 1 then (rule\<lparr>rResource := key\<rparr>, h)
      else if level = 2 then (rule\<lparr>rAction := key\<rparr>, h)
      else let (sl, h') = (case rExtra rule of None \<Rightarrow> make1 key h | Some sl \<Rightarrow> append1 sl key h)
           in (rule\<lparr>rExtra := Some sl\<rparr>, h'))"

fun decode :: "bool \<Rightarrow> json \<Rightarrow> raw_rule \<Rightarrow> nat \<Rightarrow> store \<Rightarrow> string + raw_rule list \<times> store"
  and decode_entries :: "bool \<Rightarrow> (string \<times> json) list \<Rightarrow> raw_rule \<Rightarrow> nat \<Rightarrow> store \<Rightarrow>
    string + raw_rule list \<times> store" where
  "decode isAdmin (JSONString ruleStr) decodeRule level h =
     (case result_of isAdmin ruleStr of
        Some r \<Rightarrow> Inr ([decodeRule\<lparr>rResult := r\<rparr>], h)
      | None \<Rightarrow> Inl (''unsupported rule string '' @ ruleStr))"
| "decode isAdmin (JSONDict entries) decodeRule level h = decode_entries isAdmin entries decodeRule level h"
| "decode isAdmin _ decodeRule level h = Inl ''unsupport rule data''"
| "decode_entries isAdmin [] decodeRule level h = Inr ([], h)"
| "decode_entries isAdmin ((key, ruleJson) # entries) decodeRule level h =
     (let (rule, h1) = set_level level key decodeRule h in
      case decode isAdmin ruleJson rule (level + 1) h1 of
        Inl err \<Rightarrow> Inl err
      | Inr (decoded, h2) \<Rightarrow>
          (case decode_entries isAdmin entries decodeRule level h2 of
             Inl err \<Rightarrow> Inl err
           | Inr (rules, h3) \<Rightarrow> Inr (decoded @ rules, h3)))"

definition emptyRule :: raw_rule where
  "emptyRule = \<lparr>rService = [], rResource = [], rAction = [], rExtra = None, rResult = []\<rparr>"

definition decode_rules :: "bool \<Rightarrow> json \<Rightarrow> string + SRbacRule list" where
  "decode_rules isAdmin j =
     (case decode isAdmin j emptyRule 0 [] of
        Inl err \<Rightarrow> Inl err
      | Inr (rules, h) \<Rightarrow> Inr (map (read_rule h) rules))"

text \<open>
  The two patterns searched in a legacy condition, \<^verbatim>\<open>tenant\s*==\s*['"]?(\w+)['"]?\<close> and
  \<^verbatim>\<open>roles.contains\(['"]?(\w+)['"]?\)\<close>, on ASCII text: a match attempt at one position,
  which gives the captured word and the rest, and the leftmost non-overlapping search.
\<close>

definition is_space :: "char \<Rightarrow> bool" where
  "is_space c \<longleftrightarrow> c \<in> {CHR '' '', CHR 0x09, CHR 0x0A, CHR 0x0C, CHR 0x0D}"

definition is_word :: "char \<Rightarrow> bool" where
  "is_word c \<longleftrightarrow> CHR ''0'' \<le> c \<and> c \<le> CHR ''9'' \<or> CHR ''A'' \<le> c \<and> c \<le> CHR ''Z'' \<or>
     CHR ''a'' \<le> c \<and> c \<le> CHR ''z'' \<or> c = CHR ''_''"

definition literal :: "string \<Rightarrow> string \<Rightarrow> string option" where
  "literal p s = (if take (length p) s = p then Some (drop (length p) s) else None)"

definition skip_quote :: "string \<Rightarrow> string" where
  "skip_quote s = (case s of [] \<Rightarrow> [] | c # cs \<Rightarrow> if c = CHR 0x27 \<or> c = CHR 0x22 then cs else s)"

definition word_token :: "string \<Rightarrow> (string \<times> string) option" where
  "word_token s = (if takeWhile is_word s = [] then None else Some (takeWhile is_word s, dropWhile is_word s))"

definition tenantEqualsPattern :: "string \<Rightarrow> (string \<times> string) option" where
  "tenantEqualsPattern s =
     do { s \<leftarrow> literal ''tenant'' s; s \<leftarrow> literal ''=='' (dropWhile is_space s);
          (w, s) \<leftarrow> word_token (skip_quote (dropWhile is_space s)); Some (w, skip_quote s) }"

definition roleContainsPattern :: "string \<Rightarrow> (string \<times> string) option" where
  "roleContainsPattern s =
     do { s \<leftarrow> literal ''roles'' s;
          s \<leftarrow> (case s of [] \<Rightarrow> None | c # cs \<Rightarrow> if c = CHR 0x0A then None else Some cs);
          s \<leftarrow> literal ''contains('' s;
          (w, s) \<leftarrow> word_token (skip_quote s); s \<leftarrow> literal '')'' (skip_quote s); Some (w, s) }"

text \<open>\<open>fuel\<close> bounds the positions tried; the length of the text is enough.\<close>

fun searchMatchStrings :: "(string \<Rightarrow> (string \<times> string) option) \<Rightarrow> nat \<Rightarrow> string \<Rightarrow> string list" where
  "searchMatchStrings pattern 0 s = []"
| "searchMatchStrings pattern (Suc fuel) s =
     (case pattern s of
        Some (w, rest) \<Rightarrow> w # searchMatchStrings pattern fuel rest
      | None \<Rightarrow> (case s of [] \<Rightarrow> [] | _ # cs \<Rightarrow> searchMatchStrings pattern fuel cs))"

definition searchMatchTenants :: "string \<Rightarrow> string list" where
  "searchMatchTenants condstr = searchMatchStrings tenantEqualsPattern (length condstr) condstr"

definition searchMatchRoles :: "string \<Rightarrow> string list" where
  "searchMatchRoles condstr = searchMatchStrings roleContainsPattern (length condstr) condstr"

text \<open>
  \<^verbatim>\<open>Decode\<close> on what the JSON accessors return for the fields of a policy: \<^term>\<open>None\<close>
  where the field is absent. The outer option is the panic of \<^verbatim>\<open>CompactRules\<close>.
\<close>

record policy_json =
  j_condition :: string
  j_is_admin :: bool
  j_projects :: "string list option"
  j_roles :: "string list option"
  j_policy :: "json option"

definition Decode :: "policy_json \<Rightarrow> (string + SRbacPolicy) option" where
  "Decode j =
     (let ps = slice_of (j_projects j); rs = slice_of (j_roles j);
          legacy = (ps = [] \<and> rs = [] \<and> length (j_condition j) > 0);
          ps = (if legacy then searchMatchTenants (j_condition j) else ps);
          rs = (if legacy then searchMatchRoles (j_condition j) else rs)
      in case j_policy j of
           None \<Rightarrow> Some (Inl ''JSON key not found'')
         | Some ruleJson \<Rightarrow>
             (case decode_rules (j_is_admin j) ruleJson of
                Inl err \<Rightarrow> Some (Inl err)
              | Inr rules \<Rightarrow>
                  if rules = [] then Some (Inl ''empty policy'')
                  else do {
                    compacted \<leftarrow> CompactRules rules;
                    Some (Inr \<lparr>IsAdmin = j_is_admin j, Rules = compacted, Projects = ps, Roles = rs\<rparr>) }))"

section \<open>Encoding, explanation and user matching\<close>

text \<open>The loop that drops trailing wild keys keeps the first key.\<close>

definition toStringArray :: "SRbacRule \<Rightarrow> string list" where
  "toStringArray rule =
     Service rule # rev (dropWhile isWildMatch (rev ([Resource rule, Action rule] @ slice_of (Extra rule))))"

text \<open>
  \<^verbatim>\<open>addRule2Json\<close> on the entries of a dictionary, returning the error and the entries
  after the call. The call for a dictionary already present under the last key drops its
  error. No caller passes an empty list of keys.
\<close>

function addRule2Json :: "(string \<times> json) list \<Rightarrow> string list \<Rightarrow> TRbacResult \<Rightarrow>
    string option \<times> (string \<times> json) list" where
  "addRule2Json node [] result = (Some ''invalid rules'', node)"
| "addRule2Json node [key] result =
     (case map_of node key of
        Some (JSONString _) \<Rightarrow> (Some ''conflict?'', node)
      | Some (JSONDict d) \<Rightarrow> (None, AList.update key (JSONDict (snd (addRule2Json d [WILD_MATCH] result))) node)
      | Some _ \<Rightarrow> (Some ''invalid rules'', node)
      | None \<Rightarrow> (None, AList.update key (JSONString result) node))"
| "addRule2Json node (key # k2 # ks) result =
     (case map_of node key of
        Some (JSONString s) \<Rightarrow>
          (let (err, d) = addRule2Json [(WILD_MATCH, JSONString s)] (k2 # ks) result
           in (err, AList.update key (JSONDict d) node))
      | Some (JSONDict d) \<Rightarrow>
          (let (err, d') = addRule2Json d (k2 # ks) result in (err, AList.update key (JSONDict d') node))
      | Some _ \<Rightarrow> (Some ''invalid rules'', node)
      | None \<Rightarrow> (let (err, d) = addRule2Json [] (k2 # ks) result in (err, AList.update key (JSONDict d) node)))"
  by pat_completeness auto

lemma size_map_of: "map_of node key = Some j \<Longrightarrow> size j < size_list (size_prod (\<lambda>_. 0) size) node"
  by (induction node) (auto split: if_splits)

termination addRule2Json
  by (relation "measures [\<lambda>(node, keys, _). length keys, \<lambda>(node, _, _). size_list (size_prod (\<lambda>_. 0) size) node]")
    (auto dest: size_map_of)

fun encode_loop :: "(string \<times> json) list \<Rightarrow> SRbacRule list \<Rightarrow> string + (string \<times> json) list" where
  "encode_loop node [] = Inr node"
| "encode_loop node (rule # rules) =
     (case addRule2Json node (toStringArray rule) (Result rule) of
        (Some err, _) \<Rightarrow> Inl err
      | (None, node') \<Rightarrow> encode_loop node' rules)"

definition Encode :: "SRbacPolicy \<Rightarrow> string + json" where
  "Encode policy =
     (case encode_loop [] (Rules policy) of
        Inl err \<Rightarrow> Inl err
      | Inr rules \<Rightarrow> Inr (JSONDict (
          [(''is_admin'', JSONBool (IsAdmin policy))] @
          (if length (Projects policy) > 0
           then [(''projects'', JSONArray (map JSONString (Projects policy)))] else []) @
          (if length (Roles policy) > 0
           then [(''roles'', JSONArray (map JSONString (Roles policy)))] else []) @
          [(''policy'', JSONDict rules)])))"

fun Explain :: "SRbacPolicy \<Rightarrow> string list list \<Rightarrow> string list list option" where
  "Explain policy [] = Some []"
| "Explain policy (req # request) =
     do {
       rule \<leftarrow> getMatchRule policy req;
       rest \<leftarrow> Explain policy request;
       Some ((req @ [case rule of None \<Rightarrow> DenyR | Some r \<Rightarrow> Result r]) # rest) }"

definition contains_str :: "string list \<Rightarrow> string \<Rightarrow> bool" where
  "contains_str s1 s = list_ex (\<lambda>x. x = s) s1"

definition intersect :: "string list \<Rightarrow> string list \<Rightarrow> bool" where
  "intersect s1 s2 = list_ex (\<lambda>x. list_ex (\<lambda>y. x = y) s2) s1"

text \<open>A user credential, when there is one: the project name and the roles.\<close>

definition policy_Match :: "SRbacPolicy \<Rightarrow> (string \<times> string list) option \<Rightarrow> bool" where
  "policy_Match policy userCred \<longleftrightarrow>
     (length (Projects policy) = 0 \<or>
        (case userCred of None \<Rightarrow> False | Some (p, _) \<Rightarrow> contains_str (Projects policy) p)) \<and>
     (length (Roles policy) = 0 \<or>
        (case userCred of None \<Rightarrow> False | Some (_, rs) \<Rightarrow> intersect (Roles policy) rs))"

section \<open>What matching and containment mean\<close>

definition field_ok :: "string \<Rightarrow> string \<Rightarrow> bool" where
  "field_ok pat x \<longleftrightarrow> isWildMatch pat \<or> pat = x"

lemma match_extra_matches:
  "match_extra i es xs m w \<noteq> None \<longleftrightarrow> (\<forall>k < min (length es) (length xs). field_ok (es ! k) (xs ! k))"
proof (induction i es xs m w rule: match_extra.induct)
  case (1 i e es x xs m w)
  have "(\<forall>k < min (length (e # es)) (length (x # xs)). field_ok ((e # es) ! k) ((x # xs) ! k)) \<longleftrightarrow>
      field_ok e x \<and> (\<forall>k < min (length es) (length xs). field_ok (es ! k) (xs ! k))"
    by (auto simp: nth_Cons less_Suc_eq_0_disj split: nat.split)
  then show ?case using 1 by (simp add: field_ok_def)
qed auto

lemma rule_match_matches:
  "rule_match rule service resource action extra \<noteq> None \<longleftrightarrow>
     field_ok (Service rule) service \<and> field_ok (Resource rule) resource \<and> field_ok (Action rule) action \<and>
     (\<forall>k < min (length (slice_of (Extra rule))) (length extra).
        field_ok (slice_of (Extra rule) ! k) (extra ! k))"
  using match_extra_matches [of 0 "slice_of (Extra rule)" extra]
  by (auto simp: rule_match_def field_ok_def simp del: not_None_eq split: if_splits)

lemma match_extra_weight:
  "match_extra i es xs m w = Some (m', w') \<Longrightarrow> (m = 0 \<longrightarrow> w = 0) \<Longrightarrow> m' = 0 \<longrightarrow> w' = 0"
proof (induction i es xs m w rule: match_extra.induct)
  case (1 i e es x xs m w)
  then show ?case by (cases "isWildMatch e"; cases "e = x") auto
qed auto

lemma rule_match_weight: "rule_match rule s r a e = Some (0, w) \<Longrightarrow> w = 0"
  using match_extra_weight [of 0 "slice_of (Extra rule)" e _ _ 0 w]
  by (auto simp: rule_match_def bind_eq_Some_conv split: if_splits)

text \<open>A pattern key that is not wild is present and equal in the other rule.\<close>

definition extra_covers :: "nat \<Rightarrow> string list \<Rightarrow> string list option \<Rightarrow> bool" where
  "extra_covers i es extra2 \<longleftrightarrow> (\<forall>k < length es. \<not> isWildMatch (es ! k) \<longrightarrow>
     i + k < length (slice_of extra2) \<and> slice_of extra2 ! (i + k) = es ! k)"

lemma extra_covers_Cons:
  "extra_covers i (e # es) extra2 \<longleftrightarrow>
     (\<not> isWildMatch e \<longrightarrow> i < length (slice_of extra2) \<and> slice_of extra2 ! i = e) \<and> extra_covers (i + 1) es extra2"
  by (auto simp: extra_covers_def nth_Cons less_Suc_eq_0_disj split: nat.split)

lemma contains_extra_True: "contains_extra i es extra2 = Some True \<longleftrightarrow> extra_covers i es extra2"
proof (induction i es extra2 rule: contains_extra.induct)
  case (1 i extra2)
  then show ?case by (simp add: extra_covers_def)
next
  case (2 i e es extra2)
  show ?case
  proof (cases "isWildMatch e")
    case True
    with 2(1) show ?thesis by (simp add: extra_covers_Cons)
  next
    case False
    then show ?thesis
      using 2(2) [OF False] by (cases extra2) (auto simp: extra_covers_Cons go_nth_def bind_eq_Some_conv)
  qed
qed

lemma rule_contains_True:
  "rule_contains a b = Some True \<longleftrightarrow>
     field_ok (Service a) (Service b) \<and> field_ok (Resource a) (Resource b) \<and> field_ok (Action a) (Action b) \<and>
     extra_covers 0 (slice_of (Extra a)) (Extra b) \<and> Result a = Result b"
  unfolding contains_extra_True [symmetric]
  by (auto simp: rule_contains_def field_ok_def bind_eq_Some_conv split: if_splits)

lemma rule_contains_refl: "rule_contains a a = Some True"
  by (simp add: rule_contains_True field_ok_def extra_covers_def)

lemma rule_contains_trans:
  assumes "rule_contains a b = Some True" and "rule_contains b c = Some True"
  shows "rule_contains a c = Some True"
  using assms unfolding rule_contains_True
  by (auto simp: field_ok_def extra_covers_def)

lemma rule_contains_match:
  assumes "rule_contains a b = Some True" and "rule_match b s r x e \<noteq> None"
  shows "rule_match a s r x e \<noteq> None"
  unfolding rule_match_matches
proof (intro conjI allI impI)
  fix k
  assume k: "k < min (length (slice_of (Extra a))) (length e)"
  show "field_ok (slice_of (Extra a) ! k) (e ! k)"
  proof (cases "isWildMatch (slice_of (Extra a) ! k)")
    case False
    then have "k < length (slice_of (Extra b))" "slice_of (Extra b) ! k = slice_of (Extra a) ! k"
      using assms(1) k unfolding rule_contains_True extra_covers_def by auto
    then show ?thesis using assms(2) k unfolding rule_match_matches by (metis min_less_iff_conj)
  qed (simp add: field_ok_def)
qed (use assms(1) assms(2) [unfolded rule_match_matches] in \<open>auto simp: rule_contains_True field_ok_def\<close>)

section \<open>The deciding rule\<close>

text \<open>
  How the loop ranks a matching rule: more matched keys first, then the smaller weight, then
  the laxer result.
\<close>

definition rank_le :: "nat \<times> nat \<times> nat \<Rightarrow> nat \<times> nat \<times> nat \<Rightarrow> bool" where
  "rank_le x y = (case x of (c, w, l) \<Rightarrow> case y of (c', w', l') \<Rightarrow>
     c < c' \<or> c = c' \<and> (w' < w \<or> w = w' \<and> l \<le> l'))"

definition rank :: "SRbacRule \<Rightarrow> nat \<times> nat \<Rightarrow> nat \<times> nat \<times> nat" where
  "rank r cw = (fst cw, snd cw, Strictness (Result r))"

lemma rank_le_refl: "rank_le x x"
  by (simp add: rank_le_def split: prod.split)

lemma rank_le_trans: "rank_le x y \<Longrightarrow> rank_le y z \<Longrightarrow> rank_le x z"
  by (auto simp: rank_le_def split: prod.splits)

lemma rank_le_antisym: "rank_le x y \<Longrightarrow> rank_le y x \<Longrightarrow> x = y"
  by (auto simp: rank_le_def split: prod.splits)

definition best_of :: "(SRbacRule \<Rightarrow> (nat \<times> nat) option) \<Rightarrow> SRbacRule set \<Rightarrow> SRbacRule option \<Rightarrow> bool" where
  "best_of m S res = (case res of
       None \<Rightarrow> \<forall>r \<in> S. m r = None
     | Some b \<Rightarrow> b \<in> S \<and> (\<exists>cw. m b = Some cw \<and> (\<forall>r \<in> S. \<forall>cw'. m r = Some cw' \<longrightarrow> rank_le (rank r cw') (rank b cw))))"

lemma best_of_skip: "best_of m S res \<Longrightarrow> m r = None \<Longrightarrow> best_of m (insert r S) res"
  by (auto simp: best_of_def split: option.splits)

lemma best_of_below:
  "best_of m S (Some b) \<Longrightarrow> m b = Some cw \<Longrightarrow> m r = Some cw' \<Longrightarrow> rank_le (rank r cw') (rank b cw) \<Longrightarrow>
     best_of m (insert r S) (Some b)"
  by (auto simp: best_of_def)

lemma best_of_above:
  "best_of m S (Some b) \<Longrightarrow> m b = Some cw \<Longrightarrow> m r = Some cw' \<Longrightarrow> rank_le (rank b cw) (rank r cw') \<Longrightarrow>
     best_of m (insert r S) (Some r)"
  by (auto simp: best_of_def intro: rank_le_refl rank_le_trans)

lemma best_of_first: "best_of m S None \<Longrightarrow> m r = Some cw \<Longrightarrow> best_of m (insert r S) (Some r)"
  by (auto simp: best_of_def intro: rank_le_refl)

lemma GetMatchRule_loop_best:
  assumes "best_of (\<lambda>x. rule_match x s r a e) S mr"
    and "case mr of None \<Rightarrow> mx = 0 \<and> mn = 1000000 | Some b \<Rightarrow> rule_match b s r a e = Some (mx, mn)"
  shows "\<exists>res. GetMatchRule_loop s r a e rules mx mn mr = Some res \<and>
     best_of (\<lambda>x. rule_match x s r a e) (S \<union> set rules) res"
  using assms
proof (induction rules arbitrary: mx mn mr S)
  case (Cons rule rules)
  let ?m = "\<lambda>x. rule_match x s r a e"
  note IH = Cons.IH [where S = "insert rule S", simplified]
  show ?case
  proof (cases "?m rule")
    case None
    have "best_of ?m (insert rule S) mr" by (rule best_of_skip [OF Cons.prems(1)]) (simp add: None)
    from IH [OF this Cons.prems(2)] show ?thesis using None by simp
  next
    case (Some cw)
    obtain c w where cw: "cw = (c, w)" by (cases cw)
    note m = Some [unfolded cw]
    show ?thesis
    proof (cases mr)
      case None
      then have "mx = 0" "mn = 1000000" using Cons.prems(2) by auto
      moreover have "c = 0 \<longrightarrow> w = 0" using m rule_match_weight by blast
      ultimately have "mx < c \<or> mx = c \<and> mn > w" by (cases c) auto
      moreover have "best_of ?m (insert rule S) (Some rule)"
        using best_of_first [of ?m S rule "(c, w)"] Cons.prems(1) m None by simp
      ultimately show ?thesis using IH [of "Some rule" c w] m by simp
    next
      case (Some b)
      then have b: "?m b = Some (mx, mn)" and best: "best_of ?m S (Some b)" using Cons.prems by auto
      consider (win) "mx < c \<or> mx = c \<and> mn > w" | (tie) "mx = c" "mn = w" | (lose) "c < mx \<or> c = mx \<and> mn < w"
        by linarith
      then show ?thesis
      proof cases
        case win
        then have "best_of ?m (insert rule S) (Some rule)"
          by (intro best_of_above [OF best, where cw = "(mx, mn)" and cw' = "(c, w)"]) (auto simp: b m rank_def rank_le_def)
        then show ?thesis using IH [of "Some rule" c w] m win by simp
      next
        case tie
        show ?thesis
        proof (cases "stricterThan b rule")
          case True
          then have "best_of ?m (insert rule S) (Some rule)"
            using tie by (intro best_of_above [OF best, where cw = "(mx, mn)" and cw' = "(c, w)"])
              (auto simp: b m rank_def rank_le_def stricterThan_def StricterThan_def)
          then show ?thesis using IH [of "Some rule" c w] m tie Some True by simp
        next
          case False
          then have "best_of ?m (insert rule S) (Some b)"
            using tie by (intro best_of_below [OF best, where cw = "(mx, mn)" and cw' = "(c, w)"])
              (auto simp: b m rank_def rank_le_def stricterThan_def StricterThan_def)
          then show ?thesis using IH [of "Some b" mx mn] b m tie Some False by simp
        qed
      next
        case lose
        then have "best_of ?m (insert rule S) (Some b)"
          by (intro best_of_below [OF best, where cw = "(mx, mn)" and cw' = "(c, w)"]) (auto simp: b m rank_def rank_le_def)
        then show ?thesis using IH [of "Some b" mx mn] b m lose Some by auto
      qed
    qed
  qed
qed simp

lemma GetMatchRule_best:
  "\<exists>res. GetMatchRule p s r a e = Some res \<and> best_of (\<lambda>x. rule_match x s r a e) (set (Rules p)) res"
  using GetMatchRule_loop_best [of s r a e "{}" None 0 1000000 "Rules p"]
  by (simp add: GetMatchRule_def best_of_def)

section \<open>Compaction\<close>

lemma compact_insert_covers:
  "compact_insert rule outs = Some outs' \<Longrightarrow>
     set outs' \<subseteq> insert rule (set outs) \<and>
     (\<forall>r \<in> insert rule (set outs). \<exists>o' \<in> set outs'. rule_contains o' r = Some True)"
proof (induction outs arbitrary: outs')
  case Nil
  then show ?case by (auto simp: rule_contains_refl)
next
  case (Cons out outs)
  from Cons.prems consider
      (keep) "rule_contains out rule = Some True" "outs' = out # outs"
    | (replace) "rule_contains rule out = Some True" "outs' = rule # outs"
    | (deeper) outs1 where "compact_insert rule outs = Some outs1" "outs' = out # outs1"
    by (auto simp: bind_eq_Some_conv split: if_splits)
  then show ?case
  proof cases
    case keep
    then show ?thesis by (auto intro: rule_contains_refl)
  next
    case replace
    then show ?thesis by (auto intro: rule_contains_refl)
  next
    case deeper
    with Cons.IH [OF deeper(1)] show ?thesis by (auto intro: rule_contains_refl)
  qed
qed

lemma compact_loop_covers:
  "compact_loop outs rules = Some outs' \<Longrightarrow>
     set outs' \<subseteq> set outs \<union> set rules \<and>
     (\<forall>r \<in> set outs \<union> set rules. \<exists>o' \<in> set outs'. rule_contains o' r = Some True)"
proof (induction rules arbitrary: outs)
  case Nil
  then show ?case by (auto intro: rule_contains_refl)
next
  case (Cons rule rules)
  then obtain outs1 where 1: "compact_insert rule outs = Some outs1" "compact_loop outs1 rules = Some outs'"
    by (auto simp: bind_eq_Some_conv)
  note a = compact_insert_covers [OF 1(1)] and b = Cons.IH [OF 1(2)]
  have "\<exists>o' \<in> set outs'. rule_contains o' r = Some True" if r: "r \<in> set outs \<union> set (rule # rules)" for r
  proof (cases "r \<in> set rules")
    case True
    then show ?thesis using b by blast
  next
    case False
    with a r obtain o1 where "o1 \<in> set outs1" "rule_contains o1 r = Some True" by auto
    with b show ?thesis by (meson UnI1 rule_contains_trans)
  qed
  then show ?case using a b by auto
qed

lemma CompactRules_covers:
  "CompactRules rules = Some out \<Longrightarrow>
     set out \<subseteq> set rules \<and> (\<forall>r \<in> set rules. \<exists>o' \<in> set out. rule_contains o' r = Some True)"
proof (cases rules)
  case (Cons r rs)
  moreover assume "CompactRules rules = Some out"
  ultimately show ?thesis using compact_loop_covers [of "[r]" rs out] by simp
qed simp

section \<open>Decoding with copied slices\<close>

text \<open>The decoding that is meant: every rule has its own list of extra keys.\<close>

definition set_level_pure :: "nat \<Rightarrow> string \<Rightarrow> SRbacRule \<Rightarrow> SRbacRule" where
  "set_level_pure level key rule =
     (if level = 0 then rule\<lparr>Service := key\<rparr>
      else if level = 1 then rule\<lparr>Resource := key\<rparr>
      else if level = 2 then rule\<lparr>Action := key\<rparr>
      else rule\<lparr>Extra := Some (slice_of (Extra rule) @ [key])\<rparr>)"

fun decode_pure :: "bool \<Rightarrow> json \<Rightarrow> SRbacRule \<Rightarrow> nat \<Rightarrow> string + SRbacRule list"
  and decode_entries_pure :: "bool \<Rightarrow> (string \<times> json) list \<Rightarrow> SRbacRule \<Rightarrow> nat \<Rightarrow> string + SRbacRule list" where
  "decode_pure isAdmin (JSONString ruleStr) rule level =
     (case result_of isAdmin ruleStr of
        Some r \<Rightarrow> Inr [rule\<lparr>Result := r\<rparr>]
      | None \<Rightarrow> Inl (''unsupported rule string '' @ ruleStr))"
| "decode_pure isAdmin (JSONDict entries) rule level = decode_entries_pure isAdmin entries rule level"
| "decode_pure isAdmin _ rule level = Inl ''unsupport rule data''"
| "decode_entries_pure isAdmin [] rule level = Inr []"
| "decode_entries_pure isAdmin ((key, j) # entries) rule level =
     (case decode_pure isAdmin j (set_level_pure level key rule) (level + 1) of
        Inl err \<Rightarrow> Inl err
      | Inr decoded \<Rightarrow>
          (case decode_entries_pure isAdmin entries rule level of
             Inl err \<Rightarrow> Inl err
           | Inr rules \<Rightarrow> Inr (decoded @ rules)))"

text \<open>The number of nested dictionaries.\<close>

fun dict_depth :: "json \<Rightarrow> nat" and entries_depth :: "(string \<times> json) list \<Rightarrow> nat" where
  "dict_depth (JSONDict entries) = Suc (entries_depth entries)"
| "dict_depth _ = 0"
| "entries_depth [] = 0"
| "entries_depth ((k, j) # entries) = max (dict_depth j) (entries_depth entries)"

text \<open>
  Down to three extra keys every slice that is appended to is full, so \<^verbatim>\<open>append\<close> copies and
  the store only grows.
\<close>

definition slice_wf :: "store \<Rightarrow> nat \<Rightarrow> slice option \<Rightarrow> bool" where
  "slice_wf h level s = (case s of
       None \<Rightarrow> level \<le> 3
     | Some sl \<Rightarrow> arr sl < length h \<and> length (h ! arr sl) = cap sl \<and> len sl \<le> cap sl \<and>
         (level = 4 \<and> len sl = 1 \<and> cap sl = 1 \<or> level = 5 \<and> len sl = 2 \<and> cap sl = 2 \<or>
          level = 6 \<and> len sl = 3 \<and> cap sl = 4))"

definition stable :: "store \<Rightarrow> store \<Rightarrow> bool" where
  "stable h h' \<longleftrightarrow> (\<exists>ext. h' = h @ ext)"

lemma read_rule_stable:
  "stable h h' \<Longrightarrow> slice_wf h level (rExtra r) \<Longrightarrow> read_rule h' r = read_rule h r"
  by (auto simp: stable_def slice_wf_def read_rule_def read_slice_def nth_append split: option.splits)

lemma slice_wf_stable: "stable h h' \<Longrightarrow> slice_wf h level s \<Longrightarrow> slice_wf h' level s"
  by (auto simp: stable_def slice_wf_def nth_append split: option.splits)

lemma stable_refl [simp]: "stable h h"
  by (simp add: stable_def)

lemma stable_trans: "stable h h' \<Longrightarrow> stable h' h'' \<Longrightarrow> stable h h''"
  by (auto simp: stable_def)

lemma read_rule_simps:
  "read_rule h (r\<lparr>rService := x\<rparr>) = (read_rule h r)\<lparr>Service := x\<rparr>"
  "read_rule h (r\<lparr>rResource := x\<rparr>) = (read_rule h r)\<lparr>Resource := x\<rparr>"
  "read_rule h (r\<lparr>rAction := x\<rparr>) = (read_rule h r)\<lparr>Action := x\<rparr>"
  "read_rule h (r\<lparr>rExtra := Some sl\<rparr>) = (read_rule h r)\<lparr>Extra := Some (read_slice h sl)\<rparr>"
  "read_rule h (r\<lparr>rResult := x\<rparr>) = (read_rule h r)\<lparr>Result := x\<rparr>"
  by (simp_all add: read_rule_def)

lemma Extra_read_rule: "Extra (read_rule h r) = map_option (read_slice h) (rExtra r)"
  by (simp add: read_rule_def)

lemma append1_full:
  assumes "arr sl < length h" "len sl = cap sl" "length (h ! arr sl) = cap sl" "0 < cap sl"
  shows "append1 sl x h = (\<lparr>arr = length h, len = len sl + 1, cap = 2 * cap sl\<rparr>,
           h @ [h ! arr sl @ [x] @ replicate (cap sl - 1) []])"
  using assms by (simp add: append1_def)

lemma set_level_refines:
  assumes wf: "slice_wf h level (rExtra rule)" and "level \<le> 5" and eq: "set_level level key rule h = (rule', h')"
  shows "stable h h' \<and> slice_wf h' (level + 1) (rExtra rule') \<and>
     read_rule h' rule' = set_level_pure level key (read_rule h rule)"
proof (cases "rExtra rule")
  case None
  show ?thesis
  proof (cases "level < 3")
    case True
    then have "h' = h" "rExtra rule' = None" "read_rule h rule' = set_level_pure level key (read_rule h rule)"
      using eq None by (auto simp: set_level_def set_level_pure_def read_rule_simps split: if_splits)
    then show ?thesis using True by (simp add: slice_wf_def)
  next
    case False
    then have l: "level = 3" using wf None by (simp add: slice_wf_def)
    then have h': "h' = h @ [[key]]" and r': "rule' = rule\<lparr>rExtra := Some \<lparr>arr = length h, len = 1, cap = 1\<rparr>\<rparr>"
      using eq None by (auto simp: set_level_def make1_def)
    have st: "stable h h'" by (simp add: h' stable_def)
    then have "read_rule h' rule = read_rule h rule" using wf by (rule read_rule_stable)
    then show ?thesis unfolding r' using l None st
      by (simp add: slice_wf_def set_level_pure_def read_rule_simps Extra_read_rule read_slice_def h')
  qed
next
  case (Some sl)
  then have l: "level = 4 \<and> cap sl = 1 \<or> level = 5 \<and> cap sl = 2" and sl: "arr sl < length h"
    "len sl = cap sl" "length (h ! arr sl) = cap sl" "0 < cap sl"
    using wf assms(2) by (auto simp: slice_wf_def)
  from append1_full [OF sl] eq Some l
  have h': "h' = h @ [h ! arr sl @ [key] @ replicate (cap sl - 1) []]"
    and r': "rule' = rule\<lparr>rExtra := Some \<lparr>arr = length h, len = len sl + 1, cap = 2 * cap sl\<rparr>\<rparr>"
    by (auto simp: set_level_def)
  have st: "stable h h'" by (simp add: h' stable_def)
  then have "read_rule h' rule = read_rule h rule" using wf by (rule read_rule_stable)
  then show ?thesis unfolding r' using l Some sl st
    by (auto simp: slice_wf_def set_level_pure_def read_rule_simps Extra_read_rule read_slice_def h')
qed

definition decode_agrees :: "store \<Rightarrow> string + raw_rule list \<times> store \<Rightarrow> string + SRbacRule list \<Rightarrow> bool" where
  "decode_agrees h x y = (case x of
       Inl e \<Rightarrow> y = Inl e
     | Inr (rs, h') \<Rightarrow> stable h h' \<and> (\<forall>r \<in> set rs. \<exists>lv. slice_wf h' lv (rExtra r)) \<and>
         y = Inr (map (read_rule h') rs))"

lemma decode_refines:
  "dict_depth j + level \<le> 6 \<Longrightarrow> slice_wf h level (rExtra rule) \<Longrightarrow>
     decode_agrees h (decode isAdmin j rule level h) (decode_pure isAdmin j (read_rule h rule) level)"
  "entries_depth es + level \<le> 5 \<Longrightarrow> slice_wf h level (rExtra rule) \<Longrightarrow>
     decode_agrees h (decode_entries isAdmin es rule level h)
       (decode_entries_pure isAdmin es (read_rule h rule) level)"
proof (induction isAdmin j rule level h and isAdmin es rule level h rule: decode_decode_entries.induct)
  case (1 isAdmin ruleStr rule level h)
  then show ?case by (auto simp: decode_agrees_def read_rule_def split: option.split)
next
  case (5 isAdmin key j entries rule level h)
  obtain rule' h1 where sl: "set_level level key rule h = (rule', h1)" by (cases "set_level level key rule h")
  have level: "level \<le> 5" using 5(3) by simp
  note s = set_level_refines [OF 5(4) level sl]
  have d1: "dict_depth j + (level + 1) \<le> 6" and d2: "entries_depth entries + level \<le> 5"
    using 5(3) by auto
  have A: "decode_agrees h1 (decode isAdmin j rule' (level + 1) h1)
      (decode_pure isAdmin j (set_level_pure level key (read_rule h rule)) (level + 1))"
    using 5(1) [OF sl [symmetric] refl d1] s by simp
  show ?case
  proof (cases "decode isAdmin j rule' (level + 1) h1")
    case (Inl e)
    then show ?thesis using A sl by (simp add: decode_agrees_def)
  next
    case (Inr p)
    obtain rs h2 where p: "p = (rs, h2)" by (cases p)
    have h2: "stable h1 h2" "\<forall>r \<in> set rs. \<exists>lv. slice_wf h2 lv (rExtra r)"
      and rs: "decode_pure isAdmin j (set_level_pure level key (read_rule h rule)) (level + 1) = Inr (map (read_rule h2) rs)"
      using A Inr p by (auto simp: decode_agrees_def)
    have st: "stable h h2" using s h2(1) stable_trans by blast
    have B: "decode_agrees h2 (decode_entries isAdmin entries rule level h2)
        (decode_entries_pure isAdmin entries (read_rule h rule) level)"
      using 5(2) [OF sl [symmetric] refl Inr p [symmetric] d2 slice_wf_stable [OF st 5(4)]]
        read_rule_stable [OF st 5(4)] p by simp
    have stay: "map (read_rule h3) rs = map (read_rule h2) rs" if "stable h2 h3" for h3
      using h2(2) read_rule_stable [OF that] by (auto intro!: map_cong)
    note dec = Inr [unfolded p]
    show ?thesis
    proof (cases "decode_entries isAdmin entries rule level h2")
      case (Inl e)
      then show ?thesis using B sl rs dec by (simp add: decode_agrees_def)
    next
      case (Inr q)
      obtain rs' h3 where q: "q = (rs', h3)" by (cases q)
      have h3: "stable h2 h3" "\<forall>r \<in> set rs'. \<exists>lv. slice_wf h3 lv (rExtra r)"
        and rs': "decode_entries_pure isAdmin entries (read_rule h rule) level = Inr (map (read_rule h3) rs')"
        using B Inr q by (simp_all add: decode_agrees_def)
      have "\<forall>r \<in> set (rs @ rs'). \<exists>lv. slice_wf h3 lv (rExtra r)"
        using h2(2) h3 slice_wf_stable by (metis Un_iff set_append)
      then show ?thesis
        using sl dec Inr q rs rs' stay [OF h3(1)] stable_trans [OF st h3(1)] by (simp add: decode_agrees_def)
    qed
  qed
qed (simp_all add: decode_agrees_def)

section \<open>Encoding as a map on key lists\<close>

text \<open>
  What an encoded tree holds for a list of keys: a dictionary reached by the last key stands
  for its wild entry.
\<close>

function json_view :: "(string \<times> json) list \<Rightarrow> string list \<Rightarrow> TRbacResult option" where
  "json_view node [] = None"
| "json_view node [k] = (case map_of node k of
      Some (JSONString r) \<Rightarrow> Some r
    | Some (JSONDict d) \<Rightarrow> json_view d [WILD_MATCH]
    | _ \<Rightarrow> None)"
| "json_view node (k # k2 # ks) = (case map_of node k of
      Some (JSONDict d) \<Rightarrow> json_view d (k2 # ks)
    | _ \<Rightarrow> None)"
  by pat_completeness auto

termination json_view
  by (relation "measures [\<lambda>(node, keys). length keys, \<lambda>(node, _). size_list (size_prod (\<lambda>_. 0) size) node]")
    (auto dest: size_map_of)

definition norm_keys :: "string list \<Rightarrow> bool" where
  "norm_keys ks \<longleftrightarrow> ks \<noteq> [] \<and> (length ks = 1 \<or> last ks \<noteq> WILD_MATCH)"

text \<open>The keys below the first one, as they are looked up in the dictionary found there.\<close>

definition below :: "string list \<Rightarrow> string list" where
  "below ks = (if ks = [] then [WILD_MATCH] else ks)"

lemma norm_below: "norm_keys (k # ks) \<Longrightarrow> norm_keys (below ks)"
  by (auto simp: norm_keys_def below_def)

lemma below_inj: "norm_keys (k # ks) \<Longrightarrow> norm_keys (k # ks') \<Longrightarrow> below ks = below ks' \<longleftrightarrow> ks = ks'"
  by (auto simp: norm_keys_def below_def)

lemma json_view_dict:
  "map_of node k = Some (JSONDict d) \<Longrightarrow> json_view node (k # ks) = json_view d (below ks)"
  by (cases ks) (simp_all add: below_def)

lemma json_view_string:
  "map_of node k = Some (JSONString r) \<Longrightarrow> json_view node (k # ks) = (if ks = [] then Some r else None)"
  by (cases ks) simp_all

lemma json_view_absent: "map_of node k = None \<Longrightarrow> json_view node (k # ks) = None"
  by (cases ks) simp_all

lemma json_view_empty [simp]: "json_view [] ks = None"
  by (cases ks) (simp_all add: json_view_absent)

lemma json_view_other: "map_of node k = map_of node' k \<Longrightarrow> json_view node (k # ks) = json_view node' (k # ks)"
  by (cases ks) simp_all

fun only_rules :: "json \<Rightarrow> bool" and only_rules_entries :: "(string \<times> json) list \<Rightarrow> bool" where
  "only_rules (JSONString _) = True"
| "only_rules (JSONDict es) = only_rules_entries es"
| "only_rules _ = False"
| "only_rules_entries [] = True"
| "only_rules_entries ((k, j) # es) = (only_rules j \<and> k \<notin> fst ` set es \<and> only_rules_entries es)"

lemma only_rules_map_of: "only_rules_entries es \<Longrightarrow> map_of es k = Some j \<Longrightarrow> only_rules j"
  by (induction es) (auto split: if_splits)

lemma only_rules_update: "only_rules_entries es \<Longrightarrow> only_rules j \<Longrightarrow> only_rules_entries (AList.update k j es)"
  by (induction es) (auto simp: dom_update, force)

lemma only_rules_cases:
  assumes "only_rules_entries es"
  obtains (absent) "map_of es k = None" | (str) r where "map_of es k = Some (JSONString r)"
  | (dict) d where "map_of es k = Some (JSONDict d)" "only_rules_entries d"
  using assms only_rules_map_of [of es k] by (cases "map_of es k"; cases "the (map_of es k)") auto

text \<open>Adding a rule when the tree holds nothing for its keys.\<close>

definition adds :: "(string \<times> json) list \<Rightarrow> string list \<Rightarrow> TRbacResult \<Rightarrow> (string \<times> json) list \<Rightarrow> bool" where
  "adds node ks r node' \<longleftrightarrow> only_rules_entries node' \<and>
     (\<forall>ks'. norm_keys ks' \<longrightarrow> json_view node' ks' = (if ks' = ks then Some r else json_view node ks'))"

text \<open>Replacing what is under one key by a dictionary with one more rule adds that rule.\<close>

lemma adds_under:
  assumes node: "only_rules_entries node" and d: "adds d (below ks) r d'" and norm: "norm_keys (k # ks)"
    and same: "\<And>ks'. norm_keys (k # ks') \<Longrightarrow> below ks' \<noteq> below ks \<Longrightarrow> json_view d (below ks') = json_view node (k # ks')"
  shows "adds node (k # ks) r (AList.update k (JSONDict d') node)"
  unfolding adds_def
proof (intro conjI allI impI)
  show "only_rules_entries (AList.update k (JSONDict d') node)"
    using node d by (simp add: only_rules_update adds_def)
next
  fix ks'
  assume ks': "norm_keys ks'"
  then obtain k' kk where kk: "ks' = k' # kk" by (cases ks') (auto simp: norm_keys_def)
  show "json_view (AList.update k (JSONDict d') node) ks' =
      (if ks' = k # ks then Some r else json_view node ks')"
  proof (cases "k' = k")
    case True
    have "json_view (AList.update k (JSONDict d') node) (k # kk) = json_view d' (below kk)"
      by (rule json_view_dict) (simp add: update_conv)
    also have "\<dots> = (if below kk = below ks then Some r else json_view d (below kk))"
      using d norm_below [of k kk] ks' kk True unfolding adds_def by simp
    also have "\<dots> = (if kk = ks then Some r else json_view node (k # kk))"
      using same [of kk] below_inj [of k kk ks] ks' norm unfolding kk True by auto
    finally show ?thesis using kk True by simp
  next
    case False
    then show ?thesis using kk json_view_other [of "AList.update k (JSONDict d') node" k' node kk]
      by (simp add: update_conv)
  qed
qed

lemma adds_leaf:
  assumes "only_rules_entries node" and "map_of node k = None"
  shows "adds node [k] r (AList.update k (JSONString r) node)"
  unfolding adds_def
proof (intro conjI allI impI)
  show "only_rules_entries (AList.update k (JSONString r) node)" using assms by (simp add: only_rules_update)
next
  fix ks'
  assume "norm_keys ks'"
  then obtain k' kk where kk: "ks' = k' # kk" by (cases ks') (auto simp: norm_keys_def)
  show "json_view (AList.update k (JSONString r) node) ks' = (if ks' = [k] then Some r else json_view node ks')"
  proof (cases "k' = k")
    case True
    then show ?thesis using kk assms(2)
      by (simp add: json_view_string [of _ _ r] update_conv json_view_absent)
  next
    case False
    then show ?thesis using kk json_view_other [of "AList.update k (JSONString r) node" k' node kk]
      by (simp add: update_conv)
  qed
qed

lemma addRule2Json_adds:
  "norm_keys ks \<Longrightarrow> only_rules_entries node \<Longrightarrow> json_view node ks = None \<Longrightarrow>
     \<exists>node'. addRule2Json node ks r = (None, node') \<and> adds node ks r node'"
proof (induction node ks r rule: addRule2Json.induct)
  case (1 node r)
  then show ?case by (simp add: norm_keys_def)
next
  case (2 node k r)
  from 2(3) show ?case
  proof (cases rule: only_rules_cases [where k = k])
    case absent
    then show ?thesis using adds_leaf [OF 2(3) absent] by simp
  next
    case (str s)
    then show ?thesis using 2(4) by simp
  next
    case (dict d)
    have "norm_keys [WILD_MATCH]" by (simp add: norm_keys_def)
    from 2(1) [OF dict(1) refl this dict(2)] 2(4) dict obtain d' where
      d': "addRule2Json d [WILD_MATCH] r = (None, d')" "adds d [WILD_MATCH] r d'" by auto
    have "adds node [k] r (AList.update k (JSONDict d') node)"
      by (rule adds_under [OF 2(3) _ 2(2), of d]) (use d' dict in \<open>simp_all add: below_def json_view_dict\<close>)
    then show ?thesis using dict d' by simp
  qed
next
  case (3 node k k2 ks r)
  have norm: "norm_keys (k2 # ks)" using norm_below [OF 3(4)] by (simp add: below_def)
  from 3(5) show ?case
  proof (cases rule: only_rules_cases [where k = k])
    case absent
    from 3(1) [OF absent norm] obtain d' where
      d': "addRule2Json [] (k2 # ks) r = (None, d')" "adds [] (k2 # ks) r d'"
      by (auto simp: json_view_absent)
    have "adds node (k # k2 # ks) r (AList.update k (JSONDict d') node)"
      by (rule adds_under [OF 3(5) _ 3(4), of "[]"])
        (use d' absent in \<open>simp_all add: below_def json_view_absent\<close>)
    then show ?thesis using absent d' by simp
  next
    case (str s)
    have no: "json_view [(WILD_MATCH, JSONString s)] (k' # kk) = None" if "kk = [] \<longrightarrow> k' \<noteq> WILD_MATCH" for k' kk
      using that by (cases kk) auto
    have "json_view [(WILD_MATCH, JSONString s)] (k2 # ks) = None"
      by (rule no) (use 3(4) in \<open>auto simp: norm_keys_def\<close>)
    from 3(2) [OF str refl norm _ this] obtain d' where
      d': "addRule2Json [(WILD_MATCH, JSONString s)] (k2 # ks) r = (None, d')"
        "adds [(WILD_MATCH, JSONString s)] (k2 # ks) r d'" by auto
    have "json_view [(WILD_MATCH, JSONString s)] (below ks') = json_view node (k # ks')" if "norm_keys (k # ks')" for ks'
    proof (cases ks')
      case Nil
      then show ?thesis using str by (simp add: below_def)
    next
      case (Cons k' kk)
      then show ?thesis using no [of kk k'] that str by (auto simp: below_def norm_keys_def split: if_splits)
    qed
    then have "adds node (k # k2 # ks) r (AList.update k (JSONDict d') node)"
      by (intro adds_under [OF 3(5) _ 3(4), of "[(WILD_MATCH, JSONString s)]"]) (use d' in \<open>simp_all add: below_def\<close>)
    then show ?thesis using str d' by simp
  next
    case (dict d)
    from 3(3) [OF dict(1) refl norm dict(2)] 3(6) dict obtain d' where
      d': "addRule2Json d (k2 # ks) r = (None, d')" "adds d (k2 # ks) r d'" by auto
    have "adds node (k # k2 # ks) r (AList.update k (JSONDict d') node)"
      by (rule adds_under [OF 3(5) _ 3(4), of d]) (use d' dict in \<open>simp_all add: below_def json_view_dict\<close>)
    then show ?thesis using dict d' by simp
  qed
qed

lemma norm_toStringArray: "norm_keys (toStringArray rule)"
proof -
  let ?ks = "rev (dropWhile isWildMatch (rev ([Resource rule, Action rule] @ slice_of (Extra rule))))"
  have "\<not> isWildMatch (last ?ks)" if "?ks \<noteq> []"
    using that hd_dropWhile [of isWildMatch "rev ([Resource rule, Action rule] @ slice_of (Extra rule))"]
    by (simp add: last_rev)
  then show ?thesis by (auto simp: toStringArray_def norm_keys_def isWildMatch_def)
qed

text \<open>Encoding rules with distinct keys succeeds and holds exactly them.\<close>

lemma encode_loop_view:
  assumes "distinct (map toStringArray rules)" and "only_rules_entries node"
    and "\<forall>r \<in> set rules. json_view node (toStringArray r) = None"
  shows "\<exists>node'. encode_loop node rules = Inr node' \<and> only_rules_entries node' \<and>
     (\<forall>ks. norm_keys ks \<longrightarrow> json_view node' ks =
        (case map_of (map (\<lambda>r. (toStringArray r, Result r)) rules) ks of
           Some x \<Rightarrow> Some x | None \<Rightarrow> json_view node ks))"
  using assms
proof (induction rules arbitrary: node)
  case (Cons rule rules)
  obtain node1 where n1: "addRule2Json node (toStringArray rule) (Result rule) = (None, node1)"
    and a: "adds node (toStringArray rule) (Result rule) node1"
    using addRule2Json_adds [OF norm_toStringArray Cons.prems(2), of rule] Cons.prems(3) by auto
  have "only_rules_entries node1" using a by (simp add: adds_def)
  moreover have "\<forall>r \<in> set rules. json_view node1 (toStringArray r) = None"
    using a norm_toStringArray Cons.prems(1,3) unfolding adds_def by (auto simp: image_iff)
  ultimately obtain node' where "encode_loop node1 rules = Inr node'" "only_rules_entries node'"
    and v: "\<forall>ks. norm_keys ks \<longrightarrow> json_view node' ks =
        (case map_of (map (\<lambda>r. (toStringArray r, Result r)) rules) ks of
           Some x \<Rightarrow> Some x | None \<Rightarrow> json_view node1 ks)"
    using Cons.IH [of node1] Cons.prems(1) by auto
  moreover have "json_view node' ks =
        (case map_of (map (\<lambda>r. (toStringArray r, Result r)) (rule # rules)) ks of
           Some x \<Rightarrow> Some x | None \<Rightarrow> json_view node ks)" if "norm_keys ks" for ks
  proof (cases "ks = toStringArray rule")
    case True
    then have "map_of (map (\<lambda>r. (toStringArray r, Result r)) rules) ks = None"
      using Cons.prems(1) by (auto simp: map_of_eq_None_iff)
    then show ?thesis using v that a True by (simp add: adds_def)
  next
    case False
    then show ?thesis using v that a by (simp add: adds_def split: option.split)
  qed
  ultimately show ?case using n1 by auto
qed auto

text \<open>The leaves of an encoded tree, as the paths \<^verbatim>\<open>decode\<close> follows to them.\<close>

fun leaves :: "json \<Rightarrow> (string list \<times> TRbacResult) list"
  and leaves_entries :: "(string \<times> json) list \<Rightarrow> (string list \<times> TRbacResult) list" where
  "leaves (JSONString r) = [([], r)]"
| "leaves (JSONDict es) = leaves_entries es"
| "leaves _ = []"
| "leaves_entries [] = []"
| "leaves_entries ((k, j) # es) = map (\<lambda>(p, r). (k # p, r)) (leaves j) @ leaves_entries es"

definition strip_stars :: "string list \<Rightarrow> string list" where
  "strip_stars ks = rev (dropWhile (\<lambda>k. k = WILD_MATCH) (rev ks))"

fun strip_keys :: "string list \<Rightarrow> string list" where
  "strip_keys [] = []"
| "strip_keys (k # ks) = k # strip_stars ks"

lemma strip_stars_Cons:
  "strip_stars (k # ks) = (if strip_stars ks = [] \<and> k = WILD_MATCH then [] else k # strip_stars ks)"
proof (cases "strip_stars ks = []")
  case True
  then have "\<forall>x \<in> set (rev ks). x = WILD_MATCH" unfolding strip_stars_def by (simp add: dropWhile_eq_Nil_conv)
  then show ?thesis using True by (simp add: strip_stars_def dropWhile_append)
next
  case False
  then have "\<not> (\<forall>x \<in> set (rev ks). x = WILD_MATCH)" unfolding strip_stars_def by (simp add: dropWhile_eq_Nil_conv)
  then have "dropWhile (\<lambda>k. k = WILD_MATCH) (rev ks @ [k]) = dropWhile (\<lambda>k. k = WILD_MATCH) (rev ks) @ [k]"
    by (auto simp: dropWhile_append)
  with False show ?thesis by (simp add: strip_stars_def)
qed

lemma strip_below:
  assumes "p \<noteq> []" and "norm_keys (k # ks)"
  shows "strip_keys (k # p) = k # ks \<longleftrightarrow> strip_keys p = below ks"
proof -
  obtain x xs where p: "p = x # xs" using assms(1) by (cases p) auto
  show ?thesis using assms(2) by (cases ks) (auto simp: p strip_stars_Cons below_def norm_keys_def)
qed

lemma leaves_entries_Nil [simp]: "([], r) \<notin> set (leaves_entries es)"
  by (induction es) auto

lemma leaves_entries_Cons:
  "only_rules_entries es \<Longrightarrow>
     (k # q, r) \<in> set (leaves_entries es) \<longleftrightarrow> (\<exists>j. map_of es k = Some j \<and> (q, r) \<in> set (leaves j))"
proof (induction es)
  case (Cons e es)
  obtain k' j where e: "e = (k', j)" by (cases e)
  with Cons.prems have "map_of es k' = None" by (simp add: map_of_eq_None_iff)
  then show ?case using Cons by (auto simp: e)
qed simp

lemma leaves_entries_strip:
  assumes "only_rules_entries es"
  shows "(\<exists>p. (p, r) \<in> set (leaves_entries es) \<and> strip_keys p = k # ks) \<longleftrightarrow>
     (\<exists>q j. map_of es k = Some j \<and> (q, r) \<in> set (leaves j) \<and> strip_keys (k # q) = k # ks)" (is "?L \<longleftrightarrow> ?R")
proof
  assume ?L
  then obtain p where p: "(p, r) \<in> set (leaves_entries es)" "strip_keys p = k # ks" by blast
  then obtain q where "p = k # q" by (cases p) auto
  with p leaves_entries_Cons [OF assms] show ?R by blast
next
  assume ?R
  then show ?L using leaves_entries_Cons [OF assms] by blast
qed

lemma dict_leaves_strip:
  assumes "norm_keys (k # ks)"
  shows "(\<exists>p. (p, r) \<in> set (leaves_entries d) \<and> strip_keys p = below ks) \<longleftrightarrow>
     (\<exists>p. (p, r) \<in> set (leaves_entries d) \<and> strip_keys (k # p) = k # ks)"
  using strip_below [OF _ assms] leaves_entries_Nil by metis

lemma leaves_view:
  "only_rules_entries es \<Longrightarrow> norm_keys ks \<Longrightarrow>
     json_view es ks = Some r \<longleftrightarrow> (\<exists>p. (p, r) \<in> set (leaves_entries es) \<and> strip_keys p = ks)"
proof (induction es ks rule: json_view.induct)
  case (1 node)
  then show ?case by (simp add: norm_keys_def)
next
  case (2 node k)
  note iff = leaves_entries_strip [OF 2(2), of r k "[]"]
  from 2(2) show ?case
  proof (cases rule: only_rules_cases [where k = k])
    case (dict d)
    have "norm_keys [WILD_MATCH]" by (simp add: norm_keys_def)
    from 2(1) [OF dict(1) refl dict(2) this] have "json_view node [k] = Some r \<longleftrightarrow>
        (\<exists>p. (p, r) \<in> set (leaves_entries d) \<and> strip_keys p = [WILD_MATCH])" using dict by simp
    also have "\<dots> \<longleftrightarrow> (\<exists>p. (p, r) \<in> set (leaves_entries d) \<and> strip_keys (k # p) = [k])"
      using dict_leaves_strip [OF 2(3)] by (simp add: below_def)
    finally show ?thesis unfolding iff using dict(1) by auto
  qed (unfold iff, auto simp: strip_stars_def)
next
  case (3 node k k2 ks)
  note iff = leaves_entries_strip [OF 3(2), of r k "k2 # ks"]
  from 3(2) show ?case
  proof (cases rule: only_rules_cases [where k = k])
    case (dict d)
    have "norm_keys (k2 # ks)" using norm_below [OF 3(3)] by (simp add: below_def)
    from 3(1) [OF dict(1) refl dict(2) this] have "json_view node (k # k2 # ks) = Some r \<longleftrightarrow>
        (\<exists>p. (p, r) \<in> set (leaves_entries d) \<and> strip_keys p = k2 # ks)" using dict by simp
    also have "\<dots> \<longleftrightarrow> (\<exists>p. (p, r) \<in> set (leaves_entries d) \<and> strip_keys (k # p) = k # k2 # ks)"
      using dict_leaves_strip [OF 3(3)] by (simp add: below_def)
    finally show ?thesis unfolding iff using dict(1) by auto
  qed (unfold iff, auto simp: strip_stars_def)
qed

text \<open>Decoding follows the leaves.\<close>

fun extend :: "nat \<Rightarrow> string list \<Rightarrow> SRbacRule \<Rightarrow> SRbacRule" where
  "extend level [] rule = rule"
| "extend level (k # ks) rule = extend (level + 1) ks (set_level_pure level k rule)"

lemma decode_pure_leaves:
  "only_rules j \<Longrightarrow> \<forall>(p, r) \<in> set (leaves j). result_of isAdmin r = Some r \<Longrightarrow>
     decode_pure isAdmin j rule level = Inr (map (\<lambda>(p, r). (extend level p rule)\<lparr>Result := r\<rparr>) (leaves j))"
  "only_rules_entries es \<Longrightarrow> \<forall>(p, r) \<in> set (leaves_entries es). result_of isAdmin r = Some r \<Longrightarrow>
     decode_entries_pure isAdmin es rule level =
       Inr (map (\<lambda>(p, r). (extend level p rule)\<lparr>Result := r\<rparr>) (leaves_entries es))"
proof (induction isAdmin j rule level and isAdmin es rule level rule: decode_pure_decode_entries_pure.induct)
  case (5 isAdmin key j entries rule level)
  have "decode_pure isAdmin j (set_level_pure level key rule) (level + 1) =
      Inr (map (\<lambda>(p, r). (extend (level + 1) p (set_level_pure level key rule))\<lparr>Result := r\<rparr>) (leaves j))"
    by (rule 5(1)) (use 5(3,4) in auto)
  moreover have "decode_entries_pure isAdmin entries rule level =
      Inr (map (\<lambda>(p, r). (extend level p rule)\<lparr>Result := r\<rparr>) (leaves_entries entries))"
    by (rule 5(2) [OF calculation]) (use 5(3,4) in auto)
  ultimately show ?case by (simp add: case_prod_beta comp_def)
qed auto

definition blankRule :: SRbacRule where
  "blankRule = \<lparr>Service = [], Resource = [], Action = [], Extra = None, Result = []\<rparr>"

lemma extend_Extra:
  "3 \<le> level \<Longrightarrow> ks \<noteq> [] \<Longrightarrow> extend level ks rule = rule\<lparr>Extra := Some (slice_of (Extra rule) @ ks)\<rparr>"
proof (induction ks arbitrary: level rule)
  case (Cons k ks)
  have "set_level_pure level k rule = rule\<lparr>Extra := Some (slice_of (Extra rule) @ [k])\<rparr>"
    using Cons.prems(1) by (simp add: set_level_pure_def)
  then show ?case using Cons.IH [of "level + 1"] Cons.prems(1) by (cases ks) auto
qed simp

lemma toStringArray_extend:
  "toStringArray (extend 0 (k # q) blankRule\<lparr>Result := r\<rparr>) = k # rev (dropWhile isWildMatch (rev q))"
proof -
  have wild: "isWildMatch []" by (simp add: isWildMatch_def)
  consider "q = []" | a where "q = [a]" | a b where "q = [a, b]" | a b c xs where "q = a # b # c # xs"
    by (metis list.exhaust)
  then show ?thesis
  proof cases
    case (4 a b c xs)
    then show ?thesis
      using extend_Extra [of 3 "c # xs" "blankRule\<lparr>Service := k, Resource := a, Action := b\<rparr>"]
      by (simp add: toStringArray_def set_level_pure_def blankRule_def numeral_3_eq_3)
  qed (simp_all add: toStringArray_def set_level_pure_def blankRule_def wild)
qed

lemma strip_stars_trim:
  assumes "strip_stars q = kk" and "kk \<noteq> [] \<longrightarrow> \<not> isWildMatch (last kk)"
  shows "rev (dropWhile isWildMatch (rev q)) = kk"
proof -
  have "rev q = takeWhile (\<lambda>k. k = WILD_MATCH) (rev q) @ rev kk"
    using assms(1) by (auto simp: strip_stars_def)
  moreover have "\<forall>x \<in> set (takeWhile (\<lambda>k. k = WILD_MATCH) (rev q)). isWildMatch x"
    by (auto dest: set_takeWhileD simp: isWildMatch_def)
  ultimately have "dropWhile isWildMatch (rev q) = dropWhile isWildMatch (rev kk)"
    by (metis dropWhile_append2)
  moreover have "dropWhile isWildMatch (rev kk) = rev kk"
    using assms(2) by (cases kk rule: rev_cases) auto
  ultimately show ?thesis by simp
qed

lemma toStringArray_last: "tl (toStringArray r) \<noteq> [] \<Longrightarrow> \<not> isWildMatch (last (tl (toStringArray r)))"
  using hd_dropWhile [of isWildMatch "rev ([Resource r, Action r] @ slice_of (Extra r))"]
  by (simp add: toStringArray_def last_rev)

lemma leaf_toStringArray:
  assumes "strip_keys p = toStringArray rule"
  shows "toStringArray (extend 0 p blankRule\<lparr>Result := r\<rparr>) = toStringArray rule"
proof -
  obtain k q where p: "p = k # q" using assms by (cases p) (auto simp: toStringArray_def)
  have "strip_stars q = tl (toStringArray rule)" using assms p by (metis list.sel(3) strip_keys.simps(2))
  from strip_stars_trim [OF this] toStringArray_last have
    "rev (dropWhile isWildMatch (rev q)) = tl (toStringArray rule)" by blast
  then show ?thesis using assms p unfolding toStringArray_extend p by (metis list.exhaust_sel list.sel(1) strip_keys.simps(2) list.discI)
qed

lemma entries_depth_le: "entries_depth es \<le> n \<longleftrightarrow> (\<forall>(k, j) \<in> set es. dict_depth j \<le> n)"
  by (induction es) auto

lemma set_update_subset: "set (AList.update k v es) \<subseteq> insert (k, v) (set es)"
  by (induction es) auto

lemma entries_depth_update:
  "entries_depth es \<le> n \<Longrightarrow> dict_depth j \<le> n \<Longrightarrow> entries_depth (AList.update k j es) \<le> n"
  using set_update_subset [of k j es] unfolding entries_depth_le by auto

lemma dict_depth_map_of: "entries_depth es \<le> n \<Longrightarrow> map_of es k = Some j \<Longrightarrow> dict_depth j \<le> n"
  unfolding entries_depth_le by (auto dest: map_of_SomeD)

lemma addRule2Json_depth:
  "entries_depth node \<le> n \<Longrightarrow> length ks \<le> Suc n \<Longrightarrow> entries_depth (snd (addRule2Json node ks r)) \<le> n"
proof (induction node ks r arbitrary: n rule: addRule2Json.induct)
  case (2 node k r)
  show ?case
  proof (cases "map_of node k")
    case (Some j)
    show ?thesis
    proof (cases j)
      case (JSONDict d)
      then have "Suc (entries_depth d) \<le> n" using dict_depth_map_of [OF 2(2) Some] by simp
      moreover from this obtain m where "n = Suc m" by (cases n) auto
      ultimately have "entries_depth (snd (addRule2Json d [WILD_MATCH] r)) \<le> m"
        by (intro 2(1) [OF Some JSONDict]) auto
      then show ?thesis using Some JSONDict 2(2) \<open>n = Suc m\<close> by (simp add: entries_depth_update)
    qed (use Some 2(2) in simp_all)
  qed (use 2(2) in \<open>simp add: entries_depth_update\<close>)
next
  case (3 node k k2 ks r)
  then obtain m where m: "n = Suc m" by (cases n) auto
  have up: "entries_depth (AList.update k (JSONDict d) node) \<le> n" if "entries_depth d \<le> m" for d
    using that 3(4) m by (intro entries_depth_update) auto
  show ?case
  proof (cases "map_of node k")
    case None
    from 3(1) [OF this, of m] 3(5) m None up show ?thesis by (simp add: case_prod_beta)
  next
    case (Some j)
    show ?thesis
    proof (cases j)
      case (JSONString s)
      from 3(2) [OF Some this, of m] 3(5) m Some JSONString up show ?thesis by (simp add: case_prod_beta)
    next
      case (JSONDict d)
      then have "entries_depth d \<le> m" using dict_depth_map_of [OF 3(4) Some] m by simp
      from 3(3) [OF Some JSONDict this] 3(5) m Some JSONDict up show ?thesis by (simp add: case_prod_beta)
    qed (use Some 3(4) in simp_all)
  qed
qed simp

lemma encode_loop_depth:
  "encode_loop node rules = Inr node' \<Longrightarrow> entries_depth node \<le> n \<Longrightarrow>
     \<forall>r \<in> set rules. length (toStringArray r) \<le> Suc n \<Longrightarrow> entries_depth node' \<le> n"
proof (induction node rules rule: encode_loop.induct)
  case (2 node rule rules)
  then obtain node1 where "addRule2Json node (toStringArray rule) (Result rule) = (None, node1)"
    "encode_loop node1 rules = Inr node'" by (auto split: prod.splits option.splits)
  moreover from this have "entries_depth node1 \<le> n"
    using addRule2Json_depth [OF 2(3), of "toStringArray rule" "Result rule"] 2(4) by simp
  ultimately show ?case using 2(1) 2(4) by simp
qed simp

section \<open>Properties\<close>

text \<open>
  C23. The rule that decides a request: \<^verbatim>\<open>GetMatchRule\<close> never panics, returns no rule
  exactly when none matches, and otherwise returns a rule of the policy that matches and
  that no matching rule outranks by more matched keys, then a smaller weight, then a laxer
  result.
\<close>

theorem GetMatchRule_picks_best:
  "\<exists>res. GetMatchRule p service resource action extra = Some res \<and>
     best_of (\<lambda>rule. rule_match rule service resource action extra) (set (Rules p)) res"
  by (rule GetMatchRule_best)

definition valid_results :: "TRbacResult set" where
  "valid_results = {DenyR, AdminAllow, OwnerAllow, UserAllow, GuestAllow}"

lemma Strictness_inj: "r \<in> valid_results \<Longrightarrow> r' \<in> valid_results \<Longrightarrow> Strictness r = Strictness r' \<Longrightarrow> r = r'"
  by (auto simp: valid_results_def Strictness_def result_defs)

text \<open>
  C35. The decision does not depend on the order of the rules, which decoding takes from the
  iteration over a map: policies with the same set of rules, each with one of the five
  results, give every request the same result.
\<close>

theorem decision_order_independent:
  assumes "set (Rules p) = set (Rules q)" and "\<forall>r \<in> set (Rules p). Result r \<in> valid_results"
  shows "map_option (map_option Result) (GetMatchRule p s r a e) = map_option (map_option Result) (GetMatchRule q s r a e)"
proof -
  obtain x y where x: "GetMatchRule p s r a e = Some x" "best_of (\<lambda>z. rule_match z s r a e) (set (Rules p)) x"
    and y: "GetMatchRule q s r a e = Some y" "best_of (\<lambda>z. rule_match z s r a e) (set (Rules p)) y"
    using GetMatchRule_best [of p s r a e] GetMatchRule_best [of q s r a e] assms(1) by auto
  have "map_option Result x = map_option Result y"
  proof (cases x; cases y)
    fix b b'
    assume xy: "x = Some b" "y = Some b'"
    then have in_p: "b \<in> set (Rules p)" "b' \<in> set (Rules p)" using x(2) y(2) by (auto simp: best_of_def)
    from xy x(2) obtain cw where b: "rule_match b s r a e = Some cw"
      "\<forall>z \<in> set (Rules p). \<forall>cw'. rule_match z s r a e = Some cw' \<longrightarrow> rank_le (rank z cw') (rank b cw)"
      by (auto simp: best_of_def)
    from xy y(2) obtain cw' where b': "rule_match b' s r a e = Some cw'"
      "\<forall>z \<in> set (Rules p). \<forall>cw. rule_match z s r a e = Some cw \<longrightarrow> rank_le (rank z cw) (rank b' cw')"
      by (auto simp: best_of_def)
    have "rank b cw = rank b' cw'" using b b' in_p by (blast intro: rank_le_antisym)
    then show ?thesis using xy in_p assms(2) Strictness_inj by (simp add: rank_def)
  qed (use x(2) y(2) in \<open>auto simp: best_of_def\<close>)
  with x(1) y(1) show ?thesis by simp
qed

definition mk_rule :: "string \<Rightarrow> string \<Rightarrow> string \<Rightarrow> TRbacResult \<Rightarrow> SRbacRule" where
  "mk_rule s r a res = \<lparr>Service = s, Resource = r, Action = a, Extra = None, Result = res\<rparr>"

definition demo_policy :: "SRbacRule list \<Rightarrow> SRbacPolicy" where
  "demo_policy rs = \<lparr>IsAdmin = False, Rules = rs, Projects = [], Roles = []\<rparr>"

lemma decision_order_independent_witness:
  "map_option (map_option Result) (GetMatchRule (demo_policy
      [mk_rule ''compute'' ''*'' ''*'' OwnerAllow, mk_rule ''compute'' ''server'' ''*'' DenyR]) ''compute'' ''server'' ''list'' []) =
   map_option (map_option Result) (GetMatchRule (demo_policy
      [mk_rule ''compute'' ''server'' ''*'' DenyR, mk_rule ''compute'' ''*'' ''*'' OwnerAllow]) ''compute'' ''server'' ''list'' [])"
  by (rule decision_order_independent) (auto simp: demo_policy_def mk_rule_def valid_results_def)

text \<open>
  C36. What compaction keeps: when \<^verbatim>\<open>CompactRules\<close> returns, the rules it returns are among
  the given ones, and a request is matched by a returned rule with some result exactly when
  it was matched by a given rule with that result.
\<close>

theorem CompactRules_keeps_matches:
  assumes "CompactRules rules = Some out"
  shows "set out \<subseteq> set rules \<and>
     ((\<exists>x \<in> set out. rule_match x s r a e \<noteq> None \<and> Result x = res) \<longleftrightarrow>
      (\<exists>x \<in> set rules. rule_match x s r a e \<noteq> None \<and> Result x = res))"
proof -
  note c = CompactRules_covers [OF assms]
  have "\<exists>y \<in> set out. rule_match y s r a e \<noteq> None \<and> Result y = Result x"
    if "x \<in> set rules" "rule_match x s r a e \<noteq> None" for x
    using c that rule_contains_match rule_contains_True by meson
  with c show ?thesis by blast
qed

lemma CompactRules_keeps_matches_witness:
  "set [mk_rule ''compute'' ''*'' ''*'' OwnerAllow] \<subseteq>
     set [mk_rule ''compute'' ''server'' ''*'' OwnerAllow, mk_rule ''compute'' ''*'' ''*'' OwnerAllow] \<and>
   ((\<exists>x \<in> set [mk_rule ''compute'' ''*'' ''*'' OwnerAllow].
       rule_match x ''compute'' ''server'' ''list'' [] \<noteq> None \<and> Result x = OwnerAllow) \<longleftrightarrow>
    (\<exists>x \<in> set [mk_rule ''compute'' ''server'' ''*'' OwnerAllow, mk_rule ''compute'' ''*'' ''*'' OwnerAllow].
       rule_match x ''compute'' ''server'' ''list'' [] \<noteq> None \<and> Result x = OwnerAllow))"
proof (rule CompactRules_keeps_matches)
  show "CompactRules [mk_rule ''compute'' ''server'' ''*'' OwnerAllow, mk_rule ''compute'' ''*'' ''*'' OwnerAllow] =
      Some [mk_rule ''compute'' ''*'' ''*'' OwnerAllow]" by code_simp
qed

lemmas decision_simps = getMatchRule_def GetMatchRule_def rule_match_def isWildMatch_def WILD_MATCH_def
  demo_policy_def mk_rule_def result_defs

text \<open>
  Compaction changes decisions: the policy that denies everything, denies getting users
  of the identity service, and allows the identity service to its owners loses its specific
  denial, so that the request it denies as decoded is allowed as compacted.
\<close>

theorem CompactRules_flips_denial:
  "\<exists>rules p. decode_rules False (JSONDict [(''*'', JSONString ''deny''),
       (''identity'', JSONDict [(''users'', JSONDict [(''get'', JSONString ''deny'')]), (''*'', JSONString ''allow'')])]) = Inr rules \<and>
     Decode \<lparr>j_condition = [], j_is_admin = False, j_projects = None, j_roles = None,
       j_policy = Some (JSONDict [(''*'', JSONString ''deny''),
         (''identity'', JSONDict [(''users'', JSONDict [(''get'', JSONString ''deny'')]), (''*'', JSONString ''allow'')])])\<rparr> = Some (Inr p) \<and>
     Explain (p\<lparr>Rules := rules\<rparr>) [[''identity'', ''users'', ''get'']] = Some [[''identity'', ''users'', ''get'', ''deny'']] \<and>
     Explain p [[''identity'', ''users'', ''get'']] = Some [[''identity'', ''users'', ''get'', ''owner'']]"
proof (intro exI conjI)
  let ?rules = "[mk_rule ''*'' [] [] DenyR, mk_rule ''identity'' ''users'' ''get'' DenyR, mk_rule ''identity'' ''*'' [] OwnerAllow]"
  let ?p = "demo_policy [mk_rule ''*'' [] [] DenyR, mk_rule ''identity'' ''*'' [] OwnerAllow]"
  show "decode_rules False (JSONDict [(''*'', JSONString ''deny''),
       (''identity'', JSONDict [(''users'', JSONDict [(''get'', JSONString ''deny'')]), (''*'', JSONString ''allow'')])]) = Inr ?rules"
    by code_simp
  show "Decode \<lparr>j_condition = [], j_is_admin = False, j_projects = None, j_roles = None,
       j_policy = Some (JSONDict [(''*'', JSONString ''deny''),
         (''identity'', JSONDict [(''users'', JSONDict [(''get'', JSONString ''deny'')]), (''*'', JSONString ''allow'')])])\<rparr> = Some (Inr ?p)"
    by code_simp
  show "Explain (?p\<lparr>Rules := ?rules\<rparr>) [[''identity'', ''users'', ''get'']] = Some [[''identity'', ''users'', ''get'', ''deny'']]"
    by (simp add: decision_simps)
  show "Explain ?p [[''identity'', ''users'', ''get'']] = Some [[''identity'', ''users'', ''get'', ''owner'']]"
    by (simp add: decision_simps)
qed

text \<open>
  The bound check of \<^verbatim>\<open>contains\<close> is off by one: compacting a rule with the extra keys
  \<^verbatim>\<open>*\<close>, \<^verbatim>\<open>b\<close> and a rule with the one extra key \<^verbatim>\<open>a\<close> reads past the end of the
  second and panics, so decoding such a policy panics.
\<close>

theorem Decode_panics:
  "Decode \<lparr>j_condition = [], j_is_admin = False, j_projects = None, j_roles = None,
     j_policy = Some (JSONDict [(''compute'', JSONDict [(''server'', JSONDict [(''get'',
       JSONDict [(''*'', JSONDict [(''b'', JSONString ''allow'')]), (''a'', JSONString ''allow'')])])])])\<rparr> = None"
  by code_simp

lemma read_emptyRule: "read_rule [] emptyRule = blankRule"
  by (simp add: read_rule_def emptyRule_def blankRule_def)

lemma decode_rules_pure:
  assumes "dict_depth j \<le> 6"
  shows "decode_rules isAdmin j = decode_pure isAdmin j blankRule 0"
proof -
  have "slice_wf [] 0 (rExtra emptyRule)" by (simp add: slice_wf_def emptyRule_def)
  from decode_refines(1) [of j 0 "[]" emptyRule isAdmin, OF _ this] assms show ?thesis
    by (auto simp: decode_agrees_def decode_rules_def read_emptyRule split: sum.splits prod.splits)
qed

text \<open>
  C37. Decoding rule trees with at most three extra levels: the decoder, whose rules share the
  arrays of their extra keys, gives the rules of the decoder in which every rule has its own
  list of keys, and the same error where there is one.
\<close>

theorem decode_shares_safely:
  assumes "dict_depth j \<le> 6"
  shows "decode_rules isAdmin j = decode_pure isAdmin j blankRule 0"
  using assms by (rule decode_rules_pure)

definition nested :: "string list \<Rightarrow> (string \<times> json) list \<Rightarrow> json" where
  "nested ks es = foldr (\<lambda>k j. JSONDict [(k, j)]) ks (JSONDict es)"

lemma decode_shares_safely_witness:
  "decode_rules False (nested [''s'', ''r'', ''a'', ''x'', ''y''] [(''v'', JSONString ''allow''), (''w'', JSONString ''deny'')]) =
     decode_pure False (nested [''s'', ''r'', ''a'', ''x'', ''y''] [(''v'', JSONString ''allow''), (''w'', JSONString ''deny'')]) blankRule 0"
  by (rule decode_shares_safely) (simp add: nested_def)

text \<open>
  With a fourth extra level two sibling keys are appended into the same array: the rules
  decoded for \<^verbatim>\<open>v\<close> and \<^verbatim>\<open>w\<close> both carry the key that was decoded last, so the allowance
  written for \<^verbatim>\<open>v\<close> is granted to \<^verbatim>\<open>w\<close>.
\<close>

theorem decode_shared_key:
  "decode_rules False (nested [''s'', ''r'', ''a'', ''x'', ''y'', ''z''] [(''v'', JSONString ''allow''), (''w'', JSONString ''deny'')]) =
     Inr [\<lparr>Service = ''s'', Resource = ''r'', Action = ''a'', Extra = Some [''x'', ''y'', ''z'', ''w''], Result = OwnerAllow\<rparr>,
          \<lparr>Service = ''s'', Resource = ''r'', Action = ''a'', Extra = Some [''x'', ''y'', ''z'', ''w''], Result = DenyR\<rparr>]"
  by code_simp

lemma norm_strip_keys: "q \<noteq> [] \<Longrightarrow> norm_keys (strip_keys q)"
proof (cases q)
  case (Cons k ks)
  have "last (strip_stars ks) \<noteq> WILD_MATCH" if "strip_stars ks \<noteq> []"
    using that hd_dropWhile [of "\<lambda>k. k = WILD_MATCH" "rev ks"] by (simp add: strip_stars_def last_rev)
  then show ?thesis using Cons by (auto simp: norm_keys_def)
qed simp

text \<open>
  C30. Encoding and decoding: a policy whose rules have distinct keys, at most three extra
  keys and one of the five results is encoded without an error, and decoding the encoded
  rules gives rules with the same keys and results.
\<close>

theorem Encode_decode_roundtrip:
  assumes "distinct (map toStringArray (Rules p))" and "\<forall>r \<in> set (Rules p). length (slice_of (Extra r)) \<le> 3"
    and "\<forall>r \<in> set (Rules p). Result r \<in> valid_results"
  shows "\<exists>es node rules'. Encode p = Inr (JSONDict es) \<and> map_of es ''policy'' = Some (JSONDict node) \<and>
     decode_rules isAdmin (JSONDict node) = Inr rules' \<and>
     (\<lambda>r. (toStringArray r, Result r)) ` set rules' = (\<lambda>r. (toStringArray r, Result r)) ` set (Rules p)"
proof -
  let ?key = "\<lambda>r. (toStringArray r, Result r)"
  from encode_loop_view [OF assms(1), of "[]"] obtain node where
    node: "encode_loop [] (Rules p) = Inr node" "only_rules_entries node"
    and view: "\<forall>ks. norm_keys ks \<longrightarrow> json_view node ks =
        (case map_of (map ?key (Rules p)) ks of Some x \<Rightarrow> Some x | None \<Rightarrow> json_view [] ks)"
    by auto
  have v: "json_view node ks = map_of (map ?key (Rules p)) ks" if "norm_keys ks" for ks
    using view that by (cases "map_of (map ?key (Rules p)) ks") auto
  have "length (toStringArray r) \<le> Suc 5" if "r \<in> set (Rules p)" for r
    using that assms(2) length_dropWhile_le [of isWildMatch "rev ([Resource r, Action r] @ slice_of (Extra r))"]
    by (fastforce simp: toStringArray_def)
  then have depth: "dict_depth (JSONDict node) \<le> 6" using encode_loop_depth [OF node(1), of 5] by simp
  have leaf: "(\<exists>q. (q, x) \<in> set (leaves_entries node) \<and> strip_keys q = ks) \<longleftrightarrow> (ks, x) \<in> ?key ` set (Rules p)" for ks x
  proof
    assume "\<exists>q. (q, x) \<in> set (leaves_entries node) \<and> strip_keys q = ks"
    then have norm: "norm_keys ks" and ex: "\<exists>q. (q, x) \<in> set (leaves_entries node) \<and> strip_keys q = ks"
      using norm_strip_keys leaves_entries_Nil by metis+
    then have "json_view node ks = Some x" using leaves_view [OF node(2) norm] by simp
    then have "map_of (map ?key (Rules p)) ks = Some x" using v norm by simp
    from map_of_SomeD [OF this] show "(ks, x) \<in> ?key ` set (Rules p)" by simp
  next
    assume "(ks, x) \<in> ?key ` set (Rules p)"
    then have "map_of (map ?key (Rules p)) ks = Some x" and norm: "norm_keys ks"
      using assms(1) norm_toStringArray by (auto simp: map_of_eq_Some_iff comp_def)
    then have "json_view node ks = Some x" using v by simp
    then show "\<exists>q. (q, x) \<in> set (leaves_entries node) \<and> strip_keys q = ks"
      unfolding leaves_view [OF node(2) norm] .
  qed
  have valid: "\<forall>(q, x) \<in> set (leaves_entries node). result_of isAdmin x = Some x"
    using leaf assms(3) by (fastforce simp: result_of_def valid_results_def result_defs)
  let ?rules = "map (\<lambda>(q, x). (extend 0 q blankRule)\<lparr>Result := x\<rparr>) (leaves_entries node)"
  have dec: "decode_rules isAdmin (JSONDict node) = Inr ?rules"
    using decode_rules_pure [OF depth] decode_pure_leaves(2) [OF node(2) valid] by simp
  have "?key ((extend 0 q blankRule)\<lparr>Result := x\<rparr>) = (strip_keys q, x)"
    if q: "(q, x) \<in> set (leaves_entries node)" for q x
  proof -
    have "(strip_keys q, x) \<in> ?key ` set (Rules p)" using leaf [of x "strip_keys q"] q by blast
    then obtain rule where "strip_keys q = toStringArray rule" by auto
    from leaf_toStringArray [OF this] this show ?thesis by simp
  qed
  then have "?key ` set ?rules = {(strip_keys q, x) | q x. (q, x) \<in> set (leaves_entries node)}"
    by (force simp: image_image case_prod_beta)
  also have "\<dots> = ?key ` set (Rules p)"
  proof (rule set_eqI, goal_cases)
    case (1 y)
    obtain ks x where y: "y = (ks, x)" by (cases y)
    have "y \<in> {(strip_keys q, x) | q x. (q, x) \<in> set (leaves_entries node)} \<longleftrightarrow>
        (\<exists>q. (q, x) \<in> set (leaves_entries node) \<and> strip_keys q = ks)" unfolding y by blast
    then show ?case unfolding leaf y .
  qed
  finally have "?key ` set ?rules = ?key ` set (Rules p)" .
  with dec node(1) show ?thesis by (auto simp: Encode_def)
qed

definition roundtrip_policy :: SRbacPolicy where
  "roundtrip_policy = demo_policy [mk_rule ''compute'' ''server'' ''*'' DenyR, mk_rule ''compute'' ''*'' ''*'' OwnerAllow]"

lemma Encode_decode_roundtrip_witness:
  "\<exists>es node rules'. Encode roundtrip_policy = Inr (JSONDict es) \<and> map_of es ''policy'' = Some (JSONDict node) \<and>
     decode_rules False (JSONDict node) = Inr rules' \<and>
     (\<lambda>r. (toStringArray r, Result r)) ` set rules' = (\<lambda>r. (toStringArray r, Result r)) ` set (Rules roundtrip_policy)"
  by (rule Encode_decode_roundtrip)
    (simp_all add: roundtrip_policy_def demo_policy_def mk_rule_def toStringArray_def isWildMatch_def WILD_MATCH_def
      valid_results_def)

end
