(* ===== verification/Hash_Cache.thy ===== *)
theory Hash_Cache
  imports Go_Prelude
begin

unbundle bit_operations_syntax

text \<open>
  The fixed-size cache with expiry of \<^verbatim>\<open>pkg/util/hashcache/cache.go\<close>. A key has three
  candidate slots, given by three digests; the digests are the argument \<open>digest\<close>, which
  gives the bytes of the digest of a key for each of the algorithms 0, 1 and 2. Times are
  nanoseconds, the zero time being 0; the current time is the argument \<open>now\<close>.

  The interface \<open>lossy_cache\<close> states what a client may rely on: a cache may forget, but what
  it returns for a key is what was stored last for that key.
\<close>

section \<open>The cache\<close>

record 'v cacheNode =
  nkey :: string
  expire :: int
  nvalue :: "'v option"

definition initTime :: int where "initTime = 0"

definition reset :: "'v cacheNode \<Rightarrow> 'v cacheNode" where
  "reset node = (if expire node \<noteq> 0 then \<lparr>nkey = [], expire = initTime, nvalue = None\<rparr> else node)"

record 'v Cache =
  table :: "'v cacheNode list"
  csize :: nat
  defaultTtl :: int

definition NewCache :: "nat \<Rightarrow> int \<Rightarrow> 'v Cache" where
  "NewCache sz ttl = \<lparr>table = replicate sz \<lparr>nkey = [], expire = 0, nvalue = None\<rparr>, csize = sz, defaultTtl = ttl\<rparr>"

definition bytes2int :: "byte list \<Rightarrow> 32 word" where
  "bytes2int b = push_bit 24 (ucast (b ! 0)) OR push_bit 16 (ucast (b ! 1)) OR
     push_bit 8 (ucast (b ! 2)) OR ucast (b ! 3)"

definition checksum :: "(nat \<Rightarrow> string \<Rightarrow> byte list) \<Rightarrow> nat \<Rightarrow> string \<Rightarrow> 32 word" where
  "checksum digest alg key = (if alg \<le> 2 then bytes2int (take 4 (digest alg key)) else 0)"

text \<open>The loop of \<^verbatim>\<open>find\<close> over the algorithms.\<close>

fun find_loop :: "(nat \<Rightarrow> string \<Rightarrow> byte list) \<Rightarrow> int \<Rightarrow> 'v Cache \<Rightarrow> string \<Rightarrow> nat list \<Rightarrow> nat \<Rightarrow> bool \<times> nat" where
  "find_loop digest now c key [] idx = (False, idx)"
| "find_loop digest now c key (alg # algs) idx =
     (let idx = unat (checksum digest alg key) mod csize c; node = table c ! idx in
      if nkey node = key
      then if expire node = 0 \<or> expire node > now then (True, idx) else (False, idx)
      else find_loop digest now c key algs idx)"

definition find_slot :: "(nat \<Rightarrow> string \<Rightarrow> byte list) \<Rightarrow> int \<Rightarrow> 'v Cache \<Rightarrow> string \<Rightarrow> bool \<times> nat" where
  "find_slot digest now c key = find_loop digest now c key [0, 1, 2] 0"

text \<open>A size of zero makes the remainder panic.\<close>

definition Get :: "(nat \<Rightarrow> string \<Rightarrow> byte list) \<Rightarrow> int \<Rightarrow> 'v Cache \<Rightarrow> string \<Rightarrow> 'v option option" where
  "Get digest now c key =
     (if csize c = 0 then None
      else let (found, idx) = find_slot digest now c key
           in Some (if found then nvalue (table c ! idx) else None))"

text \<open>The optional argument \<^verbatim>\<open>expire\<close> is a list of times, of which the first counts.\<close>

definition expiry :: "int \<Rightarrow> int \<Rightarrow> int list \<Rightarrow> int" where
  "expiry now ttl ex =
     (if length ex > 0 \<and> ex ! 0 \<noteq> 0 then ex ! 0
      else if ttl > 1000000 then now + ttl else 0)"

definition Set :: "(nat \<Rightarrow> string \<Rightarrow> byte list) \<Rightarrow> int \<Rightarrow> 'v Cache \<Rightarrow> string \<Rightarrow> 'v \<Rightarrow> int list \<Rightarrow> 'v Cache option" where
  "Set digest now c key val ex =
     (if csize c = 0 then None
      else let (found, idx) = find_slot digest now c key
           in Some (c\<lparr>table := (table c)[idx := \<lparr>nkey = (if found then nkey (table c ! idx) else key),
                 expire = expiry now (defaultTtl c) ex, nvalue = Some val\<rparr>]\<rparr>))"

definition Invalidate :: "'v Cache \<Rightarrow> 'v Cache" where
  "Invalidate c = c\<lparr>table := map reset (table c)\<rparr>"

section \<open>The contract\<close>

text \<open>
  \<open>holds c m\<close>: whatever the cache \<open>c\<close> returns is in the history \<open>m\<close>, which gives for every
  key what was stored last, with its expiry. \<open>cache_agrees\<close>: everything in some such history
  has the property \<open>P\<close>.
\<close>

definition cache_agrees :: "('c \<Rightarrow> (string \<rightharpoonup> 'v \<times> int) \<Rightarrow> bool) \<Rightarrow> (string \<Rightarrow> 'v \<Rightarrow> bool) \<Rightarrow> 'c \<Rightarrow> bool" where
  "cache_agrees holds P c \<longleftrightarrow> (\<exists>m. holds c m \<and> (\<forall>k v e. m k = Some (v, e) \<longrightarrow> P k v))"

locale lossy_cache =
  fixes holds :: "'c \<Rightarrow> (string \<rightharpoonup> 'v \<times> int) \<Rightarrow> bool"
    and get :: "int \<Rightarrow> 'c \<Rightarrow> string \<Rightarrow> 'v option option"
    and put :: "int \<Rightarrow> 'c \<Rightarrow> string \<Rightarrow> 'v \<Rightarrow> 'c option"
    and inval :: "'c \<Rightarrow> 'c"
  assumes get_total: "holds c m \<Longrightarrow> get now c k \<noteq> None"
    and get_holds: "holds c m \<Longrightarrow> k \<noteq> [] \<Longrightarrow> get now c k = Some (Some v) \<Longrightarrow> \<exists>e. m k = Some (v, e) \<and> (e = 0 \<or> now < e)"
    and put_holds: "holds c m \<Longrightarrow> k \<noteq> [] \<Longrightarrow> \<exists>c' e. put now c k v = Some c' \<and> holds c' (m(k \<mapsto> (v, e)))"
    and inval_holds: "holds c m \<Longrightarrow> holds (inval c) (\<lambda>k. case m k of Some (v, e) \<Rightarrow> if e = 0 then Some (v, e) else None | None \<Rightarrow> None)"
begin

lemma get_agrees: "cache_agrees holds P c \<Longrightarrow> k \<noteq> [] \<Longrightarrow> \<exists>r. get now c k = Some r \<and> (\<forall>v. r = Some v \<longrightarrow> P k v)"
  unfolding cache_agrees_def using get_total get_holds by (metis not_Some_eq)

lemma put_agrees:
  assumes "cache_agrees holds P c" and "k \<noteq> []" and "P k v"
  shows "\<exists>c'. put now c k v = Some c' \<and> cache_agrees holds P c'"
proof -
  obtain m where m: "holds c m" "\<forall>k v e. m k = Some (v, e) \<longrightarrow> P k v"
    using assms(1) unfolding cache_agrees_def by blast
  obtain c' e where c': "put now c k v = Some c'" "holds c' (m(k \<mapsto> (v, e)))"
    using put_holds [OF m(1) assms(2)] by blast
  have "\<forall>k' v' e'. (m(k \<mapsto> (v, e))) k' = Some (v', e') \<longrightarrow> P k' v'"
    using m(2) assms(3) by auto
  then show ?thesis using c' unfolding cache_agrees_def by blast
qed

end

section \<open>The cache satisfies the contract\<close>

definition slot_of :: "(nat \<Rightarrow> string \<Rightarrow> byte list) \<Rightarrow> 'v Cache \<Rightarrow> string \<Rightarrow> nat \<Rightarrow> nat" where
  "slot_of digest c key alg = unat (checksum digest alg key) mod csize c"

definition emptyNode :: "'v cacheNode" where
  "emptyNode = \<lparr>nkey = [], expire = 0, nvalue = None\<rparr>"

definition node_ok :: "(nat \<Rightarrow> string \<Rightarrow> byte list) \<Rightarrow> 'v Cache \<Rightarrow> (string \<rightharpoonup> 'v \<times> int) \<Rightarrow> nat \<Rightarrow> bool" where
  "node_ok digest c m i \<longleftrightarrow> table c ! i = emptyNode \<or>
     (nkey (table c ! i) \<noteq> [] \<and> i \<in> slot_of digest c (nkey (table c ! i)) ` {0, 1, 2} \<and>
      (\<exists>v. nvalue (table c ! i) = Some v \<and> m (nkey (table c ! i)) = Some (v, expire (table c ! i))))"

definition cache_holds :: "(nat \<Rightarrow> string \<Rightarrow> byte list) \<Rightarrow> 'v Cache \<Rightarrow> (string \<rightharpoonup> 'v \<times> int) \<Rightarrow> bool" where
  "cache_holds digest c m \<longleftrightarrow> csize c > 0 \<and> length (table c) = csize c \<and>
     (\<forall>i < csize c. node_ok digest c m i) \<and>
     (\<forall>i < csize c. \<forall>j < csize c. nkey (table c ! i) = nkey (table c ! j) \<longrightarrow> nkey (table c ! i) \<noteq> [] \<longrightarrow> i = j)"

lemma find_loop_result:
  assumes "find_loop digest now c key algs idx0 = (f, idx)" and "algs \<noteq> []"
  shows "idx \<in> slot_of digest c key ` set algs \<and>
     (nkey (table c ! idx) = key \<and> f = (expire (table c ! idx) = 0 \<or> now < expire (table c ! idx)) \<or>
      \<not> f \<and> (\<forall>alg \<in> set algs. nkey (table c ! slot_of digest c key alg) \<noteq> key))"
  using assms
proof (induction algs arbitrary: idx0)
  case (Cons alg algs)
  show ?case
  proof (cases "nkey (table c ! slot_of digest c key alg) = key")
    case True
    then show ?thesis using Cons.prems(1) by (auto simp: slot_of_def Let_def split: if_splits)
  next
    case False
    then have rest: "find_loop digest now c key algs (slot_of digest c key alg) = (f, idx)"
      using Cons.prems(1) by (simp add: slot_of_def Let_def)
    show ?thesis
    proof (cases "algs = []")
      case True
      then show ?thesis using rest False by auto
    next
      case False
      with Cons.IH [OF rest] \<open>nkey (table c ! slot_of digest c key alg) \<noteq> key\<close> show ?thesis by auto
    qed
  qed
qed simp

lemma find_slot_result:
  assumes "find_slot digest now c key = (f, idx)"
  shows "idx \<in> slot_of digest c key ` {0, 1, 2} \<and>
     (nkey (table c ! idx) = key \<and> f = (expire (table c ! idx) = 0 \<or> now < expire (table c ! idx)) \<or>
      \<not> f \<and> (\<forall>alg \<in> {0, 1, 2}. nkey (table c ! slot_of digest c key alg) \<noteq> key))"
  using find_loop_result [OF assms [unfolded find_slot_def]] by simp

lemma slot_of_less: "csize c > 0 \<Longrightarrow> slot_of digest c key alg < csize c"
  by (simp add: slot_of_def)

lemma find_slot_less:
  assumes "csize c > 0" and "find_slot digest now c key = (f, idx)"
  shows "idx < csize c"
proof -
  obtain alg where "idx = slot_of digest c key alg" using find_slot_result [OF assms(2)] by blast
  then show ?thesis using slot_of_less [OF assms(1)] by simp
qed

lemma other_slots:
  assumes "cache_holds digest c m" and "find_slot digest now c key = (f, idx)" and "key \<noteq> []"
    and "i < csize c" and "nkey (table c ! i) = key"
  shows "i = idx"
proof -
  have pos: "csize c > 0" and ok: "node_ok digest c m i" using assms(1,4) by (auto simp: cache_holds_def)
  have i: "i \<in> slot_of digest c key ` {0, 1, 2}" using ok assms(3,5) by (auto simp: node_ok_def emptyNode_def)
  note r = find_slot_result [OF assms(2)]
  have "idx < csize c" by (rule find_slot_less [OF pos assms(2)])
  moreover have "nkey (table c ! idx) = key" using r i assms(5) by blast
  ultimately show ?thesis using assms(1,3,4,5) unfolding cache_holds_def by metis
qed

lemma Get_holds:
  assumes "cache_holds digest c m" and "k \<noteq> []" and "Get digest now c k = Some (Some v)"
  shows "\<exists>e. m k = Some (v, e) \<and> (e = 0 \<or> now < e)"
proof -
  obtain f idx where fi: "find_slot digest now c k = (f, idx)" by (cases "find_slot digest now c k")
  have pos: "csize c > 0" using assms(1) by (simp add: cache_holds_def)
  with assms(3) fi have f: f and v: "nvalue (table c ! idx) = Some v"
    by (auto simp: Get_def split: if_splits)
  note r = find_slot_result [OF fi]
  with f have key: "nkey (table c ! idx) = k" and live: "expire (table c ! idx) = 0 \<or> now < expire (table c ! idx)" by auto
  have "idx < csize c" by (rule find_slot_less [OF pos fi])
  then have "node_ok digest c m idx" using assms(1) by (simp add: cache_holds_def)
  then show ?thesis using key live v assms(2) by (auto simp: node_ok_def emptyNode_def)
qed

lemma Set_holds:
  assumes "cache_holds digest c m" and "k \<noteq> []"
  shows "\<exists>c'. Set digest now c k v ex = Some c' \<and> cache_holds digest c' (m(k \<mapsto> (v, expiry now (defaultTtl c) ex)))"
proof -
  obtain f idx where fi: "find_slot digest now c k = (f, idx)" by (cases "find_slot digest now c k")
  note r = find_slot_result [OF fi] and others = other_slots [OF assms(1) fi assms(2)]
  have c: "csize c > 0" "length (table c) = csize c" using assms(1) by (simp_all add: cache_holds_def)
  have idx: "idx < csize c" by (rule find_slot_less [OF c(1) fi])
  define n where "n = \<lparr>nkey = k, expire = expiry now (defaultTtl c) ex, nvalue = Some v\<rparr>"
  define c' where "c' = c\<lparr>table := (table c)[idx := n]\<rparr>"
  have "f \<Longrightarrow> nkey (table c ! idx) = k" using r by blast
  then have "Set digest now c k v ex = Some c'"
    using c(1) fi by (simp add: Set_def c'_def n_def)
  moreover have "node_ok digest c' (m(k \<mapsto> (v, expiry now (defaultTtl c) ex))) i" if "i < csize c" for i
  proof (cases "i = idx")
    case True
    moreover have "slot_of digest c' k = slot_of digest c k" by (simp add: fun_eq_iff slot_of_def c'_def)
    moreover have "table c' ! idx = n" using idx c(2) by (simp add: c'_def)
    ultimately show ?thesis unfolding node_ok_def using conjunct1 [OF r] assms(2) by (simp only: n_def) simp
  next
    case False
    then have "nkey (table c ! i) \<noteq> k" using others that by blast
    moreover have "node_ok digest c m i" using assms(1) that by (simp add: cache_holds_def)
    moreover have "slot_of digest c' x = slot_of digest c x" for x by (simp add: fun_eq_iff slot_of_def c'_def)
    moreover have "table c' ! i = table c ! i" using False by (simp add: c'_def)
    ultimately show ?thesis unfolding node_ok_def by simp
  qed
  moreover have "i = j" if ij: "i < csize c" "j < csize c" and eq: "nkey (table c' ! i) = nkey (table c' ! j)"
      and ne: "nkey (table c' ! i) \<noteq> []" for i j
  proof -
    have nk: "nkey (table c' ! x) = (if x = idx then k else nkey (table c ! x))" if "x < csize c" for x
      using that idx c(2) by (simp add: c'_def n_def)
    have uniq: "nkey (table c ! i) = nkey (table c ! j) \<Longrightarrow> nkey (table c ! i) \<noteq> [] \<Longrightarrow> i = j"
      using assms(1) ij unfolding cache_holds_def by blast
    have "i = idx \<longleftrightarrow> j = idx"
      using eq nk [OF ij(1)] nk [OF ij(2)] others [OF ij(1)] others [OF ij(2)] by presburger
    then show ?thesis using eq ne uniq nk [OF ij(1)] nk [OF ij(2)] by metis
  qed
  moreover have "csize c' = csize c" "length (table c') = csize c" using c(2) by (simp_all add: c'_def)
  ultimately show ?thesis using c(1) unfolding cache_holds_def by simp
qed

lemma Invalidate_holds:
  assumes "cache_holds digest c m"
  shows "cache_holds digest (Invalidate c)
     (\<lambda>k. case m k of Some (v, e) \<Rightarrow> if e = 0 then Some (v, e) else None | None \<Rightarrow> None)"
proof -
  have len: "length (table c) = csize c" using assms by (simp add: cache_holds_def)
  have node: "table (Invalidate c) ! i = reset (table c ! i)" if "i < csize c" for i
    using that len by (simp add: Invalidate_def)
  have "node_ok digest (Invalidate c) (\<lambda>k. case m k of Some (v, e) \<Rightarrow> if e = 0 then Some (v, e) else None | None \<Rightarrow> None) i"
    if i: "i < csize c" for i
  proof (cases "expire (table c ! i) = 0")
    case True
    moreover have "node_ok digest c m i" using assms i by (simp add: cache_holds_def)
    moreover have "slot_of digest (Invalidate c) x = slot_of digest c x" for x
      by (simp add: fun_eq_iff slot_of_def Invalidate_def)
    moreover have "table (Invalidate c) ! i = table c ! i" using node [OF i] True by (simp add: reset_def)
    ultimately show ?thesis unfolding node_ok_def by auto
  next
    case False
    then show ?thesis using i by (simp add: node_ok_def node reset_def emptyNode_def initTime_def)
  qed
  moreover have "i = j" if "i < csize c" "j < csize c" "nkey (reset (table c ! i)) = nkey (reset (table c ! j))"
      "nkey (reset (table c ! i)) \<noteq> []" for i j
    using that assms unfolding cache_holds_def by (auto simp: reset_def split: if_splits)
  ultimately show ?thesis using assms len node by (auto simp: cache_holds_def Invalidate_def)
qed

interpretation hashcache: lossy_cache "cache_holds digest" "Get digest" "\<lambda>now c k v. Set digest now c k v ex" Invalidate
  for digest and ex
proof unfold_locales
  show "Get digest now c k \<noteq> None" if "cache_holds digest c m" for c :: "'v Cache" and m now k
    using that by (auto simp: Get_def cache_holds_def split: prod.split)
  show "\<exists>e. m k = Some (v, e) \<and> (e = 0 \<or> now < e)"
    if "cache_holds digest c m" "k \<noteq> []" "Get digest now c k = Some (Some v)" for c :: "'v Cache" and m k now v
    using that by (rule Get_holds)
  show "\<exists>c' e. Set digest now c k v ex = Some c' \<and> cache_holds digest c' (m(k \<mapsto> (v, e)))"
    if "cache_holds digest c m" "k \<noteq> []" for c :: "'v Cache" and m k now v
    using Set_holds [OF that] by blast
  show "cache_holds digest (Invalidate c) (\<lambda>k. case m k of Some (v, e) \<Rightarrow> if e = 0 then Some (v, e) else None | None \<Rightarrow> None)"
    if "cache_holds digest c m" for c :: "'v Cache" and m
    using that by (rule Invalidate_holds)
qed

lemma NewCache_holds: "0 < sz \<Longrightarrow> cache_holds digest (NewCache sz ttl) Map.empty"
  by (auto simp: cache_holds_def NewCache_def node_ok_def emptyNode_def)

section \<open>Sequences of calls\<close>

datatype 'v cache_op = SetOp int string 'v "int list" | GetOp int string | InvalidateOp

fun cache_run :: "(nat \<Rightarrow> string \<Rightarrow> byte list) \<Rightarrow> 'v cache_op list \<Rightarrow> 'v Cache \<Rightarrow> 'v option list \<Rightarrow>
    ('v Cache \<times> 'v option list) option" where
  "cache_run digest [] c outs = Some (c, outs)"
| "cache_run digest (SetOp now k v ex # ops) c outs =
     do { c' \<leftarrow> Set digest now c k v ex; cache_run digest ops c' outs }"
| "cache_run digest (GetOp now k # ops) c outs =
     do { r \<leftarrow> Get digest now c k; cache_run digest ops c (outs @ [r]) }"
| "cache_run digest (InvalidateOp # ops) c outs = cache_run digest ops (Invalidate c) outs"

text \<open>
  The history the calls leave: what was stored last for each key with its expiry, where an
  invalidation removes what has an expiry.
\<close>

fun history :: "int \<Rightarrow> 'v cache_op list \<Rightarrow> (string \<rightharpoonup> 'v \<times> int) \<Rightarrow> (string \<rightharpoonup> 'v \<times> int)" where
  "history ttl [] m = m"
| "history ttl (SetOp now k v ex # ops) m =
     history ttl ops (m(k \<mapsto> (v, expiry now ttl ex)))"
| "history ttl (GetOp now k # ops) m = history ttl ops m"
| "history ttl (InvalidateOp # ops) m =
     history ttl ops (\<lambda>k. case m k of Some (v, e) \<Rightarrow> if e = 0 then Some (v, e) else None | None \<Rightarrow> None)"

fun op_keys :: "'v cache_op list \<Rightarrow> string list" where
  "op_keys [] = []"
| "op_keys (SetOp now k v ex # ops) = k # op_keys ops"
| "op_keys (GetOp now k # ops) = k # op_keys ops"
| "op_keys (InvalidateOp # ops) = op_keys ops"

lemma Set_ttl: "Set digest now c k v ex = Some c' \<Longrightarrow> defaultTtl c' = defaultTtl c"
  by (auto simp: Set_def split: if_splits prod.splits)

lemma cache_run_holds:
  "cache_holds digest c m \<Longrightarrow> defaultTtl c = ttl \<Longrightarrow> [] \<notin> set (op_keys ops) \<Longrightarrow>
     \<exists>c' outs'. cache_run digest ops c outs = Some (c', outs') \<and> cache_holds digest c' (history ttl ops m)"
proof (induction digest ops c outs arbitrary: m rule: cache_run.induct)
  case (2 digest now k v ex ops c outs)
  then have k: "k \<noteq> []" and rest: "[] \<notin> set (op_keys ops)" by auto
  obtain c' where c': "Set digest now c k v ex = Some c'" "cache_holds digest c' (m(k \<mapsto> (v, expiry now ttl ex)))"
    using Set_holds [OF 2(2) k] 2(3) by blast
  have "defaultTtl c' = ttl" using Set_ttl [OF c'(1)] 2(3) by simp
  from 2(1) [OF c'(1) c'(2) this rest] show ?case using c'(1) by (simp add: fun_upd_def)
next
  case (3 digest now k ops c outs)
  moreover obtain r where "Get digest now c k = Some r" using hashcache.get_total [OF 3(2)] by blast
  ultimately show ?case by simp
next
  case (4 digest ops c outs)
  then show ?case using Invalidate_holds [OF 4(2)] by (simp add: Invalidate_def)
qed auto

section \<open>Properties\<close>

text \<open>
  C25. What the cache returns is what was stored last: after any calls on a new cache, with
  non-empty keys, a \<^verbatim>\<open>Get\<close> that returns a value returns the value stored last for that
  key, not yet expired, and not invalidated since unless it was stored without an expiry;
  for every digest function, so also when keys collide.
\<close>

theorem cache_returns_latest:
  fixes ops :: "'v cache_op list"
  assumes "0 < sz" and "[] \<notin> set (op_keys ops)" and "key \<noteq> []"
  shows "\<exists>c outs. cache_run digest ops (NewCache sz ttl) [] = Some (c, outs) \<and>
     (\<forall>v. Get digest now c key = Some (Some v) \<longrightarrow>
        (\<exists>e. history ttl ops Map.empty key = Some (v, e) \<and> (e = 0 \<or> now < e)))"
proof -
  have "defaultTtl (NewCache sz ttl :: 'v Cache) = ttl" by (simp add: NewCache_def)
  from cache_run_holds [OF NewCache_holds [OF assms(1)] this assms(2), of digest "[]"]
  obtain c outs where run: "cache_run digest ops (NewCache sz ttl) [] = Some (c, outs)"
    and holds: "cache_holds digest c (history ttl ops Map.empty)" by blast
  have "\<forall>v. Get digest now c key = Some (Some v) \<longrightarrow>
      (\<exists>e. history ttl ops Map.empty key = Some (v, e) \<and> (e = 0 \<or> now < e))"
    using Get_holds [OF holds assms(3)] by simp
  with run show ?thesis by blast
qed

lemma cache_returns_latest_witness:
  "\<exists>c outs. cache_run (\<lambda>_ k. map (\<lambda>c. of_nat (of_char c)) k) [SetOp 1 ''abcd'' True [], SetOp 2 ''abce'' False []] (NewCache 4 5000000) [] = Some (c, outs) \<and>
     (\<forall>v. Get (\<lambda>_ k. map (\<lambda>c. of_nat (of_char c)) k) 3 c ''abcd'' = Some (Some v) \<longrightarrow>
        (\<exists>e. history 5000000 [SetOp 1 ''abcd'' True [], SetOp 2 ''abce'' False []] Map.empty ''abcd'' = Some (v, e) \<and> (e = 0 \<or> 3 < e)))"
  by (rule cache_returns_latest) simp_all

lemma stored_found:
  assumes "cache_holds digest c m" and "key \<noteq> []" and "idx < csize c"
    and at: "table c ! idx = \<lparr>nkey = key, expire = e, nvalue = Some v\<rparr>" and "e = 0 \<or> now < e"
  shows "Get digest now c key = Some (Some v)"
proof -
  have pos: "csize c > 0" and ok: "node_ok digest c m idx" using assms(1,3) by (auto simp: cache_holds_def)
  obtain f i where fi: "find_slot digest now c key = (f, i)" by (cases "find_slot digest now c key")
  have i: "i = idx" using other_slots [OF assms(1) fi assms(2,3)] at by simp
  obtain alg where alg: "alg \<in> {0, 1, 2}" "idx = slot_of digest c key alg"
    using ok at assms(2) by (auto simp: node_ok_def emptyNode_def)
  have "nkey (table c ! slot_of digest c key alg) = key" by (simp only: alg(2) [symmetric] at) simp
  then have "f = (expire (table c ! i) = 0 \<or> now < expire (table c ! i))"
    using find_slot_result [OF fi] alg(1) by blast
  then have f using assms(5) by (simp add: i at)
  then show ?thesis using fi pos by (simp add: Get_def i at)
qed

lemma Set_stores:
  assumes "cache_holds digest c m" and "key \<noteq> []"
  shows "\<exists>c' idx. Set digest now c key v ex = Some c' \<and> cache_holds digest c' (m(key \<mapsto> (v, expiry now (defaultTtl c) ex))) \<and>
     idx < csize c' \<and> table c' ! idx = \<lparr>nkey = key, expire = expiry now (defaultTtl c) ex, nvalue = Some v\<rparr>"
proof -
  obtain c' where c': "Set digest now c key v ex = Some c'"
    "cache_holds digest c' (m(key \<mapsto> (v, expiry now (defaultTtl c) ex)))" using Set_holds [OF assms] by blast
  have pos: "csize c > 0" and len: "length (table c) = csize c" using assms(1) by (auto simp: cache_holds_def)
  obtain f idx where fi: "find_slot digest now c key = (f, idx)" by (cases "find_slot digest now c key")
  have idx: "idx < csize c" by (rule find_slot_less [OF pos fi])
  have "f \<Longrightarrow> nkey (table c ! idx) = key" using find_slot_result [OF fi] by blast
  then have "c' = c\<lparr>table := (table c)[idx := \<lparr>nkey = key, expire = expiry now (defaultTtl c) ex, nvalue = Some v\<rparr>]\<rparr>"
    using c'(1) fi pos by (cases f) (simp_all add: Set_def)
  then show ?thesis using c' idx len by (intro exI [of _ c'] exI [of _ idx]) simp
qed

text \<open>
  A value just stored is found again until it expires.
\<close>

theorem cache_get_after_set:
  assumes "cache_holds digest c m" and "key \<noteq> []"
    and "expiry now (defaultTtl c) ex = 0 \<or> now' < expiry now (defaultTtl c) ex"
  shows "\<exists>c'. Set digest now c key v ex = Some c' \<and> Get digest now' c' key = Some (Some v)"
  using Set_stores [OF assms(1,2)] stored_found [OF _ assms(2)] assms(3) by metis

lemma cache_get_after_set_witness:
  "\<exists>c'. Set (\<lambda>_ k. [0, 0, 0, 7]) 1 (NewCache 4 5000000) ''k'' True [] = Some c' \<and>
     Get (\<lambda>_ k. [0, 0, 0, 7]) 2 c' ''k'' = Some (Some True)"
  by (rule cache_get_after_set [OF NewCache_holds]) (simp_all add: NewCache_def expiry_def)

text \<open>
  \<^verbatim>\<open>Invalidate\<close> keeps what was stored without an expiry: with a default time to live of
  at most a millisecond a stored value is still returned after an invalidation.
\<close>

theorem Invalidate_keeps_unexpiring:
  assumes "cache_holds digest c m" and "key \<noteq> []" and "defaultTtl c \<le> 1000000"
  shows "\<exists>c'. Set digest now c key v [] = Some c' \<and> Get digest now' (Invalidate c') key = Some (Some v)"
proof -
  have e: "expiry now (defaultTtl c) [] = 0" using assms(3) by (simp add: expiry_def)
  obtain c' idx where c': "Set digest now c key v [] = Some c'" "cache_holds digest c' (m(key \<mapsto> (v, 0)))"
    and idx: "idx < csize c'" "table c' ! idx = \<lparr>nkey = key, expire = 0, nvalue = Some v\<rparr>"
    using Set_stores [OF assms(1,2), of now v "[]"] unfolding e by blast
  have "length (table c') = csize c'" using c'(2) by (simp add: cache_holds_def)
  then have "table (Invalidate c') ! idx = \<lparr>nkey = key, expire = 0, nvalue = Some v\<rparr>" "idx < csize (Invalidate c')"
    using idx by (simp_all add: Invalidate_def reset_def)
  from stored_found [OF Invalidate_holds [OF c'(2)] assms(2) this(2,1)] c'(1) show ?thesis by auto
qed

lemma Invalidate_keeps_unexpiring_witness:
  "\<exists>c'. Set (\<lambda>_ k. [0, 0, 0, 7]) 1 (NewCache 4 0) ''k'' True [] = Some c' \<and>
     Get (\<lambda>_ k. [0, 0, 0, 7]) 2 (Invalidate c') ''k'' = Some (Some True)"
  by (rule Invalidate_keeps_unexpiring [OF NewCache_holds]) (simp_all add: NewCache_def)

end
