(* ===== verification/Policy_Manager.thy ===== *)
theory Policy_Manager
  imports Rbac Hash_Cache
begin

text \<open>
  The policy manager of \<^verbatim>\<open>pkg/cloudcommon/policy\<close>: fetching the policies from the identity
  service, the decision on a request from all policies that match a user, its cache, the
  explanation calls, and the rules and resource tables built into the program.

  A Go map of policies is the association list of its entries in the order of the range
  loop; a nil map is \<^term>\<open>None\<close>. The list call of the identity service is the argument
  \<open>list_page\<close>, and the setting that turns access control on is an argument. The clock and
  the digests of the cache are arguments as well.
\<close>

section \<open>Tables\<close>

definition defaultRules :: "SRbacRule list" where
  "defaultRules =
     (let rule = (\<lambda>s r a res. \<lparr>Service = s, Resource = r, Action = a, Extra = None, Result = res\<rparr>) in
      [rule [] ''tasks'' ''perform'' UserAllow,
       rule ''compute'' ''hosts'' ''list'' UserAllow,
       rule ''compute'' ''zones'' ''list'' UserAllow,
       rule ''compute'' ''zones'' ''get'' UserAllow,
       rule ''compute'' ''metadatas'' ''list'' UserAllow,
       rule ''compute'' ''storages'' ''list'' UserAllow,
       rule ''compute'' ''storages'' ''get'' UserAllow,
       rule ''compute'' ''schedtags'' ''list'' UserAllow,
       rule ''compute'' ''schedtags'' ''get'' UserAllow,
       rule ''compute'' ''cloudregions'' ''list'' UserAllow,
       rule ''compute'' ''cloudregions'' ''get'' UserAllow,
       rule ''compute'' ''cachedimages'' ''list'' UserAllow,
       rule ''compute'' ''cachedimages'' ''get'' UserAllow,
       rule [] ''quotas'' ''get'' OwnerAllow,
       rule [] ''usages'' ''get'' OwnerAllow,
       rule ''compute'' ''serverskus'' ''list'' UserAllow,
       rule ''compute'' ''serverskus'' ''get'' UserAllow,
       rule ''yunionagent'' ''notices'' ''list'' UserAllow,
       rule ''yunionagent'' ''readmarks'' ''list'' UserAllow,
       rule ''yunionagent'' ''readmarks'' ''create'' UserAllow,
       rule ''yunionconf'' ''parameters'' ''get'' OwnerAllow,
       rule ''image'' ''images'' ''list'' OwnerAllow,
       rule ''image'' ''images'' ''get'' OwnerAllow,
       (rule ''image'' ''images'' ''perform'' GuestAllow)\<lparr>Extra := Some [''update-torrent-status'']\<rparr>,
       rule ''log'' ''actions'' ''list'' OwnerAllow,
       rule ''log'' ''actions'' ''get'' OwnerAllow])"

definition computeAdminResources :: "string list" where
  "computeAdminResources = [''hosts'', ''zones'', ''storages'', ''wires'', ''vpcs'', ''networks'',
     ''cloudregions'', ''recyclebins'', ''schedtags'', ''serverskus'', ''cachedimages'', ''cloudaccounts'',
     ''dynamicschedtags'', ''baremetalagents'', ''schedpolicies'', ''isolated-devices'', ''reservedips'',
     ''dnsrecords'']"

definition notifyAdminResources :: "string list" where
  "notifyAdminResources = [''configs'', ''contacts'']"

definition meterAdminResources :: "string list" where
  "meterAdminResources = [''rates'', ''res_results'']"

definition k8sAdminResources :: "string list" where
  "k8sAdminResources = [''kube_clusters'', ''kube_nodes'']"

definition yunionagentAdminResources :: "string list" where
  "yunionagentAdminResources = [''notices'', ''readmarks'', ''infos'']"

definition identityAdminResources :: "string list" where
  "identityAdminResources = [''users'', ''groups'', ''domains'', ''projects'', ''roles'', ''policies'',
     ''services'', ''endpoints'']"

definition adminResources :: "(string \<times> string list) list" where
  "adminResources = [(''compute'', computeAdminResources), (''notify'', notifyAdminResources),
     (''meter'', meterAdminResources), (''k8s'', k8sAdminResources), (''yunionagent'', yunionagentAdminResources),
     (''yunionconf'', []), (''log'', []), (''identity'', identityAdminResources)]"

definition isAdminResource :: "string \<Rightarrow> string \<Rightarrow> bool" where
  "isAdminResource service resource =
     (if service = ''identity'' then True
      else if service = ''compute'' then resource \<in> set computeAdminResources
      else if service = ''notify'' then resource \<in> set notifyAdminResources
      else if service = ''k8s'' then resource \<in> set k8sAdminResources
      else if service = ''meters'' then resource \<in> set meterAdminResources
      else if service = ''yunionagent'' then resource \<in> set yunionagentAdminResources
      else False)"

section \<open>State\<close>

record TokenCredential =
  ProjectId :: string
  DomainId :: string
  UserId :: string
  ProjectName :: string
  TokenRoles :: "string list"
  SystemAdmin :: bool

type_synonym policy_map = "(string \<times> SRbacPolicy) list"

record SPolicyManager =
  policies :: "policy_map option"
  adminPolicies :: "policy_map option"
  defaultPolicy :: "SRbacPolicy option"
  lastSync :: int
  failedRetryInterval :: int
  refreshInterval :: int
  pcache :: "TRbacResult Cache option"

section \<open>Fetching\<close>

text \<open>A listed policy: the type and the policy blob, each \<^term>\<open>None\<close> when the accessor fails.\<close>

record policy_obj =
  o_type :: "string option"
  o_blob :: "policy_json option"

definition parseJsonPolicy :: "policy_obj \<Rightarrow> (string + string \<times> SRbacPolicy) option" where
  "parseJsonPolicy obj =
     (case o_type obj of
        None \<Rightarrow> Some (Inl ''get type error'')
      | Some typeStr \<Rightarrow>
          (case o_blob obj of
             None \<Rightarrow> Some (Inl ''get blob error'')
           | Some blob \<Rightarrow> do {
               d \<leftarrow> Decode blob;
               Some (case d of Inl err \<Rightarrow> Inl err | Inr p \<Rightarrow> Inr (typeStr, p)) }))"

text \<open>One page of results: policies that do not parse are skipped, others are filed by kind.\<close>

fun file_page :: "policy_obj list \<Rightarrow> policy_map \<times> policy_map \<Rightarrow> (policy_map \<times> policy_map) option" where
  "file_page [] acc = Some acc"
| "file_page (obj # objs) (pols, admins) =
     do {
       r \<leftarrow> parseJsonPolicy obj;
       case r of
         Inl err \<Rightarrow> file_page objs (pols, admins)
       | Inr (typeStr, p) \<Rightarrow>
           if IsAdmin p then file_page objs (pols, AList.update typeStr p admins)
           else file_page objs (AList.update typeStr p pols, admins) }"

datatype fetch_result = Fetched policy_map policy_map | FetchError string | FetchPanic

text \<open>
  The paging loop. \<open>list_page limit offset\<close> is the answer of the service: an error, or the
  policies of the page and the total. The loop may run for ever, then its value is \<^term>\<open>None\<close>.
\<close>

partial_function (option) fetch_loop ::
  "(nat \<Rightarrow> nat \<Rightarrow> string + policy_obj list \<times> nat) \<Rightarrow> nat \<Rightarrow> policy_map \<times> policy_map \<Rightarrow> fetch_result option" where
  "fetch_loop list_page offset acc =
     (case list_page 2048 offset of
        Inl err \<Rightarrow> Some (FetchError err)
      | Inr (objs, ntotal) \<Rightarrow>
          (case file_page objs acc of
             None \<Rightarrow> Some FetchPanic
           | Some acc' \<Rightarrow>
               if offset + length objs \<ge> ntotal then Some (Fetched (fst acc') (snd acc'))
               else fetch_loop list_page (offset + length objs) acc'))"

definition fetchPolicies :: "(nat \<Rightarrow> nat \<Rightarrow> string + policy_obj list \<times> nat) \<Rightarrow> fetch_result option" where
  "fetchPolicies list_page = fetch_loop list_page 0 ([], [])"

text \<open>
  \<^verbatim>\<open>SyncOnce\<close> with what the fetch returned; the result is the error and the manager, and
  \<^term>\<open>None\<close> the panic of the fetch or of invalidating a nil cache.
\<close>

definition SyncOnce :: "int \<Rightarrow> fetch_result \<Rightarrow> SPolicyManager \<Rightarrow> (string option \<times> SPolicyManager) option" where
  "SyncOnce now fetched manager =
     (case fetched of
        FetchPanic \<Rightarrow> None
      | FetchError err \<Rightarrow> Some (Some err, manager)
      | Fetched pols admins \<Rightarrow>
          do {
            c \<leftarrow> pcache manager;
            Some (None, manager\<lparr>policies := Some pols, adminPolicies := Some admins, lastSync := now,
              pcache := Some (Invalidate c)\<rparr>) })"

text \<open>\<^verbatim>\<open>sync\<close> also gives the interval after which it is run again.\<close>

definition sync :: "int \<Rightarrow> fetch_result \<Rightarrow> SPolicyManager \<Rightarrow> (int \<times> SPolicyManager) option" where
  "sync now fetched manager =
     do {
       (err, manager') \<leftarrow> SyncOnce now fetched manager;
       Some (if err \<noteq> None then failedRetryInterval manager' else refreshInterval manager', manager') }"

definition start :: "int \<Rightarrow> int \<Rightarrow> int \<Rightarrow> fetch_result \<Rightarrow> SPolicyManager \<Rightarrow> (int \<times> SPolicyManager) option" where
  "start now refresh retry fetched manager =
     do {
       rules \<leftarrow> CompactRules defaultRules;
       sync now fetched (manager\<lparr>refreshInterval := refresh, failedRetryInterval := retry,
         defaultPolicy := (if length defaultRules > 0
            then Some \<lparr>IsAdmin = False, Rules = rules, Projects = [], Roles = []\<rparr> else defaultPolicy manager),
         pcache := Some (NewCache 2048 (sgn refresh * (\<bar>refresh\<bar> div 2)))\<rparr>) }"

section \<open>Decisions\<close>

definition queryKey :: "bool \<Rightarrow> TokenCredential \<Rightarrow> string \<Rightarrow> string \<Rightarrow> string \<Rightarrow> string list \<Rightarrow> string" where
  "queryKey isAdmin userCred service resource action extra =
     strings_Join ''-''
       ([if isAdmin then ''true'' else ''false'', ProjectId userCred, DomainId userCred, UserId userCred,
         strings_Join '':'' (sort (TokenRoles userCred)),
         if service = WILD_MATCH \<or> length service = 0 then WILD_MATCH else service,
         if resource = WILD_MATCH \<or> length resource = 0 then WILD_MATCH else resource,
         if action = WILD_MATCH \<or> length action = 0 then WILD_MATCH else action] @ extra)"

definition userMatch :: "SRbacPolicy \<Rightarrow> TokenCredential option \<Rightarrow> bool" where
  "userMatch p userCred = policy_Match p (map_option (\<lambda>u. (ProjectName u, TokenRoles u)) userCred)"

definition unifyRbacResult :: "bool \<Rightarrow> TRbacResult \<Rightarrow> TRbacResult" where
  "unifyRbacResult isAdmin currentPriv =
     (if isAdmin
      then if currentPriv \<in> {OwnerAllow, UserAllow, GuestAllow} then AdminAllow else currentPriv
      else if currentPriv = AdminAllow then UserAllow else currentPriv)"

definition exportRbacResult :: "TRbacResult \<Rightarrow> TRbacResult" where
  "exportRbacResult currentPriv =
     (if currentPriv = AdminAllow \<or> currentPriv = OwnerAllow then AllowR else currentPriv)"

definition policies_for :: "bool \<Rightarrow> SPolicyManager \<Rightarrow> policy_map option" where
  "policies_for isAdmin manager = (if isAdmin then adminPolicies manager else policies manager)"

definition findPolicyByName :: "SPolicyManager \<Rightarrow> bool \<Rightarrow> string \<Rightarrow> SRbacPolicy option" where
  "findPolicyByName manager isAdmin name =
     (case policies_for isAdmin manager of None \<Rightarrow> None | Some ps \<Rightarrow> map_of ps name)"

text \<open>The loop over the policies, with \<^verbatim>\<open>findMatchPolicy\<close>, \<^verbatim>\<open>findMatchRule\<close> and \<^verbatim>\<open>currentPriv\<close>.\<close>

fun allow_loop :: "TokenCredential option \<Rightarrow> string \<Rightarrow> string \<Rightarrow> string \<Rightarrow> string list \<Rightarrow> policy_map \<Rightarrow>
    bool \<times> bool \<times> TRbacResult \<Rightarrow> (bool \<times> bool \<times> TRbacResult) option" where
  "allow_loop userCred service resource action extra [] acc = Some acc"
| "allow_loop userCred service resource action extra ((name, p) # ps) (findMatchPolicy, findMatchRule, currentPriv) =
     (if \<not> userMatch p userCred
      then allow_loop userCred service resource action extra ps (findMatchPolicy, findMatchRule, currentPriv)
      else do {
        rule \<leftarrow> GetMatchRule p service resource action extra;
        case rule of
          None \<Rightarrow> allow_loop userCred service resource action extra ps (True, findMatchRule, currentPriv)
        | Some r \<Rightarrow> allow_loop userCred service resource action extra ps
            (True, True, if StricterThan currentPriv (Result r) then Result r else currentPriv) })"

definition allowWithoutCache :: "SPolicyManager \<Rightarrow> bool \<Rightarrow> TokenCredential option \<Rightarrow> string \<Rightarrow> string \<Rightarrow> string \<Rightarrow>
    string list \<Rightarrow> TRbacResult option" where
  "allowWithoutCache manager isAdmin userCred service resource action extra =
     (case policies_for isAdmin manager of
        None \<Rightarrow> Some DenyR
      | Some ps \<Rightarrow>
          do {
            (findMatchPolicy, findMatchRule, currentPriv) \<leftarrow>
              allow_loop userCred service resource action extra ps (False, False, DenyR);
            let currentPriv =
              (if \<not> findMatchPolicy then DenyR
               else if \<not> findMatchRule then if isAdmin then AdminAllow else OwnerAllow
               else currentPriv);
            case (if isAdmin then None else defaultPolicy manager) of
              None \<Rightarrow> Some (unifyRbacResult isAdmin currentPriv)
            | Some dp \<Rightarrow>
                do {
                  rule \<leftarrow> GetMatchRule dp service resource action extra;
                  Some (unifyRbacResult isAdmin (case rule of
                      None \<Rightarrow> currentPriv
                    | Some r \<Rightarrow> if StricterThan currentPriv (Result r) then Result r else currentPriv)) } })"

definition Allow :: "(nat \<Rightarrow> string \<Rightarrow> byte list) \<Rightarrow> int \<Rightarrow> SPolicyManager \<Rightarrow> bool \<Rightarrow> TokenCredential option \<Rightarrow> string \<Rightarrow>
    string \<Rightarrow> string \<Rightarrow> string list \<Rightarrow> (TRbacResult \<times> SPolicyManager) option" where
  "Allow digest now manager isAdmin userCred service resource action extra =
     (case (pcache manager, userCred) of
        (Some c, Some u) \<Rightarrow>
          let key = queryKey isAdmin u service resource action extra in
          do {
            val \<leftarrow> Get digest now c key;
            case val of
              Some res \<Rightarrow> Some (res, manager)
            | None \<Rightarrow>
                do {
                  res \<leftarrow> allowWithoutCache manager isAdmin userCred service resource action extra;
                  c' \<leftarrow> Set digest now c key res [];
                  Some (res, manager\<lparr>pcache := Some c'\<rparr>) } }
      | _ \<Rightarrow>
          do {
            res \<leftarrow> allowWithoutCache manager isAdmin userCred service resource action extra;
            Some (res, manager) })"

definition IsAdminCapable :: "bool \<Rightarrow> SPolicyManager \<Rightarrow> TokenCredential \<Rightarrow> bool" where
  "IsAdminCapable rbacEnabled manager userCred =
     (if \<not> rbacEnabled \<and> SystemAdmin userCred then True
      else list_ex (\<lambda>(k, p). userMatch p (Some userCred)) (slice_of (adminPolicies manager)))"

definition MatchedPolicies :: "SPolicyManager \<Rightarrow> bool \<Rightarrow> TokenCredential \<Rightarrow> string list" where
  "MatchedPolicies manager isAdmin userCred =
     map fst (filter (\<lambda>(k, p). userMatch p (Some userCred)) (slice_of (policies_for isAdmin manager)))"

definition token_HasSystemAdminPrivilege :: "bool \<Rightarrow> SPolicyManager \<Rightarrow> TokenCredential \<Rightarrow> bool" where
  "token_HasSystemAdminPrivilege rbacEnabled manager userCred =
     (if rbacEnabled then IsAdminCapable rbacEnabled manager userCred else SystemAdmin userCred)"

definition token_IsAdminAllow :: "(nat \<Rightarrow> string \<Rightarrow> byte list) \<Rightarrow> int \<Rightarrow> bool \<Rightarrow> SPolicyManager \<Rightarrow> bool \<Rightarrow> TokenCredential \<Rightarrow>
    string \<Rightarrow> string \<Rightarrow> string \<Rightarrow> string list \<Rightarrow> (bool \<times> SPolicyManager) option" where
  "token_IsAdminAllow digest now rbacEnabled manager inner userCred service resource action extra =
     (if rbacEnabled
      then do { (res, manager') \<leftarrow> Allow digest now manager True (Some userCred) service resource action extra;
                Some (res = AdminAllow, manager') }
      else Some (inner, manager))"

section \<open>Explanation\<close>

text \<open>
  An element of an explanation request, as its boolean and its string reading; a request whose
  array cannot be read is \<^term>\<open>None\<close>. The result is whether the admin policies were asked,
  the request as strings, the result and the error.
\<close>

type_synonym explain_out = "bool \<times> string list option \<times> TRbacResult \<times> string option"

definition explainPolicyInternal :: "bool \<Rightarrow> SPolicyManager \<Rightarrow> TokenCredential \<Rightarrow> (bool \<times> string) list option \<Rightarrow> string \<Rightarrow>
    explain_out option" where
  "explainPolicyInternal rbacEnabled manager userCred policyReq name =
     (case policyReq of
        None \<Rightarrow> Some (False, None, DenyR, Some ''invalid format'')
      | Some policySeq \<Rightarrow>
          let service = (if length policySeq > 1 then snd (policySeq ! 1) else WILD_MATCH);
              resource = (if length policySeq > 2 then snd (policySeq ! 2) else WILD_MATCH);
              action = (if length policySeq > 3 then snd (policySeq ! 3) else WILD_MATCH);
              extra = map snd (drop 4 policySeq);
              reqStrs = [service, resource, action] @ extra
          in do {
            first \<leftarrow> go_nth policySeq 0;
            let isAdmin = fst first;
            if \<not> rbacEnabled then
              Some (if \<not> isAdmin then (isAdmin, Some reqStrs, OwnerAllow, None)
                else if SystemAdmin userCred then (isAdmin, Some reqStrs, AdminAllow, None)
                else (isAdmin, Some reqStrs, DenyR, Some ''operation not allowed''))
            else if length name = 0 then
              do {
                res \<leftarrow> allowWithoutCache manager isAdmin (Some userCred) service resource action extra;
                Some (isAdmin, Some reqStrs, res, None) }
            else
              (case findPolicyByName manager isAdmin name of
                 None \<Rightarrow> Some (isAdmin, Some reqStrs, DenyR, Some ''policy not found'')
               | Some p \<Rightarrow>
                   do {
                     rule \<leftarrow> GetMatchRule p service resource action extra;
                     Some (isAdmin, Some reqStrs,
                       unifyRbacResult isAdmin (case rule of None \<Rightarrow> DenyR | Some r \<Rightarrow> Result r), None) }) })"

text \<open>Reading \<^verbatim>\<open>request[0]\<close> and \<^verbatim>\<open>request[1]\<close> of a nil request panics.\<close>

definition explainPolicy :: "bool \<Rightarrow> SPolicyManager \<Rightarrow> TokenCredential \<Rightarrow> (bool \<times> string) list option \<Rightarrow> string \<Rightarrow>
    (string list option \<times> TRbacResult \<times> string option) option" where
  "explainPolicy rbacEnabled manager userCred policyReq name =
     do {
       (isAdmin, request, res, err) \<leftarrow> explainPolicyInternal rbacEnabled manager userCred policyReq name;
       res \<leftarrow> (if \<not> isAdmin
          then do {
            r0 \<leftarrow> go_nth (slice_of request) 0;
            r1 \<leftarrow> go_nth (slice_of request) 1;
            Some (if isAdminResource r0 r1 \<and> res = OwnerAllow then DenyR else res) }
          else Some res);
       Some (request, exportRbacResult res, err) }"

fun ExplainRpc :: "bool \<Rightarrow> SPolicyManager \<Rightarrow> TokenCredential \<Rightarrow> (string \<times> (bool \<times> string) list option) list \<Rightarrow> string \<Rightarrow>
    (string + (string \<times> string list) list) option" where
  "ExplainRpc rbacEnabled manager userCred [] name = Some (Inr [])"
| "ExplainRpc rbacEnabled manager userCred ((key, policyReq) # params) name =
     do {
       (reqStrs, res, err) \<leftarrow> explainPolicy rbacEnabled manager userCred policyReq name;
       case err of
         Some e \<Rightarrow> Some (Inl e)
       | None \<Rightarrow>
           do {
             rest \<leftarrow> ExplainRpc rbacEnabled manager userCred params name;
             Some (case rest of Inl e \<Rightarrow> Inl e | Inr out \<Rightarrow> Inr ((key, slice_of reqStrs @ [res]) # out)) } }"

section \<open>The decision\<close>

definition is_laxest :: "TRbacResult set \<Rightarrow> TRbacResult \<Rightarrow> bool" where
  "is_laxest S x \<longleftrightarrow> x \<in> S \<and> (\<forall>y \<in> S. Strictness y \<le> Strictness x)"

text \<open>What the rules of the matching policies grant, one deciding rule for each policy.\<close>

definition granted :: "TokenCredential option \<Rightarrow> string \<Rightarrow> string \<Rightarrow> string \<Rightarrow> string list \<Rightarrow> policy_map \<Rightarrow> TRbacResult set" where
  "granted u s r a e ps =
     {Result x | n p x. (n, p) \<in> set ps \<and> userMatch p u \<and> GetMatchRule p s r a e = Some (Some x)}"

definition policy_grants :: "bool \<Rightarrow> TokenCredential option \<Rightarrow> string \<Rightarrow> string \<Rightarrow> string \<Rightarrow> string list \<Rightarrow> policy_map \<Rightarrow> TRbacResult set" where
  "policy_grants isAdmin u s r a e ps =
     (if \<forall>(n, p) \<in> set ps. \<not> userMatch p u then {DenyR}
      else if granted u s r a e ps = {} then {if isAdmin then AdminAllow else OwnerAllow}
      else granted u s r a e ps)"

definition default_grants :: "bool \<Rightarrow> SPolicyManager \<Rightarrow> string \<Rightarrow> string \<Rightarrow> string \<Rightarrow> string list \<Rightarrow> TRbacResult set" where
  "default_grants isAdmin m s r a e =
     (if isAdmin then {} else case defaultPolicy m of
        None \<Rightarrow> {} | Some dp \<Rightarrow> {Result x | x. GetMatchRule dp s r a e = Some (Some x)})"

definition valid_policy :: "SRbacPolicy \<Rightarrow> bool" where
  "valid_policy p \<longleftrightarrow> (\<forall>r \<in> set (Rules p). Result r \<in> valid_results)"

definition valid_manager :: "SPolicyManager \<Rightarrow> bool" where
  "valid_manager m \<longleftrightarrow>
     (\<forall>(n, p) \<in> set (slice_of (policies m)) \<union> set (slice_of (adminPolicies m)). valid_policy p) \<and>
     (case defaultPolicy m of None \<Rightarrow> True | Some dp \<Rightarrow> valid_policy dp)"

lemma GetMatchRule_total: "\<exists>res. GetMatchRule p s r a e = Some res"
  using GetMatchRule_best by blast

lemma GetMatchRule_valid: "valid_policy p \<Longrightarrow> GetMatchRule p s r a e = Some (Some x) \<Longrightarrow> Result x \<in> valid_results"
  using GetMatchRule_best [of p s r a e] by (auto simp: best_of_def valid_policy_def)

lemma granted_Nil [simp]: "granted u s r a e [] = {}"
  by (simp add: granted_def)

lemma granted_Cons:
  "granted u s r a e ((n, p) # ps) =
     (if userMatch p u then {Result x | x. GetMatchRule p s r a e = Some (Some x)} else {}) \<union> granted u s r a e ps"
  by (auto simp: granted_def)

lemma is_laxest_step:
  "is_laxest (insert (if StricterThan c d then d else c) S) x \<Longrightarrow> is_laxest (insert c (insert d S)) x"
  by (auto simp: is_laxest_def StricterThan_def split: if_splits)

lemma allow_loop_result:
  "\<exists>x. allow_loop u s r a e ps (fmp, fmr, c) =
      Some (fmp \<or> (\<exists>(n, p) \<in> set ps. userMatch p u), fmr \<or> granted u s r a e ps \<noteq> {}, x) \<and>
      is_laxest (insert c (granted u s r a e ps)) x"
proof (induction ps arbitrary: fmp fmr c)
  case Nil
  then show ?case by (simp add: is_laxest_def)
next
  case (Cons np ps)
  obtain n p where np: "np = (n, p)" by (cases np)
  obtain res where res: "GetMatchRule p s r a e = Some res" using GetMatchRule_total by blast
  show ?case
  proof (cases "userMatch p u")
    case False
    with Cons.IH [of fmp fmr c] show ?thesis by (simp add: np granted_Cons)
  next
    case True
    show ?thesis
    proof (cases res)
      case None
      with True Cons.IH [of True fmr c] res show ?thesis by (simp add: np granted_Cons)
    next
      case (Some x)
      let ?c = "if StricterThan c (Result x) then Result x else c"
      obtain y where y: "allow_loop u s r a e ps (True, True, ?c) = Some (True, True, y)"
        "is_laxest (insert ?c (granted u s r a e ps)) y" using Cons.IH [of True True ?c] by auto
      have "granted u s r a e (np # ps) = insert (Result x) (granted u s r a e ps)"
        using True res Some by (simp add: np granted_Cons)
      with y is_laxest_step [OF y(2)] True res Some show ?thesis by (simp add: np)
    qed
  qed
qed

lemma Strictness_Deny: "Strictness DenyR = 0"
  by (simp add: Strictness_def)

lemma is_laxest_drop_Deny:
  assumes "is_laxest (insert DenyR S) x" and "S \<subseteq> valid_results" and "S \<noteq> {}"
  shows "is_laxest S x"
proof (cases "x \<in> S")
  case False
  then have x: "x = DenyR" using assms(1) by (simp add: is_laxest_def)
  from assms(3) obtain y where y: "y \<in> S" by blast
  then have "Strictness y \<le> Strictness DenyR" using assms(1) x unfolding is_laxest_def by blast
  then have "Strictness y = Strictness DenyR" by (simp add: Strictness_Deny)
  moreover have "y \<in> valid_results" "DenyR \<in> valid_results" using y assms(2) by (auto simp: valid_results_def)
  ultimately have "y = DenyR" using Strictness_inj by blast
  with False x y show ?thesis by blast
qed (use assms(1) in \<open>auto simp: is_laxest_def\<close>)

lemma granted_valid:
  "\<forall>(n, p) \<in> set ps. valid_policy p \<Longrightarrow> granted u s r a e ps \<subseteq> valid_results"
  using GetMatchRule_valid by (fastforce simp: granted_def)

lemma allow_decision:
  assumes "valid_manager m" and "policies_for isAdmin m = Some ps"
  shows "\<exists>x. allowWithoutCache m isAdmin u s r a e = Some (unifyRbacResult isAdmin x) \<and>
     is_laxest (policy_grants isAdmin u s r a e ps \<union> default_grants isAdmin m s r a e) x"
proof -
  have valid: "\<forall>(n, p) \<in> set ps. valid_policy p"
    using assms by (cases isAdmin) (auto simp: valid_manager_def policies_for_def)
  obtain b1 b2 y where loop: "allow_loop u s r a e ps (False, False, DenyR) = Some (b1, b2, y)"
    and b: "b1 \<longleftrightarrow> (\<exists>(n, p) \<in> set ps. userMatch p u)" "b2 \<longleftrightarrow> granted u s r a e ps \<noteq> {}"
    and y: "is_laxest (insert DenyR (granted u s r a e ps)) y"
    using allow_loop_result [of u s r a e ps False False DenyR] by auto
  define c where "c = (if \<not> b1 then DenyR else if \<not> b2 then if isAdmin then AdminAllow else OwnerAllow else y)"
  have c: "is_laxest (policy_grants isAdmin u s r a e ps) c"
    using is_laxest_drop_Deny [OF y granted_valid [OF valid]] b
    by (auto simp: c_def policy_grants_def is_laxest_def split: if_splits)
  have eq: "allowWithoutCache m isAdmin u s r a e = (case (if isAdmin then None else defaultPolicy m) of
      None \<Rightarrow> Some (unifyRbacResult isAdmin c)
    | Some dp \<Rightarrow> do { rule \<leftarrow> GetMatchRule dp s r a e; Some (unifyRbacResult isAdmin (case rule of None \<Rightarrow> c
        | Some x \<Rightarrow> if StricterThan c (Result x) then Result x else c)) })"
    by (simp only: allowWithoutCache_def assms(2) option.case loop bind.bind_lunit prod.case Let_def c_def)
  show ?thesis
  proof (cases "if isAdmin then None else defaultPolicy m")
    case None
    then have "default_grants isAdmin m s r a e = {}" by (auto simp: default_grants_def split: if_splits)
    then show ?thesis unfolding eq None using c by auto
  next
    case (Some dp)
    obtain res where res: "GetMatchRule dp s r a e = Some res" using GetMatchRule_total by blast
    have dg: "default_grants isAdmin m s r a e = (case res of None \<Rightarrow> {} | Some x \<Rightarrow> {Result x})"
      using Some res by (auto simp: default_grants_def split: if_splits option.split)
    show ?thesis
    proof (cases res)
      case None
      then show ?thesis unfolding eq Some using c res dg by auto
    next
      case d: (Some x)
      have "is_laxest (policy_grants isAdmin u s r a e ps \<union> {Result x}) (if StricterThan c (Result x) then Result x else c)"
        using c by (auto simp: is_laxest_def StricterThan_def)
      then show ?thesis unfolding eq Some using res dg d by auto
    qed
  qed
qed

section \<open>Fetching from a service that answers consistently\<close>

definition consistent_service :: "policy_obj list \<Rightarrow> nat \<Rightarrow> nat \<Rightarrow> string + policy_obj list \<times> nat" where
  "consistent_service stored limit offset = Inr (take limit (drop offset stored), length stored)"

lemma file_page_append: "file_page (xs @ ys) acc = do { acc' \<leftarrow> file_page xs acc; file_page ys acc' }"
proof (induction xs acc rule: file_page.induct)
  case (2 obj objs pols admins)
  then show ?case by (cases "parseJsonPolicy obj") (auto split: sum.split)
qed simp

lemma fetch_loop_consistent:
  assumes "file_page (take offset stored) ([], []) = Some acc" and "offset \<le> length stored"
  shows "fetch_loop (consistent_service stored) offset acc =
     Some (case file_page stored ([], []) of None \<Rightarrow> FetchPanic | Some (p, a) \<Rightarrow> Fetched p a)"
  using assms
proof (induction "length stored - offset" arbitrary: offset acc rule: less_induct)
  case less
  let ?page = "take 2048 (drop offset stored)"
  have len: "length ?page = min 2048 (length stored - offset)" by simp
  have split: "file_page (take (offset + 2048) stored) ([], []) = file_page ?page acc"
    using less.prems(1) by (simp add: take_add file_page_append)
  show ?case
  proof (cases "file_page ?page acc")
    case None
    have "file_page stored ([], []) = do { acc' \<leftarrow> file_page (take (offset + 2048) stored) ([], []); file_page (drop (offset + 2048) stored) acc' }"
      by (metis append_take_drop_id file_page_append)
    with None split have "file_page stored ([], []) = None" by simp
    then show ?thesis using None by (subst fetch_loop.simps) (simp add: consistent_service_def)
  next
    case (Some acc')
    show ?thesis
    proof (cases "length stored \<le> offset + 2048")
      case True
      then have "file_page stored ([], []) = Some acc'" using Some split by simp
      then show ?thesis using Some True less.prems(2) len
        by (subst fetch_loop.simps) (auto simp: consistent_service_def split: prod.split)
    next
      case False
      then have "fetch_loop (consistent_service stored) (offset + 2048) acc' =
          Some (case file_page stored ([], []) of None \<Rightarrow> FetchPanic | Some (p, a) \<Rightarrow> Fetched p a)"
        by (intro less.hyps) (use Some split in auto)
      then show ?thesis using Some False len by (subst fetch_loop.simps) (simp add: consistent_service_def)
    qed
  qed
qed

lemma fetch_loop_stuck: "fetch_loop (\<lambda>limit offset. Inr ([], Suc n)) 0 acc = None"
proof (rule ccontr)
  let ?page = "\<lambda>limit offset. Inr ([], Suc n)"
  have stuck: "\<not> (page = ?page \<and> off = 0)" if "fetch_loop page off ac = Some res" for page off ac res
    using that by (rule fetch_loop.raw_induct [where P = "\<lambda>page off ac res. \<not> (page = ?page \<and> off = 0)", rotated])
      (auto split: option.splits if_splits)
  assume "fetch_loop ?page 0 acc \<noteq> None"
  then obtain res where "fetch_loop ?page 0 acc = Some res" by blast
  from stuck [OF this] show False by simp
qed

section \<open>Cached decisions\<close>

record request =
  q_admin :: bool
  q_user :: TokenCredential
  q_service :: string
  q_resource :: string
  q_action :: string
  q_extra :: "string list"

definition request_key :: "request \<Rightarrow> string" where
  "request_key q = queryKey (q_admin q) (q_user q) (q_service q) (q_resource q) (q_action q) (q_extra q)"

definition decision :: "SPolicyManager \<Rightarrow> request \<Rightarrow> TRbacResult option" where
  "decision m q = allowWithoutCache m (q_admin q) (Some (q_user q)) (q_service q) (q_resource q) (q_action q) (q_extra q)"

definition Allow_request :: "(nat \<Rightarrow> string \<Rightarrow> byte list) \<Rightarrow> int \<Rightarrow> SPolicyManager \<Rightarrow> request \<Rightarrow> (TRbacResult \<times> SPolicyManager) option" where
  "Allow_request digest now m q =
     Allow digest now m (q_admin q) (Some (q_user q)) (q_service q) (q_resource q) (q_action q) (q_extra q)"

text \<open>Requests asked one after another, each at its time.\<close>

fun allow_run :: "(nat \<Rightarrow> string \<Rightarrow> byte list) \<Rightarrow> (int \<times> request) list \<Rightarrow> SPolicyManager \<Rightarrow> TRbacResult list option" where
  "allow_run digest [] m = Some []"
| "allow_run digest ((now, q) # qs) m =
     do { (res, m') \<leftarrow> Allow_request digest now m q; rest \<leftarrow> allow_run digest qs m'; Some (res # rest) }"

lemma request_key_not_Nil: "request_key q \<noteq> []"
  by (simp add: request_key_def queryKey_def)

lemma decision_total: "\<exists>d. decision m q = Some d"
proof (cases "policies_for (q_admin q) m")
  case None
  then show ?thesis by (simp add: decision_def allowWithoutCache_def)
next
  case (Some ps)
  obtain b1 b2 y where "allow_loop (Some (q_user q)) (q_service q) (q_resource q) (q_action q) (q_extra q) ps
      (False, False, DenyR) = Some (b1, b2, y)"
    using allow_loop_result [of "Some (q_user q)" "q_service q" "q_resource q" "q_action q" "q_extra q" ps False False DenyR]
    by blast
  note loop = this
  show ?thesis
  proof (cases "if q_admin q then None else defaultPolicy m")
    case None
    then show ?thesis unfolding decision_def allowWithoutCache_def Some option.case loop bind.bind_lunit prod.case Let_def
      by simp
  next
    case (Some dp)
    obtain res where "GetMatchRule dp (q_service q) (q_resource q) (q_action q) (q_extra q) = Some res"
      using GetMatchRule_total by blast
    then show ?thesis
      unfolding decision_def allowWithoutCache_def \<open>policies_for (q_admin q) m = Some ps\<close> option.case loop bind.bind_lunit
        prod.case Let_def Some by simp
  qed
qed

lemma decision_cache: "decision (m\<lparr>pcache := c\<rparr>) q = decision m q"
proof -
  have "policies (m\<lparr>pcache := c\<rparr>) = policies m" "adminPolicies (m\<lparr>pcache := c\<rparr>) = adminPolicies m"
    "defaultPolicy (m\<lparr>pcache := c\<rparr>) = defaultPolicy m" by simp_all
  then show ?thesis unfolding decision_def allowWithoutCache_def policies_for_def by presburger
qed

definition decided :: "SPolicyManager \<Rightarrow> request set \<Rightarrow> string \<Rightarrow> TRbacResult \<Rightarrow> bool" where
  "decided m Q k v \<longleftrightarrow> (\<forall>q \<in> Q. request_key q = k \<longrightarrow> decision m q = Some v)"

lemma Allow_request_correct:
  assumes "pcache m = Some c" and "cache_agrees (cache_holds digest) (decided m Q) c"
    and q: "q \<in> Q" and "\<forall>q' \<in> Q. request_key q' = request_key q \<longrightarrow> decision m q' = decision m q"
  shows "\<exists>d c'. decision m q = Some d \<and> Allow_request digest now m q = Some (d, m\<lparr>pcache := Some c'\<rparr>) \<and>
     cache_agrees (cache_holds digest) (decided m Q) c'"
proof -
  obtain d where d: "decision m q = Some d" using decision_total by blast
  obtain val where val: "Get digest now c (request_key q) = Some val"
    "\<forall>v. val = Some v \<longrightarrow> decided m Q (request_key q) v"
    using hashcache.get_agrees [OF assms(2) request_key_not_Nil] by blast
  show ?thesis
  proof (cases val)
    case (Some v)
    then have "v = d" using val(2) q d by (auto simp: decided_def)
    moreover have "Allow_request digest now m q = Some (v, m)"
      using assms(1) val(1) Some by (simp add: Allow_request_def Allow_def request_key_def Let_def)
    ultimately show ?thesis using d assms(1,2) by (intro exI [of _ d] exI [of _ c]) simp
  next
    case None
    have "decided m Q (request_key q) d" using assms(4) d by (auto simp: decided_def)
    from hashcache.put_agrees [OF assms(2) request_key_not_Nil this, of now "[]"] obtain c' where
      c': "Set digest now c (request_key q) d [] = Some c'" "cache_agrees (cache_holds digest) (decided m Q) c'" by blast
    have "Allow_request digest now m q = Some (d, m\<lparr>pcache := Some c'\<rparr>)"
      using assms(1) val(1) None c'(1) d by (simp add: Allow_request_def Allow_def request_key_def decision_def Let_def)
    then show ?thesis using d c'(2) by blast
  qed
qed

lemma allow_run_correct:
  assumes "\<forall>q \<in> Q. \<forall>q' \<in> Q. request_key q' = request_key q \<longrightarrow> decision m q' = decision m q"
  shows "cache_agrees (cache_holds digest) (decided m Q) c \<Longrightarrow> snd ` set qs \<subseteq> Q \<Longrightarrow>
     allow_run digest qs (m\<lparr>pcache := Some c\<rparr>) = Some (map (\<lambda>(now, q). the (decision m q)) qs)"
proof (induction qs arbitrary: c)
  case (Cons nq qs)
  obtain now q where nq: "nq = (now, q)" by (cases nq)
  let ?m = "m\<lparr>pcache := Some c\<rparr>"
  have q: "q \<in> Q" using Cons.prems(2) nq by auto
  have dm: "decided ?m Q = decided m Q" by (simp add: decided_def decision_cache fun_eq_iff)
  have agr: "cache_agrees (cache_holds digest) (decided ?m Q) c" unfolding dm by (rule Cons.prems(1))
  have same: "\<forall>q' \<in> Q. request_key q' = request_key q \<longrightarrow> decision ?m q' = decision ?m q"
    unfolding decision_cache using assms q by blast
  have "pcache ?m = Some c" by simp
  from Allow_request_correct [OF this agr q same, of now] obtain d c' where
    ad: "decision ?m q = Some d" "Allow_request digest now ?m q = Some (d, ?m\<lparr>pcache := Some c'\<rparr>)"
    and c'': "cache_agrees (cache_holds digest) (decided ?m Q) c'" by (elim exE conjE)
  have c': "cache_agrees (cache_holds digest) (decided m Q) c'" using c'' unfolding dm .
  have d: "decision m q = Some d" using ad(1) unfolding decision_cache .
  have al: "Allow_request digest now ?m q = Some (d, m\<lparr>pcache := Some c'\<rparr>)" using ad(2) by simp
  have "snd ` set qs \<subseteq> Q" using Cons.prems(2) by auto
  from Cons.IH [OF c' this] show ?case unfolding nq allow_run.simps al bind.bind_lunit prod.case by (simp add: d)
qed simp

section \<open>Properties\<close>

lemma stored_decision:
  assumes "pcache m = Some c" and "cache_holds digest c h"
    and "expiry now (defaultTtl c) [] = 0 \<or> now' < expiry now (defaultTtl c) []"
    and "Get digest now c (request_key q) = Some None" and "request_key q' = request_key q"
  shows "\<exists>d m'. decision m q = Some d \<and> Allow_request digest now m q = Some (d, m') \<and>
     Allow_request digest now' m' q' = Some (d, m')"
proof -
  obtain d where d: "decision m q = Some d" using decision_total by blast
  obtain c' idx where c': "Set digest now c (request_key q) d [] = Some c'"
    "cache_holds digest c' (h(request_key q \<mapsto> (d, expiry now (defaultTtl c) [])))" "idx < csize c'"
    "table c' ! idx = \<lparr>nkey = request_key q, expire = expiry now (defaultTtl c) [], nvalue = Some d\<rparr>"
    using Set_stores [OF assms(2) request_key_not_Nil] by blast
  have get: "Get digest now' c' (request_key q) = Some (Some d)"
    by (rule stored_found [OF c'(2) request_key_not_Nil c'(3,4) assms(3)])
  have "Allow_request digest now m q = Some (d, m\<lparr>pcache := Some c'\<rparr>)"
    using assms(1,4) c'(1) d by (simp add: Allow_request_def Allow_def request_key_def decision_def Let_def)
  moreover have "Allow_request digest now' (m\<lparr>pcache := Some c'\<rparr>) q' = Some (d, m\<lparr>pcache := Some c'\<rparr>)"
    using get assms(5) by (simp add: Allow_request_def Allow_def request_key_def Let_def)
  ultimately show ?thesis using d by blast
qed

lemma Get_NewCache:
  fixes ttl :: int
  assumes "0 < sz" and "key \<noteq> []"
  shows "Get digest now (NewCache sz ttl :: 'v Cache) key = Some None"
proof -
  let ?c = "NewCache sz ttl :: 'v Cache"
  have holds: "cache_holds digest ?c Map.empty" using NewCache_holds [OF assms(1)] .
  obtain r where r: "Get digest now ?c key = Some r" using hashcache.get_total [OF holds] by blast
  then have "r = None" using Get_holds [OF holds assms(2)] by (cases r) fastforce+
  with r show ?thesis by simp
qed


definition demo_manager :: SPolicyManager where
  "demo_manager = \<lparr>policies = Some [(''p'', \<lparr>IsAdmin = False,
      Rules = [\<lparr>Service = ''compute'', Resource = [], Action = [], Extra = None, Result = OwnerAllow\<rparr>],
      Projects = [], Roles = []\<rparr>)], adminPolicies = Some [], defaultPolicy = None, lastSync = 0,
     failedRetryInterval = 1, refreshInterval = 2, pcache = Some (NewCache 2048 60000000000)\<rparr>"

definition demo_user :: TokenCredential where
  "demo_user = \<lparr>ProjectId = ''i'', DomainId = ''d'', UserId = ''u'', ProjectName = ''n'', TokenRoles = [''r''],
     SystemAdmin = False\<rparr>"

lemma demo_valid: "valid_manager demo_manager"
  by (simp add: valid_manager_def demo_manager_def valid_policy_def valid_results_def)


text \<open>
  An admin request is answered with deny or admin only, any other request never with admin.
\<close>

theorem allow_result_kind:
  assumes "valid_manager m"
  shows "allowWithoutCache m isAdmin u s r a e \<in>
     Some ` (if isAdmin then {DenyR, AdminAllow} else {DenyR, OwnerAllow, UserAllow, GuestAllow})"
proof (cases "policies_for isAdmin m")
  case None
  then show ?thesis by (simp add: allowWithoutCache_def)
next
  case (Some ps)
  have gr: "granted u s r a e ps \<subseteq> valid_results"
    using assms Some by (intro granted_valid) (cases isAdmin; auto simp: valid_manager_def policies_for_def)
  have "default_grants isAdmin m s r a e \<subseteq> valid_results"
    using assms GetMatchRule_valid by (auto simp: default_grants_def valid_manager_def split: option.splits)
  moreover have "policy_grants isAdmin u s r a e ps \<subseteq> valid_results"
    using gr by (auto simp: policy_grants_def valid_results_def)
  ultimately obtain x where "allowWithoutCache m isAdmin u s r a e = Some (unifyRbacResult isAdmin x)" "x \<in> valid_results"
    using allow_decision [OF assms Some, of u s r a e] unfolding is_laxest_def by blast
  moreover have "unifyRbacResult isAdmin x \<in> (if isAdmin then {DenyR, AdminAllow} else {DenyR, OwnerAllow, UserAllow, GuestAllow})"
    if "x \<in> valid_results" for x using that by (auto simp: unifyRbacResult_def valid_results_def)
  ultimately show ?thesis by (simp only: image_eqI)
qed

lemma allow_result_kind_witness:
  "allowWithoutCache demo_manager False (Some demo_user) ''compute'' ''servers'' ''list'' [] \<in>
     Some ` (if False then {DenyR, AdminAllow} else {DenyR, OwnerAllow, UserAllow, GuestAllow})"
  by (rule allow_result_kind [OF demo_valid])

text \<open>
  C7. The cache is invisible where it may be: when requests with the same cache key have the
  same decision, a manager with a fresh cache answers any sequence of requests, at any times,
  as the decision without a cache does.
\<close>

theorem cached_decisions_correct:
  assumes "pcache m = Some (NewCache 2048 ttl)"
    and "\<forall>q \<in> snd ` set qs. \<forall>q' \<in> snd ` set qs. request_key q' = request_key q \<longrightarrow> decision m q' = decision m q"
  shows "allow_run digest qs m = Some (map (\<lambda>(now, q). the (decision m q)) qs)"
proof -
  have "cache_agrees (cache_holds digest) (decided m (snd ` set qs)) (NewCache 2048 ttl)"
    unfolding cache_agrees_def using NewCache_holds [of 2048 digest ttl] by auto
  moreover have "m\<lparr>pcache := Some (NewCache 2048 ttl)\<rparr> = m" using assms(1) by (cases m) simp
  ultimately show ?thesis using allow_run_correct [OF assms(2), of digest "NewCache 2048 ttl" qs] by simp
qed

definition demo_request :: "string \<Rightarrow> string list \<Rightarrow> string \<Rightarrow> request" where
  "demo_request r e a = \<lparr>q_admin = False, q_user = demo_user, q_service = ''compute'', q_resource = r, q_action = a, q_extra = e\<rparr>"

lemma cached_decisions_correct_witness:
  "allow_run (\<lambda>_ _. [1, 2, 3, 4]) [(5, demo_request ''servers'' [] ''list''), (7, demo_request ''servers'' [] ''list'')] demo_manager =
     Some (map (\<lambda>(now, q). the (decision demo_manager q))
       [(5 :: int, demo_request ''servers'' [] ''list''), (7, demo_request ''servers'' [] ''list'')])"
  by (rule cached_decisions_correct [where ttl = 60000000000]) (simp_all add: demo_manager_def)

text \<open>
  Requests with the same cache key share the answer: the second is given what the first
  was, whatever its own decision. Keys join their parts with dashes, which resource names
  contain, so that different requests do have the same key.
\<close>

theorem key_collision_answers:
  assumes "pcache m = Some (NewCache 2048 ttl)" and "ttl > 1000000" and "now' < now + ttl"
    and "request_key q' = request_key q"
  shows "\<exists>d m'. Allow_request digest now m q = Some (d, m') \<and> decision m q = Some d \<and>
     Allow_request digest now' m' q' = Some (d, m')"
proof -
  have "expiry now (defaultTtl (NewCache 2048 ttl :: TRbacResult Cache)) [] = now + ttl"
    using assms(2) by (simp add: expiry_def NewCache_def)
  then show ?thesis
    using stored_decision [OF assms(1) NewCache_holds, where now = now and now' = now' and q = q and q' = q' and digest = digest]
      Get_NewCache [of 2048 "request_key q" digest now ttl, OF _ request_key_not_Nil] assms(3,4) by auto
qed

definition colliding_policies :: SPolicyManager where
  "colliding_policies = \<lparr>policies = Some [(''p'', \<lparr>IsAdmin = False,
      Rules = [\<lparr>Service = ''compute'', Resource = ''isolated-devices'', Action = [], Extra = None, Result = OwnerAllow\<rparr>,
               \<lparr>Service = ''compute'', Resource = ''isolated'', Action = [], Extra = None, Result = DenyR\<rparr>],
      Projects = [], Roles = []\<rparr>)], adminPolicies = None, defaultPolicy = None, lastSync = 0,
     failedRetryInterval = 1, refreshInterval = 2, pcache = None\<rparr>"

definition colliding_manager :: SPolicyManager where
  "colliding_manager = colliding_policies\<lparr>pcache := Some (NewCache 2048 60000000000)\<rparr>"

lemma colliding_decisions:
  "decision colliding_manager (demo_request ''isolated-devices'' [] ''list'') = Some OwnerAllow"
  "decision colliding_manager (demo_request ''isolated'' [''list''] ''devices'') = Some DenyR"
  by (simp_all add: colliding_manager_def decision_cache decision_def colliding_policies_def allowWithoutCache_def
    policies_for_def demo_request_def userMatch_def policy_Match_def GetMatchRule_def rule_match_def isWildMatch_def
    WILD_MATCH_def slice_of_def StricterThan_def Strictness_def stricterThan_def unifyRbacResult_def result_defs)

lemma colliding_keys:
  "request_key (demo_request ''isolated'' [''list''] ''devices'') = request_key (demo_request ''isolated-devices'' [] ''list'')"
  by (simp add: request_key_def queryKey_def demo_request_def demo_user_def WILD_MATCH_def)

lemma key_collision_answers_witness:
  "(\<exists>m'. Allow_request (\<lambda>_ _. [1, 2, 3, 4]) 5 colliding_manager (demo_request ''isolated-devices'' [] ''list'') = Some (OwnerAllow, m') \<and>
     Allow_request (\<lambda>_ _. [1, 2, 3, 4]) 7 m' (demo_request ''isolated'' [''list''] ''devices'') = Some (OwnerAllow, m')) \<and>
   decision colliding_manager (demo_request ''isolated'' [''list''] ''devices'') = Some DenyR"
proof -
  have "pcache colliding_manager = Some (NewCache 2048 60000000000)" by (simp add: colliding_manager_def)
  from key_collision_answers [OF this _ _ colliding_keys, of 7 5 "\<lambda>_ _. [1, 2, 3, 4]"] show ?thesis
    unfolding colliding_decisions by (simp only: option.inject) fastforce
qed


text \<open>
  A service that answers with an empty page while it reports a positive total keeps
  \<^verbatim>\<open>fetchPolicies\<close> asking for the same page for ever.
\<close>

theorem fetchPolicies_may_not_return:
  "fetchPolicies (\<lambda>limit offset. Inr ([], Suc n)) = None"
  unfolding fetchPolicies_def by (rule fetch_loop_stuck)

text \<open>
  An explanation request that is not an array is answered with a panic: the error value
  of \<^verbatim>\<open>explainPolicyInternal\<close> carries no request strings, and the caller reads the first of
  them before it looks at the error. So is an empty array.
\<close>

theorem explain_panics:
  "ExplainRpc rbac m u ((key, None) # params) name = None \<and> ExplainRpc rbac m u ((key, Some []) # params) name = None"
  by (simp add: explainPolicy_def explainPolicyInternal_def go_nth_def slice_of_def)

end
