(* ===== verification/Quota.thy ===== *)
theory Quota
  imports Policy_Manager
begin

text \<open>
  Project quotas: \<^verbatim>\<open>pkg/cloudcommon/db/quotas\<close> (manager, stores and HTTP handlers) and the
  two quota types that plug into it, \<^verbatim>\<open>pkg/compute/models/quotas.go\<close> and
  \<^verbatim>\<open>pkg/image/models/quotas.go\<close>.

  The interface \<^verbatim>\<open>IQuota\<close> is a record of operations, and the manager takes it as a value,
  as the Go manager takes a type. Quota fields are 64-bit integers, and adding wraps. The
  JSON codec, the tenant table and the counts in the database are arguments. Every locked
  operation of the manager is one step.
\<close>

section \<open>Helpers\<close>

definition NonNegative :: "int \<Rightarrow> int" where
  "NonNegative val = (if val < 0 then 0 else val)"

definition KeyName :: "string \<Rightarrow> string \<Rightarrow> string" where
  "KeyName prefix name = (if length prefix > 0 then prefix @ ''.'' @ name else name)"

text \<open>A JSON dictionary of integers; \<^verbatim>\<open>Update\<close> of dictionaries is \<^term>\<open>(++)\<close>.\<close>

type_synonym json_dict = "string \<rightharpoonup> int"

section \<open>The quota interface\<close>

record 'q IQuota =
  newQuota :: 'q
  i_FetchSystemQuota :: "'q \<Rightarrow> 'q"
  i_Update :: "'q \<Rightarrow> 'q \<Rightarrow> 'q"
  i_Add :: "'q \<Rightarrow> 'q \<Rightarrow> 'q"
  i_Sub :: "'q \<Rightarrow> 'q \<Rightarrow> 'q"
  i_Exceed :: "'q \<Rightarrow> 'q \<Rightarrow> 'q \<Rightarrow> string option"
  i_IsEmpty :: "'q \<Rightarrow> bool"
  i_ToJSON :: "'q \<Rightarrow> string \<Rightarrow> json_dict"

text \<open>
  The manager: the quota type, the codec (\<^verbatim>\<open>Unmarshal\<close> into a given quota), and the errors
  that fetching a tenant and writing its metadata give.
\<close>

record ('q, 'j) SQuotaManager =
  quotaType :: "'q IQuota"
  marshal :: "'q \<Rightarrow> 'j"
  unmarshal :: "'j \<Rightarrow> 'q \<Rightarrow> string + 'q"
  tenant_err :: "string \<Rightarrow> string option"
  meta_err :: "string \<Rightarrow> string option"

text \<open>The two stores: the memory store of pending usage and the metadata of the tenants.\<close>

record 'j quota_stores =
  store :: "string \<rightharpoonup> 'j"
  metadata :: "string \<rightharpoonup> 'j"

section \<open>Stores\<close>

definition NewMemoryQuotaStore :: "string \<rightharpoonup> 'j" where
  "NewMemoryQuotaStore = Map.empty"

definition memory_GetQuota :: "('q, 'j) SQuotaManager \<Rightarrow> 'j quota_stores \<Rightarrow> string \<Rightarrow> 'q \<Rightarrow> string + 'q" where
  "memory_GetQuota man st tenantId quota =
     (case store st tenantId of Some json \<Rightarrow> unmarshal man json quota | None \<Rightarrow> Inr quota)"

definition memory_SetQuota :: "('q, 'j) SQuotaManager \<Rightarrow> 'j quota_stores \<Rightarrow> string \<Rightarrow> 'q \<Rightarrow> string option \<times> 'j quota_stores" where
  "memory_SetQuota man st tenantId quota =
     (None, if i_IsEmpty (quotaType man) quota then st\<lparr>store := (store st)(tenantId := None)\<rparr>
            else st\<lparr>store := (store st)(tenantId \<mapsto> marshal man quota)\<rparr>)"

text \<open>Metadata that is missing or does not parse leaves the quota as it is.\<close>

definition db_GetQuota :: "('q, 'j) SQuotaManager \<Rightarrow> 'j quota_stores \<Rightarrow> string \<Rightarrow> 'q \<Rightarrow> string + 'q" where
  "db_GetQuota man st tenantId quota =
     (case tenant_err man tenantId of
        Some err \<Rightarrow> Inl err
      | None \<Rightarrow> (case metadata st tenantId of Some json \<Rightarrow> unmarshal man json quota | None \<Rightarrow> Inr quota))"

definition db_SetQuota :: "('q, 'j) SQuotaManager \<Rightarrow> 'j quota_stores \<Rightarrow> string \<Rightarrow> 'q \<Rightarrow> string option \<times> 'j quota_stores" where
  "db_SetQuota man st tenantId quota =
     (case tenant_err man tenantId of
        Some err \<Rightarrow> (Some err, st)
      | None \<Rightarrow>
          (case meta_err man tenantId of
             Some err \<Rightarrow> (Some err, st)
           | None \<Rightarrow> (None, st\<lparr>metadata := (metadata st)(tenantId \<mapsto> marshal man quota)\<rparr>)))"

section \<open>The manager\<close>

definition GetPendingUsage :: "('q, 'j) SQuotaManager \<Rightarrow> 'j quota_stores \<Rightarrow> string \<Rightarrow> 'q \<Rightarrow> string + 'q" where
  "GetPendingUsage man st projectId quota = memory_GetQuota man st projectId quota"

definition GetQuota :: "('q, 'j) SQuotaManager \<Rightarrow> 'j quota_stores \<Rightarrow> string \<Rightarrow> 'q \<Rightarrow> string + 'q" where
  "GetQuota man st projectId quota =
     (case db_GetQuota man st projectId quota of
        Inl err \<Rightarrow> Inl err
      | Inr q \<Rightarrow> Inr (if i_IsEmpty (quotaType man) q then i_FetchSystemQuota (quotaType man) q else q))"

definition SetQuota :: "('q, 'j) SQuotaManager \<Rightarrow> 'j quota_stores \<Rightarrow> string \<Rightarrow> 'q \<Rightarrow> string option \<times> 'j quota_stores" where
  "SetQuota man st projectId quota = db_SetQuota man st projectId quota"

text \<open>The usage \<^verbatim>\<open>FetchUsage\<close> reads from the database is the argument \<open>usage\<close>.\<close>

definition CheckQuota :: "('q, 'j) SQuotaManager \<Rightarrow> (string \<Rightarrow> 'q \<Rightarrow> string + 'q) \<Rightarrow> 'j quota_stores \<Rightarrow> string \<Rightarrow> 'q \<Rightarrow> string + 'q" where
  "CheckQuota man usage st projectId request =
     (case GetQuota man st projectId (newQuota (quotaType man)) of
        Inl err \<Rightarrow> Inl err
      | Inr stored \<Rightarrow>
          (case usage projectId (newQuota (quotaType man)) of
             Inl err \<Rightarrow> Inl err
           | Inr used \<Rightarrow>
               (case GetPendingUsage man st projectId (newQuota (quotaType man)) of
                  Inl err \<Rightarrow> Inl err
                | Inr pending \<Rightarrow>
                    let used = i_Add (quotaType man) used pending;
                        used = i_Add (quotaType man) used request in
                    (case i_Exceed (quotaType man) used request stored of
                       Some err \<Rightarrow> Inl err
                     | None \<Rightarrow> Inr used))))"

definition CheckSetPendingQuota :: "('q, 'j) SQuotaManager \<Rightarrow> (string \<Rightarrow> 'q \<Rightarrow> string + 'q) \<Rightarrow> 'j quota_stores \<Rightarrow> string \<Rightarrow> 'q \<Rightarrow>
    string option \<times> 'j quota_stores" where
  "CheckSetPendingQuota man usage st projectId quota =
     (case CheckQuota man usage st projectId quota of
        Inl err \<Rightarrow> (Some err, st)
      | Inr _ \<Rightarrow>
          (case memory_GetQuota man st projectId (newQuota (quotaType man)) of
             Inl err \<Rightarrow> (Some err, st)
           | Inr pending \<Rightarrow> memory_SetQuota man st projectId (i_Add (quotaType man) pending quota)))"

text \<open>\<open>localUsage\<close> is \<^term>\<open>None\<close> for nil; its new value is part of the result.\<close>

definition CancelPendingUsage :: "('q, 'j) SQuotaManager \<Rightarrow> 'j quota_stores \<Rightarrow> string \<Rightarrow> 'q option \<Rightarrow> 'q \<Rightarrow>
    string option \<times> 'j quota_stores \<times> 'q option" where
  "CancelPendingUsage man st projectId localUsage cancelUsage =
     (case memory_GetQuota man st projectId (newQuota (quotaType man)) of
        Inl err \<Rightarrow> (Some err, st, localUsage)
      | Inr quota \<Rightarrow>
          let (err, st') = memory_SetQuota man st projectId (i_Sub (quotaType man) quota cancelUsage) in
          (err, st', map_option (\<lambda>l. i_Sub (quotaType man) l cancelUsage) localUsage))"

section \<open>Compute quotas\<close>

record SQuota =
  Cpu :: int
  Memory :: int
  Storage :: int
  Port :: int
  Eip :: int
  Eport :: int
  Bw :: int
  Ebw :: int
  Keypair :: int
  Group :: int
  Secgroup :: int
  IsolatedDevice :: int
  Snapshot :: int

text \<open>The options that hold the default quotas, and the counts the database queries return.\<close>

record ComputeOptions =
  DefaultCpuQuota :: int
  DefaultMemoryQuota :: int
  DefaultStorageQuota :: int
  DefaultPortQuota :: int
  DefaultEipQuota :: int
  DefaultEportQuota :: int
  DefaultBwQuota :: int
  DefaultEbwQuota :: int
  DefaultKeypairQuota :: int
  DefaultGroupQuota :: int
  DefaultSecgroupQuota :: int
  DefaultIsolatedDeviceQuota :: int
  DefaultSnapshotQuota :: int

record compute_counts =
  diskSize :: int
  InternalNicCount :: int
  InternalVirtualNicCount :: int
  ExternalNicCount :: int
  ExternalVirtualNicCount :: int
  InternalBandwidth :: int
  ExternalBandwidth :: int
  TotalCpuCount :: int
  TotalMemSize :: int
  TotalIsolatedCount :: int
  eipTotal :: int
  snapshotCount :: int
  secgroupCount :: int

definition compute_newQuota :: SQuota where
  "compute_newQuota = \<lparr>Cpu = 0, Memory = 0, Storage = 0, Port = 0, Eip = 0, Eport = 0, Bw = 0, Ebw = 0, Keypair = 0, Group = 0, Secgroup = 0, IsolatedDevice = 0, Snapshot = 0\<rparr>"

definition compute_FetchSystemQuota :: "ComputeOptions \<Rightarrow> SQuota \<Rightarrow> SQuota" where
  "compute_FetchSystemQuota opts self = self\<lparr>
     Cpu := DefaultCpuQuota opts,
     Memory := DefaultMemoryQuota opts,
     Storage := DefaultStorageQuota opts,
     Port := DefaultPortQuota opts,
     Eip := DefaultEipQuota opts,
     Eport := DefaultEportQuota opts,
     Bw := DefaultBwQuota opts,
     Ebw := DefaultEbwQuota opts,
     Keypair := DefaultKeypairQuota opts,
     Group := DefaultGroupQuota opts,
     Secgroup := DefaultSecgroupQuota opts,
     IsolatedDevice := DefaultIsolatedDeviceQuota opts,
     Snapshot := DefaultSnapshotQuota opts\<rparr>"

definition compute_FetchUsage :: "compute_counts \<Rightarrow> SQuota \<Rightarrow> string + SQuota" where
  "compute_FetchUsage n self = Inr (self\<lparr>
     Cpu := TotalCpuCount n,
     Memory := TotalMemSize n,
     Storage := diskSize n,
     Port := wrap64 (InternalNicCount n + InternalVirtualNicCount n),
     Eip := eipTotal n,
     Eport := wrap64 (ExternalNicCount n + ExternalVirtualNicCount n),
     Bw := InternalBandwidth n,
     Ebw := ExternalBandwidth n,
     Keypair := 0,
     Group := 0,
     Secgroup := secgroupCount n,
     IsolatedDevice := TotalIsolatedCount n,
     Snapshot := snapshotCount n\<rparr>)"

definition compute_IsEmpty :: "SQuota \<Rightarrow> bool" where
  "compute_IsEmpty self =
     (if Cpu self > 0 then False
      else if Memory self > 0 then False
      else if Storage self > 0 then False
      else if Port self > 0 then False
      else if Eip self > 0 then False
      else if Eport self > 0 then False
      else if Bw self > 0 then False
      else if Ebw self > 0 then False
      else if Keypair self > 0 then False
      else if Group self > 0 then False
      else if Secgroup self > 0 then False
      else if IsolatedDevice self > 0 then False
      else if Snapshot self > 0 then False
      else True)"

definition compute_Add :: "SQuota \<Rightarrow> SQuota \<Rightarrow> SQuota" where
  "compute_Add self squota = \<lparr>
     Cpu = wrap64 (Cpu self + Cpu squota),
     Memory = wrap64 (Memory self + Memory squota),
     Storage = wrap64 (Storage self + Storage squota),
     Port = wrap64 (Port self + Port squota),
     Eip = wrap64 (Eip self + Eip squota),
     Eport = wrap64 (Eport self + Eport squota),
     Bw = wrap64 (Bw self + Bw squota),
     Ebw = wrap64 (Ebw self + Ebw squota),
     Keypair = wrap64 (Keypair self + Keypair squota),
     Group = wrap64 (Group self + Group squota),
     Secgroup = wrap64 (Secgroup self + Secgroup squota),
     IsolatedDevice = wrap64 (IsolatedDevice self + IsolatedDevice squota),
     Snapshot = wrap64 (Snapshot self + Snapshot squota)\<rparr>"

definition compute_Sub :: "SQuota \<Rightarrow> SQuota \<Rightarrow> SQuota" where
  "compute_Sub self squota = \<lparr>
     Cpu = NonNegative (wrap64 (Cpu self - Cpu squota)),
     Memory = NonNegative (wrap64 (Memory self - Memory squota)),
     Storage = NonNegative (wrap64 (Storage self - Storage squota)),
     Port = NonNegative (wrap64 (Port self - Port squota)),
     Eip = NonNegative (wrap64 (Eip self - Eip squota)),
     Eport = NonNegative (wrap64 (Eport self - Eport squota)),
     Bw = NonNegative (wrap64 (Bw self - Bw squota)),
     Ebw = NonNegative (wrap64 (Ebw self - Ebw squota)),
     Keypair = NonNegative (wrap64 (Keypair self - Keypair squota)),
     Group = NonNegative (wrap64 (Group self - Group squota)),
     Secgroup = NonNegative (wrap64 (Secgroup self - Secgroup squota)),
     IsolatedDevice = NonNegative (wrap64 (IsolatedDevice self - IsolatedDevice squota)),
     Snapshot = NonNegative (wrap64 (Snapshot self - Snapshot squota))\<rparr>"

definition compute_Update :: "SQuota \<Rightarrow> SQuota \<Rightarrow> SQuota" where
  "compute_Update self squota = \<lparr>
     Cpu = (if Cpu squota > 0 then Cpu squota else Cpu self),
     Memory = (if Memory squota > 0 then Memory squota else Memory self),
     Storage = (if Storage squota > 0 then Storage squota else Storage self),
     Port = (if Port squota > 0 then Port squota else Port self),
     Eip = (if Eip squota > 0 then Eip squota else Eip self),
     Eport = (if Eport squota > 0 then Eport squota else Eport self),
     Bw = (if Bw squota > 0 then Bw squota else Bw self),
     Ebw = (if Ebw squota > 0 then Ebw squota else Ebw self),
     Keypair = (if Keypair squota > 0 then Keypair squota else Keypair self),
     Group = (if Group squota > 0 then Group squota else Group self),
     Secgroup = (if Secgroup squota > 0 then Secgroup squota else Secgroup self),
     IsolatedDevice = (if IsolatedDevice squota > 0 then IsolatedDevice squota else IsolatedDevice self),
     Snapshot = (if Snapshot squota > 0 then Snapshot squota else Snapshot self)\<rparr>"

definition compute_Exceed :: "SQuota \<Rightarrow> SQuota \<Rightarrow> SQuota \<Rightarrow> string option" where
  "compute_Exceed self sreq squota =
     (if Cpu sreq > 0 \<and> Cpu self > Cpu squota then Some ''out of CPU quota''
      else if Memory sreq > 0 \<and> Memory self > Memory squota then Some ''out of memory quota''
      else if Storage sreq > 0 \<and> Storage self > Storage squota then Some ''out of storage quota''
      else if Port sreq > 0 \<and> Port self > Port squota then Some ''out of internal port quota''
      else if Eip sreq > 0 \<and> Eip self > Eip squota then Some ''out of eip quota''
      else if Eport sreq > 0 \<and> Eport self > Eport squota then Some ''out of external port quota''
      else if Bw sreq > 0 \<and> Bw self > Bw squota then Some ''out of internal bandwidth quota''
      else if Ebw sreq > 0 \<and> Ebw self > Ebw squota then Some ''out of external bandwidth quota''
      else if Keypair sreq > 0 \<and> Keypair self > Keypair squota then Some ''out of keypair quota''
      else if Group sreq > 0 \<and> Group self > Group squota then Some ''out of group quota''
      else if Secgroup sreq > 0 \<and> Secgroup self > Secgroup squota then Some ''out of secgroup quota''
      else if IsolatedDevice sreq > 0 \<and> IsolatedDevice self > IsolatedDevice squota then Some ''out of isolated device quota''
      else if Snapshot sreq > 0 \<and> Snapshot self > Snapshot squota then Some ''out of snapshot quota''
      else None)"

text \<open>\<open>json_Add\<close> is one conditional \<^verbatim>\<open>ret.Add\<close> of \<^verbatim>\<open>ToJSON\<close>.\<close>

definition json_Add :: "string \<Rightarrow> int \<Rightarrow> string \<Rightarrow> json_dict \<Rightarrow> json_dict" where
  "json_Add prefix v name ret = (if v > 0 then ret(KeyName prefix name \<mapsto> v) else ret)"

definition compute_ToJSON :: "SQuota \<Rightarrow> string \<Rightarrow> json_dict" where
  "compute_ToJSON self prefix =
     (let ret = Map.empty;
          ret = json_Add prefix (Cpu self) ''cpu'' ret;
          ret = json_Add prefix (Memory self) ''memory'' ret;
          ret = json_Add prefix (Storage self) ''storage'' ret;
          ret = json_Add prefix (Port self) ''port'' ret;
          ret = json_Add prefix (Eip self) ''eip'' ret;
          ret = json_Add prefix (Eport self) ''eport'' ret;
          ret = json_Add prefix (Bw self) ''bw'' ret;
          ret = json_Add prefix (Ebw self) ''ebw'' ret;
          ret = json_Add prefix (Keypair self) ''keypair'' ret;
          ret = json_Add prefix (Group self) ''group'' ret;
          ret = json_Add prefix (Secgroup self) ''secgroup'' ret;
          ret = json_Add prefix (IsolatedDevice self) ''isolated_device'' ret;
          ret = json_Add prefix (Snapshot self) ''snapshot'' ret
      in ret)"

definition compute_IQuota :: "ComputeOptions \<Rightarrow> SQuota IQuota" where
  "compute_IQuota opts = \<lparr>newQuota = compute_newQuota, i_FetchSystemQuota = compute_FetchSystemQuota opts,
     i_Update = compute_Update, i_Add = compute_Add, i_Sub = compute_Sub, i_Exceed = compute_Exceed,
     i_IsEmpty = compute_IsEmpty, i_ToJSON = compute_ToJSON\<rparr>"

section \<open>Image quotas\<close>

record ImageQuota =
  Image :: int

definition image_FetchSystemQuota :: "int \<Rightarrow> ImageQuota \<Rightarrow> ImageQuota" where
  "image_FetchSystemQuota DefaultImageQuota self = self\<lparr>Image := DefaultImageQuota\<rparr>"

definition image_FetchUsage :: "int \<Rightarrow> ImageQuota \<Rightarrow> string + ImageQuota" where
  "image_FetchUsage totalCount self = Inr (self\<lparr>Image := totalCount\<rparr>)"

definition image_IsEmpty :: "ImageQuota \<Rightarrow> bool" where
  "image_IsEmpty self = (if Image self > 0 then False else True)"

definition image_Add :: "ImageQuota \<Rightarrow> ImageQuota \<Rightarrow> ImageQuota" where
  "image_Add self squota = \<lparr>Image = wrap64 (Image self + Image squota)\<rparr>"

definition image_Sub :: "ImageQuota \<Rightarrow> ImageQuota \<Rightarrow> ImageQuota" where
  "image_Sub self squota = \<lparr>Image = NonNegative (wrap64 (Image self - Image squota))\<rparr>"

definition image_Update :: "ImageQuota \<Rightarrow> ImageQuota \<Rightarrow> ImageQuota" where
  "image_Update self squota = (if Image squota > 0 then self\<lparr>Image := Image squota\<rparr> else self)"

definition image_Exceed :: "ImageQuota \<Rightarrow> ImageQuota \<Rightarrow> ImageQuota \<Rightarrow> string option" where
  "image_Exceed self sreq squota =
     (if Image sreq > 0 \<and> Image self > Image squota then Some ''out of image quota'' else None)"

definition image_ToJSON :: "ImageQuota \<Rightarrow> string \<Rightarrow> json_dict" where
  "image_ToJSON self prefix = json_Add prefix (Image self) ''image'' Map.empty"

definition image_IQuota :: "int \<Rightarrow> ImageQuota IQuota" where
  "image_IQuota DefaultImageQuota = \<lparr>newQuota = \<lparr>Image = 0\<rparr>, i_FetchSystemQuota = image_FetchSystemQuota DefaultImageQuota,
     i_Update = image_Update, i_Add = image_Add, i_Sub = image_Sub, i_Exceed = image_Exceed,
     i_IsEmpty = image_IsEmpty, i_ToJSON = image_ToJSON\<rparr>"

section \<open>HTTP handlers\<close>

definition queryQuota :: "('q, 'j) SQuotaManager \<Rightarrow> (string \<Rightarrow> 'q \<Rightarrow> string + 'q) \<Rightarrow> 'j quota_stores \<Rightarrow> string \<Rightarrow> string + json_dict" where
  "queryQuota man usage st projectId =
     (case GetQuota man st projectId (newQuota (quotaType man)) of
        Inl err \<Rightarrow> Inl err
      | Inr quota \<Rightarrow>
          (case usage projectId (newQuota (quotaType man)) of
             Inl err \<Rightarrow> Inl err
           | Inr used \<Rightarrow>
               (case GetPendingUsage man st projectId (newQuota (quotaType man)) of
                  Inl err \<Rightarrow> Inl err
                | Inr pending \<Rightarrow>
                    Inr (Map.empty ++ i_ToJSON (quotaType man) quota [] ++ i_ToJSON (quotaType man) used ''usage''
                      ++ i_ToJSON (quotaType man) pending ''pending''))))"

datatype response =
    ForbiddenError string
  | TenantNotFoundError string
  | GeneralServerError string
  | InvalidInputError string
  | OutOfQuotaError string
  | SendJSON string json_dict

datatype tenant_lookup = Tenant string | NoRows | LookupError string

text \<open>
  What a handler reads: the access control setting, the service type and the keyword of the
  manager, the policy manager with its digests and clock (one reading for each decision),
  the token with its own \<^verbatim>\<open>IsAdminAllow\<close>, the tenant of the path, the tenant table, and the
  request body. \<^verbatim>\<open>FetchJSON\<close> returns an error or a JSON value, which is nil for an empty body.
\<close>

record 'j http_ctx =
  IsRbacEnabled :: bool
  GetServiceType :: string
  Keyword :: string
  digests :: "nat \<Rightarrow> string \<Rightarrow> byte list"
  clock1 :: int
  clock2 :: int
  h_userCred :: TokenCredential
  token_allow :: "string \<Rightarrow> string \<Rightarrow> string \<Rightarrow> bool"
  tenantid :: string
  FetchTenantByIdOrName :: "string \<Rightarrow> tenant_lookup"
  FetchJSON :: "string + 'j option"

definition resolve_tenant :: "'j http_ctx \<Rightarrow> response + string" where
  "resolve_tenant c =
     (case FetchTenantByIdOrName c (tenantid c) of
        Tenant tid \<Rightarrow> Inr tid
      | NoRows \<Rightarrow> Inl (TenantNotFoundError (tenantid c))
      | LookupError err \<Rightarrow> Inl (GeneralServerError err))"

text \<open>
  The admin check all three handlers make; the result of \<^verbatim>\<open>FilterPolicyCredential\<close> asks the
  policy manager only when access control is on, in which case the first branch applies.
\<close>

definition admin_allowed :: "'j http_ctx \<Rightarrow> int \<Rightarrow> SPolicyManager \<Rightarrow> string \<Rightarrow> string \<Rightarrow> (bool \<times> SPolicyManager) option" where
  "admin_allowed c now pm resource action =
     (if IsRbacEnabled c
      then do {
        (res, pm') \<leftarrow> Allow (digests c) now pm True (Some (h_userCred c)) (GetServiceType c) resource action [];
        Some (res = AdminAllow, pm') }
      else Some (token_allow c (GetServiceType c) resource action, pm))"

text \<open>A delegated call asks for the delegation first and, with access control on, for the resource.\<close>

definition delegated :: "'j http_ctx \<Rightarrow> SPolicyManager \<Rightarrow> string \<Rightarrow> (response option \<times> SPolicyManager) option" where
  "delegated c pm what =
     do {
       (isAllow, pm) \<leftarrow> admin_allowed c (clock1 c) pm ''delegate'' ''get'';
       if \<not> isAllow then Some (Some (ForbiddenError (''not allow to delegate '' @ what)), pm)
       else if IsRbacEnabled c then
         do {
           (res, pm) \<leftarrow> Allow (digests c) (clock2 c) pm True (Some (h_userCred c)) (GetServiceType c) (Keyword c) ''get'' [];
           Some (if res \<noteq> AdminAllow then Some (ForbiddenError ''not allow to query quota'') else None, pm) }
       else Some (None, pm) }"

definition getQuotaHanlder :: "('q, 'j) SQuotaManager \<Rightarrow> (string \<Rightarrow> 'q \<Rightarrow> string + 'q) \<Rightarrow> 'j http_ctx \<Rightarrow> SPolicyManager \<Rightarrow>
    'j quota_stores \<Rightarrow> (response \<times> SPolicyManager) option" where
  "getQuotaHanlder man usage c pm st =
     do {
       (who, pm) \<leftarrow>
         (if length (tenantid c) = 0 then
            if IsRbacEnabled c then
              do {
                (res, pm) \<leftarrow> Allow (digests c) (clock1 c) pm False (Some (h_userCred c)) (GetServiceType c) (Keyword c) ''get'' [];
                Some (if res = DenyR then Inl (ForbiddenError ''not allow to get quota'') else Inr (ProjectId (h_userCred c)), pm) }
            else Some (Inr (ProjectId (h_userCred c)), pm)
          else
            do {
              (refused, pm) \<leftarrow> delegated c pm ''query quota'';
              Some (case refused of Some r \<Rightarrow> Inl r | None \<Rightarrow> resolve_tenant c, pm) });
       Some (case who of
           Inl r \<Rightarrow> r
         | Inr projectId \<Rightarrow>
             (case queryQuota man usage st projectId of
                Inl err \<Rightarrow> GeneralServerError err
              | Inr quota \<Rightarrow> SendJSON (Keyword c) quota), pm) }"

definition target_project :: "'j http_ctx \<Rightarrow> response + string" where
  "target_project c = (if length (tenantid c) = 0 then Inr (ProjectId (h_userCred c)) else resolve_tenant c)"

text \<open>
  \<open>unmarshal_key\<close> is \<^verbatim>\<open>Unmarshal\<close> of the member named by the keyword. Calling it on a nil body
  panics.
\<close>

definition setQuotaHanlder :: "('q, 'j) SQuotaManager \<Rightarrow> ('j \<Rightarrow> string \<Rightarrow> 'q \<Rightarrow> string + 'q) \<Rightarrow> 'j http_ctx \<Rightarrow> SPolicyManager \<Rightarrow>
    'j quota_stores \<Rightarrow> (response \<times> SPolicyManager \<times> 'j quota_stores) option" where
  "setQuotaHanlder man unmarshal_key c pm st =
     do {
       (isAllow, pm) \<leftarrow> admin_allowed c (clock1 c) pm (Keyword c) ''update'';
       if \<not> isAllow then Some (ForbiddenError ''not allow to set quota'', pm, st)
       else case target_project c of
         Inl r \<Rightarrow> Some (r, pm, st)
       | Inr projectId \<Rightarrow>
           (case FetchJSON c of
              Inl err \<Rightarrow> Some (InvalidInputError ''fail to decode body'', pm, st)
            | Inr body \<Rightarrow>
                do {
                  json \<leftarrow> body;
                  Some (case unmarshal_key json (Keyword c) (newQuota (quotaType man)) of
                      Inl err \<Rightarrow> (InvalidInputError ''fail to decode body'', pm, st)
                    | Inr quota \<Rightarrow>
                        (case GetQuota man st projectId (newQuota (quotaType man)) of
                           Inl err \<Rightarrow> (GeneralServerError err, pm, st)
                         | Inr oquota \<Rightarrow>
                             let oquota = i_Update (quotaType man) oquota quota in
                             (case SetQuota man st projectId oquota of
                                (Some err, st') \<Rightarrow> (GeneralServerError err, pm, st')
                              | (None, st') \<Rightarrow> (SendJSON (Keyword c) (i_ToJSON (quotaType man) oquota []), pm, st')))) }) }"

text \<open>The error of \<^verbatim>\<open>FetchJSON\<close> is overwritten; its body is nil then.\<close>

definition checkQuotaHanlder :: "('q, 'j) SQuotaManager \<Rightarrow> (string \<Rightarrow> 'q \<Rightarrow> string + 'q) \<Rightarrow> ('j \<Rightarrow> string \<Rightarrow> 'q \<Rightarrow> string + 'q) \<Rightarrow>
    'j http_ctx \<Rightarrow> SPolicyManager \<Rightarrow> 'j quota_stores \<Rightarrow> (response \<times> SPolicyManager) option" where
  "checkQuotaHanlder man usage unmarshal_key c pm st =
     do {
       (refused, pm) \<leftarrow> delegated c pm ''check quota'';
       case refused of
         Some r \<Rightarrow> Some (r, pm)
       | None \<Rightarrow>
           (case target_project c of
              Inl r \<Rightarrow> Some (r, pm)
            | Inr projectId \<Rightarrow>
                do {
                  json \<leftarrow> (case FetchJSON c of Inl _ \<Rightarrow> None | Inr body \<Rightarrow> body);
                  Some (case unmarshal_key json (Keyword c) (newQuota (quotaType man)) of
                      Inl err \<Rightarrow> InvalidInputError ''fail to decode body''
                    | Inr quota \<Rightarrow>
                        (case CheckQuota man usage st projectId quota of
                           Inl err \<Rightarrow> OutOfQuotaError err
                         | Inr used \<Rightarrow> SendJSON (Keyword c) (i_ToJSON (quotaType man) used [])), pm) }) }"

section \<open>The contract of a quota type\<close>

text \<open>A quota is determined by its components, and the operations work on each of them.\<close>

locale quota_type =
  fixes ops :: "'q IQuota" and amt :: "'q \<Rightarrow> 'c \<Rightarrow> int"
  assumes amt_new: "amt (newQuota ops) c = 0"
    and amt_Add: "amt (i_Add ops a b) c = wrap64 (amt a c + amt b c)"
    and amt_Sub: "amt (i_Sub ops a b) c = NonNegative (wrap64 (amt a c - amt b c))"
    and amt_Update: "amt (i_Update ops a b) c = (if amt b c > 0 then amt b c else amt a c)"
    and Exceed_iff: "i_Exceed ops u r l = None \<longleftrightarrow> (\<forall>c. amt r c > 0 \<longrightarrow> amt u c \<le> amt l c)"
    and IsEmpty_iff: "i_IsEmpty ops q \<longleftrightarrow> (\<forall>c. amt q c \<le> 0)"
    and amt_ext: "(\<And>c. amt a c = amt b c) \<Longrightarrow> a = b"

text \<open>
  The protocol of the services: reserve (\<^verbatim>\<open>CheckSetPendingQuota\<close>), create the resources,
  release the reservation (\<^verbatim>\<open>CancelPendingUsage\<close>), in any interleaving over projects and
  requests. A held reservation carries whether its resources exist already; resources may
  be deleted at any time, and a reservation may be released without creating anything.
\<close>

record ('q, 'j) quota_world =
  qstores :: "'j quota_stores"
  used :: "string \<Rightarrow> 'q"
  held :: "(string \<times> 'q \<times> bool) list"

definition small :: "('q \<Rightarrow> 'c \<Rightarrow> int) \<Rightarrow> 'q \<Rightarrow> bool" where
  "small amt q \<longleftrightarrow> (\<forall>c. 0 \<le> amt q c \<and> amt q c \<le> 2 ^ 60)"

inductive quota_step :: "('q, 'j) SQuotaManager \<Rightarrow> ('q \<Rightarrow> 'c \<Rightarrow> int) \<Rightarrow> ('q, 'j) quota_world \<Rightarrow> ('q, 'j) quota_world \<Rightarrow> bool"
  for man amt where
  reserve: "small amt q \<Longrightarrow> CheckSetPendingQuota man (\<lambda>p _. Inr (used w p)) (qstores w) p q = (None, st) \<Longrightarrow>
     quota_step man amt w (w\<lparr>qstores := st, held := held w @ [(p, q, False)]\<rparr>)"
| refuse: "CheckSetPendingQuota man (\<lambda>p _. Inr (used w p)) (qstores w) p q = (Some err, st) \<Longrightarrow>
     quota_step man amt w (w\<lparr>qstores := st\<rparr>)"
| create: "held w = xs @ (p, q, False) # ys \<Longrightarrow> (\<And>c. amt u c = amt (used w p) c + amt q c) \<Longrightarrow>
     quota_step man amt w (w\<lparr>used := (used w)(p := u), held := xs @ (p, q, True) # ys\<rparr>)"
| release: "held w = xs @ (p, q, b) # ys \<Longrightarrow> CancelPendingUsage man (qstores w) p l q = (err, st, l') \<Longrightarrow>
     quota_step man amt w (w\<lparr>qstores := st, held := xs @ ys\<rparr>)"
| delete: "(\<And>c. 0 \<le> amt u c \<and> amt u c \<le> amt (used w p) c) \<Longrightarrow>
     quota_step man amt w (w\<lparr>used := (used w)(p := u)\<rparr>)"

definition quota_init :: "('q, 'j) SQuotaManager \<Rightarrow> ('q \<Rightarrow> 'c \<Rightarrow> int) \<Rightarrow> (string \<Rightarrow> 'q) \<Rightarrow> ('q, 'j) quota_world \<Rightarrow> bool" where
  "quota_init man amt limit w \<longleftrightarrow> held w = [] \<and> store (qstores w) = NewMemoryQuotaStore \<and>
     (\<forall>p. GetQuota man (qstores w) p (newQuota (quotaType man)) = Inr (limit p)) \<and>
     (\<forall>p. small amt (limit p)) \<and> (\<forall>p c. 0 \<le> amt (used w p) c \<and> amt (used w p) c \<le> amt (limit p) c)"

definition held_sum :: "('q \<Rightarrow> 'c \<Rightarrow> int) \<Rightarrow> (bool \<Rightarrow> bool) \<Rightarrow> (string \<times> 'q \<times> bool) list \<Rightarrow> string \<Rightarrow> 'c \<Rightarrow> int" where
  "held_sum amt sel hs p c = sum_list (map (\<lambda>(p', q, b). if p' = p \<and> sel b then amt q c else 0) hs)"

definition quota_inv :: "('q, 'j) SQuotaManager \<Rightarrow> ('q \<Rightarrow> 'c \<Rightarrow> int) \<Rightarrow> (string \<Rightarrow> 'q) \<Rightarrow> ('q, 'j) quota_world \<Rightarrow> bool" where
  "quota_inv man amt limit w \<longleftrightarrow>
     (\<forall>p. GetQuota man (qstores w) p (newQuota (quotaType man)) = Inr (limit p)) \<and>
     (\<forall>p. small amt (limit p)) \<and> (\<forall>(p, q, b) \<in> set (held w). small amt q) \<and>
     (\<forall>p. \<exists>pend. memory_GetQuota man (qstores w) p (newQuota (quotaType man)) = Inr pend \<and>
        (\<forall>c. amt pend c = held_sum amt (\<lambda>_. True) (held w) p c \<and> amt pend c \<le> 2 ^ 60)) \<and>
     (\<forall>p c. 0 \<le> amt (used w p) c \<and> amt (used w p) c + held_sum amt Not (held w) p c \<le> amt (limit p) c)"

lemma held_sum_simps [simp]:
  "held_sum amt sel [] p c = 0"
  "held_sum amt sel ((p', q, b) # hs) p c = (if p' = p \<and> sel b then amt q c else 0) + held_sum amt sel hs p c"
  "held_sum amt sel (xs @ ys) p c = held_sum amt sel xs p c + held_sum amt sel ys p c"
  by (simp_all add: held_sum_def)

lemma held_sum_nonneg: "\<forall>(p, q, b) \<in> set hs. small amt q \<Longrightarrow> 0 \<le> held_sum amt sel hs p c"
  by (induction hs) (auto simp: small_def)

lemma held_sum_le: "\<forall>(p, q, b) \<in> set hs. small amt q \<Longrightarrow> held_sum amt sel hs p c \<le> held_sum amt (\<lambda>_. True) hs p c"
  by (induction hs) (auto simp: small_def add_increasing)

lemma memory_SetQuota_metadata: "memory_SetQuota man st p q = (e, st') \<Longrightarrow> metadata st' = metadata st"
  by (auto simp: memory_SetQuota_def split: if_splits)

lemma GetQuota_metadata: "metadata st' = metadata st \<Longrightarrow> GetQuota man st' p q = GetQuota man st p q"
  unfolding GetQuota_def db_GetQuota_def by (erule ssubst) (rule refl)

lemma CheckSetPending_metadata: "CheckSetPendingQuota man usage st p q = (e, st') \<Longrightarrow> metadata st' = metadata st"
  by (auto simp: CheckSetPendingQuota_def memory_SetQuota_metadata split: sum.splits)

lemma CancelPending_metadata: "CancelPendingUsage man st p l q = (e, st', l') \<Longrightarrow> metadata st' = metadata st"
  by (auto simp: CancelPendingUsage_def memory_SetQuota_metadata split: sum.splits prod.splits)

lemma memory_Get_other: "memory_SetQuota man st p q = (e, st') \<Longrightarrow> p' \<noteq> p \<Longrightarrow> memory_GetQuota man st' p' z = memory_GetQuota man st p' z"
  by (auto simp: memory_SetQuota_def memory_GetQuota_def split: if_splits)

lemma in_int64_small: "0 \<le> x \<Longrightarrow> x \<le> 3 * 2 ^ 60 \<Longrightarrow> in_int64 x"
  by (simp add: in_int64_def)

context quota_type
begin

text \<open>A non-negative quota just stored is read back, also when storing it deleted the entry.\<close>

lemma memory_set_get:
  assumes "quotaType man = ops" and "\<And>q. unmarshal man (marshal man q) (newQuota ops) = Inr q"
    and "\<And>c. 0 \<le> amt q c"
  shows "\<exists>st'. memory_SetQuota man st p q = (None, st') \<and> memory_GetQuota man st' p (newQuota ops) = Inr q"
proof (cases "i_IsEmpty ops q")
  case True
  then have "q = newQuota ops" using assms(3) by (intro amt_ext) (simp add: IsEmpty_iff amt_new antisym)
  with True show ?thesis by (simp add: memory_SetQuota_def memory_GetQuota_def assms(1))
next
  case False
  then show ?thesis by (simp add: memory_SetQuota_def memory_GetQuota_def assms(1,2))
qed

lemma add_small:
  assumes "0 \<le> amt a c" "amt a c \<le> 2 * 2 ^ 60" "0 \<le> amt b c" "amt b c \<le> 2 ^ 60"
  shows "amt (i_Add ops a b) c = amt a c + amt b c"
  using assms by (simp add: amt_Add in_int64_small)

lemma check_accepts:
  assumes ops: "quotaType man = ops" and "CheckQuota man usage st p q = Inr u"
    and "GetQuota man st p (newQuota ops) = Inr l" and "usage p (newQuota ops) = Inr us"
    and "memory_GetQuota man st p (newQuota ops) = Inr pend"
    and "\<And>c. 0 \<le> amt us c \<and> amt us c \<le> 2 ^ 60" and "\<And>c. 0 \<le> amt pend c \<and> amt pend c \<le> 2 ^ 60" and "small amt q"
    and "amt q c > 0"
  shows "amt us c + amt pend c + amt q c \<le> amt l c"
proof -
  have u: "i_Exceed ops (i_Add ops (i_Add ops us pend) q) q l = None"
    using assms(2-5) by (simp add: CheckQuota_def ops GetPendingUsage_def Let_def split: option.splits)
  have a: "amt (i_Add ops us pend) c = amt us c + amt pend c"
    using assms(6,7) [of c] by (intro add_small) auto
  have "amt (i_Add ops (i_Add ops us pend) q) c = amt us c + amt pend c + amt q c"
    using assms(6,7) [of c] assms(8) a by (subst add_small) (auto simp: small_def)
  with u assms(9) show ?thesis unfolding Exceed_iff by auto
qed

lemma reserve_result:
  assumes ops: "quotaType man = ops" and codec: "\<And>q. unmarshal man (marshal man q) (newQuota ops) = Inr q"
    and res: "CheckSetPendingQuota man usage st p q = (None, st')"
    and pend: "memory_GetQuota man st p (newQuota ops) = Inr pend" "\<And>c. 0 \<le> amt pend c \<and> amt pend c \<le> 2 ^ 60"
    and q: "small amt q"
  shows "\<exists>u. CheckQuota man usage st p q = Inr u"
    and "\<exists>pend'. memory_GetQuota man st' p (newQuota ops) = Inr pend' \<and> (\<forall>c. amt pend' c = amt pend c + amt q c)"
    and "p' \<noteq> p \<Longrightarrow> memory_GetQuota man st' p' z = memory_GetQuota man st p' z"
proof -
  show "\<exists>u. CheckQuota man usage st p q = Inr u"
    using res by (auto simp: CheckSetPendingQuota_def split: sum.splits)
  have set: "memory_SetQuota man st p (i_Add ops pend q) = (None, st')"
    using res pend(1) by (auto simp: CheckSetPendingQuota_def ops split: sum.splits)
  have sum: "amt (i_Add ops pend q) c = amt pend c + amt q c" for c
    using pend(2) [of c] q by (intro add_small) (auto simp: small_def)
  have "0 \<le> amt (i_Add ops pend q) c" for c using sum pend(2) [of c] q by (simp add: small_def)
  from memory_set_get [OF ops codec this, of st p] set
  have "memory_GetQuota man st' p (newQuota ops) = Inr (i_Add ops pend q)" by auto
  with sum show "\<exists>pend'. memory_GetQuota man st' p (newQuota ops) = Inr pend' \<and> (\<forall>c. amt pend' c = amt pend c + amt q c)"
    by blast
  show "p' \<noteq> p \<Longrightarrow> memory_GetQuota man st' p' z = memory_GetQuota man st p' z"
    by (rule memory_Get_other [OF set])
qed

lemma release_result:
  assumes ops: "quotaType man = ops" and codec: "\<And>q. unmarshal man (marshal man q) (newQuota ops) = Inr q"
    and res: "CancelPendingUsage man st p l q = (err, st', l')"
    and pend: "memory_GetQuota man st p (newQuota ops) = Inr pend" "\<And>c. amt pend c \<le> 2 ^ 60"
    and q: "small amt q" "\<And>c. amt q c \<le> amt pend c"
  shows "\<exists>pend'. memory_GetQuota man st' p (newQuota ops) = Inr pend' \<and> (\<forall>c. amt pend' c = amt pend c - amt q c)"
    and "p' \<noteq> p \<Longrightarrow> memory_GetQuota man st' p' z = memory_GetQuota man st p' z"
proof -
  have set: "memory_SetQuota man st p (i_Sub ops pend q) = (err, st')"
    using res pend(1) by (auto simp: CancelPendingUsage_def ops split: prod.splits)
  have sub: "amt (i_Sub ops pend q) c = amt pend c - amt q c" for c
  proof -
    have "0 \<le> amt q c" "amt q c \<le> amt pend c" "amt pend c \<le> 2 ^ 60" using q pend(2) by (simp_all add: small_def)
    then show ?thesis by (simp add: amt_Sub in_int64_small NonNegative_def)
  qed
  have "0 \<le> amt (i_Sub ops pend q) c" for c using sub q(2) by simp
  from memory_set_get [OF ops codec this, of st p] set
  have "memory_GetQuota man st' p (newQuota ops) = Inr (i_Sub ops pend q)" by auto
  with sub show "\<exists>pend'. memory_GetQuota man st' p (newQuota ops) = Inr pend' \<and> (\<forall>c. amt pend' c = amt pend c - amt q c)"
    by blast
  show "p' \<noteq> p \<Longrightarrow> memory_GetQuota man st' p' z = memory_GetQuota man st p' z"
    by (rule memory_Get_other [OF set])
qed

lemma inv_init_quota: "quotaType man = ops \<Longrightarrow> quota_init man amt limit w \<Longrightarrow> quota_inv man amt limit w"
  by (auto simp: quota_init_def quota_inv_def memory_GetQuota_def NewMemoryQuotaStore_def amt_new)

text \<open>The invariant as the facts the steps use, and what a step has to show.\<close>

lemma inv_quotaE:
  assumes "quotaType man = ops" and "quota_inv man amt limit w"
  obtains pend where "\<And>p. GetQuota man (qstores w) p (newQuota ops) = Inr (limit p)" "\<And>p. small amt (limit p)"
    and "\<forall>(p, q, b) \<in> set (held w). small amt q"
    and "\<And>p. memory_GetQuota man (qstores w) p (newQuota ops) = Inr (pend p)"
    and "\<And>p c. amt (pend p) c = held_sum amt (\<lambda>_. True) (held w) p c" and "\<And>p c. amt (pend p) c \<le> 2 ^ 60"
    and "\<And>p c. 0 \<le> amt (pend p) c" and "\<And>p c. 0 \<le> amt (used w p) c"
    and "\<And>p c. amt (used w p) c + held_sum amt Not (held w) p c \<le> amt (limit p) c"
proof -
  have sm: "\<forall>(p, q, b) \<in> set (held w). small amt q" using assms(2) by (simp add: quota_inv_def)
  obtain pend where "\<forall>p. memory_GetQuota man (qstores w) p (newQuota ops) = Inr (pend p) \<and>
      (\<forall>c. amt (pend p) c = held_sum amt (\<lambda>_. True) (held w) p c \<and> amt (pend p) c \<le> 2 ^ 60)"
    using assms unfolding quota_inv_def by metis
  then show thesis using that [of pend] assms sm held_sum_nonneg [OF sm] by (simp add: quota_inv_def)
qed

lemma inv_quotaI:
  assumes "quotaType man = ops" and "quota_inv man amt limit w" and "metadata (qstores w') = metadata (qstores w)"
    and "\<forall>(p, q, b) \<in> set (held w'). small amt q"
    and "\<And>p. \<exists>pe. memory_GetQuota man (qstores w') p (newQuota ops) = Inr pe \<and>
       (\<forall>c. amt pe c = held_sum amt (\<lambda>_. True) (held w') p c \<and> amt pe c \<le> 2 ^ 60)"
    and "\<And>p c. 0 \<le> amt (used w' p) c \<and> amt (used w' p) c + held_sum amt Not (held w') p c \<le> amt (limit p) c"
  shows "quota_inv man amt limit w'"
  using assms by (auto simp: quota_inv_def GetQuota_metadata [OF assms(3)])

lemma inv_reserve:
  assumes ops: "quotaType man = ops" and codec: "\<And>q. unmarshal man (marshal man q) (newQuota ops) = Inr q"
    and inv: "quota_inv man amt limit w"
    and reserve: "w' = w\<lparr>qstores := st, held := held w @ [(p, q, False)]\<rparr>" "small amt q"
      "CheckSetPendingQuota man (\<lambda>p _. Inr (used w p)) (qstores w) p q = (None, st)"
  shows "quota_inv man amt limit w'"
proof -
  obtain pend where lim: "\<And>p. GetQuota man (qstores w) p (newQuota ops) = Inr (limit p)" "\<And>p. small amt (limit p)"
    and sm: "\<forall>(p, q, b) \<in> set (held w). small amt q"
    and pend: "\<And>p. memory_GetQuota man (qstores w) p (newQuota ops) = Inr (pend p)"
      "\<And>p c. amt (pend p) c = held_sum amt (\<lambda>_. True) (held w) p c" "\<And>p c. amt (pend p) c \<le> 2 ^ 60"
    and pend0: "\<And>p c. 0 \<le> amt (pend p) c" and us: "\<And>p c. 0 \<le> amt (used w p) c"
      "\<And>p c. amt (used w p) c + held_sum amt Not (held w) p c \<le> amt (limit p) c"
    using inv_quotaE [OF ops inv] by blast
  note stay = inv_quotaI [OF ops inv]
  note res = reserve_result [OF ops codec reserve(3) pend(1) _ reserve(2)]
  obtain u where u: "CheckQuota man (\<lambda>p _. Inr (used w p)) (qstores w) p q = Inr u" using res(1) pend0 pend(3) by blast
  have q0: "0 \<le> amt q c" for c using reserve(2) by (simp add: small_def)
  have us60: "amt (used w p) c \<le> 2 ^ 60" for c
    using us [of p c] lim(2) [of p] held_sum_nonneg [OF sm, of Not p c] unfolding small_def by (smt (verit))
  have acc: "amt (used w p) c + amt (pend p) c + amt q c \<le> amt (limit p) c" if "amt q c > 0" for c
    using check_accepts [OF ops u lim(1) _ pend(1) _ _ reserve(2) that] us us60 pend0 pend(3) by blast
  obtain pend' where p': "memory_GetQuota man st p (newQuota ops) = Inr pend'" "\<And>c. amt pend' c = amt (pend p) c + amt q c"
    using res(2) pend0 pend(3) by blast
  have other: "p' \<noteq> p \<Longrightarrow> memory_GetQuota man st p' (newQuota ops) = Inr (pend p')" for p'
    using res(3) pend0 pend(1,3) by metis
  show ?thesis
  proof (rule stay)
    show "metadata (qstores w') = metadata (qstores w)" using reserve CheckSetPending_metadata by simp
    show "\<forall>(p, q, b) \<in> set (held w'). small amt q" using sm reserve by auto
    show "0 \<le> amt (used w' p') c \<and> amt (used w' p') c + held_sum amt Not (held w') p' c \<le> amt (limit p') c" for p' c
      using us [of p' c] acc [of c] q0 [of c] held_sum_le [OF sm, of Not p' c] pend(2) [of p' c] reserve(1)
      by (cases "amt q c > 0") auto
    show "\<exists>pe. memory_GetQuota man (qstores w') p' (newQuota ops) = Inr pe \<and>
       (\<forall>c. amt pe c = held_sum amt (\<lambda>_. True) (held w') p' c \<and> amt pe c \<le> 2 ^ 60)" for p'
    proof (cases "p' = p")
      case True
      have "amt pend' c \<le> 2 ^ 60" for c
        using acc [of c] q0 [of c] p'(2) us(1) [of p c] lim(2) [of p] pend(3) [of p c]
        unfolding small_def by (smt (verit))
      then show ?thesis using True p' pend(2) reserve(1) by auto
    next
      case False
      then show ?thesis using other pend(2,3) reserve(1) by auto
    qed
  qed
qed

lemma inv_create:
  assumes ops: "quotaType man = ops" and inv: "quota_inv man amt limit w"
    and create: "w' = w\<lparr>used := (used w)(p := u), held := xs @ (p, q, True) # ys\<rparr>" "held w = xs @ (p, q, False) # ys"
      "\<And>c. amt u c = amt (used w p) c + amt q c"
  shows "quota_inv man amt limit w'"
proof -
  obtain pend where lim: "\<And>p. GetQuota man (qstores w) p (newQuota ops) = Inr (limit p)" "\<And>p. small amt (limit p)"
    and sm: "\<forall>(p, q, b) \<in> set (held w). small amt q"
    and pend: "\<And>p. memory_GetQuota man (qstores w) p (newQuota ops) = Inr (pend p)"
      "\<And>p c. amt (pend p) c = held_sum amt (\<lambda>_. True) (held w) p c" "\<And>p c. amt (pend p) c \<le> 2 ^ 60"
    and pend0: "\<And>p c. 0 \<le> amt (pend p) c" and us: "\<And>p c. 0 \<le> amt (used w p) c"
      "\<And>p c. amt (used w p) c + held_sum amt Not (held w) p c \<le> amt (limit p) c"
    using inv_quotaE [OF ops inv] by blast
  note stay = inv_quotaI [OF ops inv]
  have q0: "0 \<le> amt q c" for c using sm create(2) by (auto simp: small_def)
  show ?thesis
  proof (rule stay)
    show "0 \<le> amt (used w' p') c \<and> amt (used w' p') c + held_sum amt Not (held w') p' c \<le> amt (limit p') c" for p' c
      using us [of p' c] create q0 [of c] by auto
    show "\<exists>pe. memory_GetQuota man (qstores w') p' (newQuota ops) = Inr pe \<and>
       (\<forall>c. amt pe c = held_sum amt (\<lambda>_. True) (held w') p' c \<and> amt pe c \<le> 2 ^ 60)" for p'
      using pend(1) [of p'] pend(2,3) [of p'] create(1,2) by auto
  qed (use sm create in auto)
qed

lemma inv_release:
  assumes ops: "quotaType man = ops" and codec: "\<And>q. unmarshal man (marshal man q) (newQuota ops) = Inr q"
    and inv: "quota_inv man amt limit w"
    and release: "w' = w\<lparr>qstores := st, held := xs @ ys\<rparr>" "held w = xs @ (p, q, b) # ys"
      "CancelPendingUsage man (qstores w) p l q = (err, st, l')"
  shows "quota_inv man amt limit w'"
proof -
  obtain pend where lim: "\<And>p. GetQuota man (qstores w) p (newQuota ops) = Inr (limit p)" "\<And>p. small amt (limit p)"
    and sm: "\<forall>(p, q, b) \<in> set (held w). small amt q"
    and pend: "\<And>p. memory_GetQuota man (qstores w) p (newQuota ops) = Inr (pend p)"
      "\<And>p c. amt (pend p) c = held_sum amt (\<lambda>_. True) (held w) p c" "\<And>p c. amt (pend p) c \<le> 2 ^ 60"
    and pend0: "\<And>p c. 0 \<le> amt (pend p) c" and us: "\<And>p c. 0 \<le> amt (used w p) c"
      "\<And>p c. amt (used w p) c + held_sum amt Not (held w) p c \<le> amt (limit p) c"
    using inv_quotaE [OF ops inv] by blast
  note stay = inv_quotaI [OF ops inv]
  have sq: "small amt q" using sm release(2) by auto
  have "\<forall>(p, q, b) \<in> set xs. small amt q" "\<forall>(p, q, b) \<in> set ys. small amt q" using sm release(2) by auto
  then have parts: "0 \<le> held_sum amt sel xs p' c" "0 \<le> held_sum amt sel ys p' c" for sel p' c
    by (simp_all add: held_sum_nonneg)
  have le: "amt q c \<le> amt (pend p) c" for c using parts [of "\<lambda>_. True" p c] by (simp add: pend(2) release(2))
  note res = release_result [OF ops codec release(3) pend(1,3) sq le]
  obtain pend' where p': "memory_GetQuota man st p (newQuota ops) = Inr pend'" "\<And>c. amt pend' c = amt (pend p) c - amt q c"
    using res(1) by blast
  have other: "p' \<noteq> p \<Longrightarrow> memory_GetQuota man st p' (newQuota ops) = Inr (pend p')" for p'
    using res(2) pend(1) by metis
  have q0: "0 \<le> amt q c" for c using sq by (simp add: small_def)
  show ?thesis
  proof (rule stay)
    show "metadata (qstores w') = metadata (qstores w)" using release CancelPending_metadata by simp
    show "0 \<le> amt (used w' p') c \<and> amt (used w' p') c + held_sum amt Not (held w') p' c \<le> amt (limit p') c" for p' c
      using us [of p' c] release(1,2) q0 [of c] by (auto split: if_splits)
    show "\<exists>pe. memory_GetQuota man (qstores w') p' (newQuota ops) = Inr pe \<and>
       (\<forall>c. amt pe c = held_sum amt (\<lambda>_. True) (held w') p' c \<and> amt pe c \<le> 2 ^ 60)" for p'
    proof (cases "p' = p")
      case True
      have "amt pend' c \<le> 2 ^ 60" for c using p'(2) q0 [of c] pend(3) [of p c] by simp
      then show ?thesis using True p' pend(2) release(1,2) by auto
    next
      case False
      then show ?thesis using other [OF False] pend(2,3) [of p'] release(1,2) by auto
    qed
  qed (use sm release in auto)
qed

lemma inv_delete:
  assumes ops: "quotaType man = ops" and inv: "quota_inv man amt limit w"
    and delete: "w' = w\<lparr>used := (used w)(p := u)\<rparr>" "\<And>c. 0 \<le> amt u c \<and> amt u c \<le> amt (used w p) c"
  shows "quota_inv man amt limit w'"
proof -
  obtain pend where lim: "\<And>p. GetQuota man (qstores w) p (newQuota ops) = Inr (limit p)" "\<And>p. small amt (limit p)"
    and sm: "\<forall>(p, q, b) \<in> set (held w). small amt q"
    and pend: "\<And>p. memory_GetQuota man (qstores w) p (newQuota ops) = Inr (pend p)"
      "\<And>p c. amt (pend p) c = held_sum amt (\<lambda>_. True) (held w) p c" "\<And>p c. amt (pend p) c \<le> 2 ^ 60"
    and pend0: "\<And>p c. 0 \<le> amt (pend p) c" and us: "\<And>p c. 0 \<le> amt (used w p) c"
      "\<And>p c. amt (used w p) c + held_sum amt Not (held w) p c \<le> amt (limit p) c"
    using inv_quotaE [OF ops inv] by blast
  note stay = inv_quotaI [OF ops inv]
  show ?thesis
  proof (rule stay)
    show "0 \<le> amt (used w' p') c \<and> amt (used w' p') c + held_sum amt Not (held w') p' c \<le> amt (limit p') c" for p' c
      using us [of p' c] delete(1,2) by (auto intro: order_trans [OF add_right_mono])
    show "\<exists>pe. memory_GetQuota man (qstores w') p' (newQuota ops) = Inr pe \<and>
       (\<forall>c. amt pe c = held_sum amt (\<lambda>_. True) (held w') p' c \<and> amt pe c \<le> 2 ^ 60)" for p'
      using pend(1) [of p'] pend(2,3) [of p'] delete(1) by auto
  qed (use sm delete in auto)
qed

lemma inv_step_quota:
  assumes ops: "quotaType man = ops" and codec: "\<And>q. unmarshal man (marshal man q) (newQuota ops) = Inr q"
    and inv: "quota_inv man amt limit w" and step: "quota_step man amt w w'"
  shows "quota_inv man amt limit w'"
  using step
proof cases
  case (refuse p q err st)
  then have "st = qstores w" by (auto simp: CheckSetPendingQuota_def memory_SetQuota_def split: sum.splits)
  then have "w' = w" using refuse(1) by simp
  then show ?thesis using inv by simp
qed (rule inv_reserve [OF ops codec inv] inv_create [OF ops inv] inv_release [OF ops codec inv] inv_delete [OF ops inv]; assumption)+

lemma quota_invariant:
  assumes "quotaType man = ops" and "\<And>q. unmarshal man (marshal man q) (newQuota ops) = Inr q"
  shows "inductive_invariant (quota_init man amt limit) (quota_step man amt) (quota_inv man amt limit)"
  using inv_init_quota [OF assms(1)] inv_step_quota [OF assms] by unfold_locales blast+

lemma within_limits:
  assumes "quotaType man = ops" and "\<And>q. unmarshal man (marshal man q) (newQuota ops) = Inr q"
    and "reach (quota_init man amt limit) (quota_step man amt) w"
  shows "amt (used w p) c \<le> amt (limit p) c"
proof -
  have "quota_inv man amt limit w"
    by (rule inductive_invariant.inv_reach [OF quota_invariant [OF assms(1,2)] assms(3)])
  then have "\<forall>(p, q, b) \<in> set (held w). small amt q" "amt (used w p) c + held_sum amt Not (held w) p c \<le> amt (limit p) c"
    by (auto simp: quota_inv_def)
  then show ?thesis using held_sum_nonneg [of "held w" amt Not p c] by simp
qed

end

datatype resource = RCpu | RMemory | RStorage | RPort | REip | REport | RBw | REbw | RKeypair | RGroup | RSecgroup
  | RIsolatedDevice | RSnapshot

definition compute_amt :: "SQuota \<Rightarrow> resource \<Rightarrow> int" where
  "compute_amt q r = (case r of RCpu \<Rightarrow> Cpu q | RMemory \<Rightarrow> Memory q | RStorage \<Rightarrow> Storage q | RPort \<Rightarrow> Port q | REip \<Rightarrow> Eip q
     | REport \<Rightarrow> Eport q | RBw \<Rightarrow> Bw q | REbw \<Rightarrow> Ebw q | RKeypair \<Rightarrow> Keypair q | RGroup \<Rightarrow> Group q | RSecgroup \<Rightarrow> Secgroup q
     | RIsolatedDevice \<Rightarrow> IsolatedDevice q | RSnapshot \<Rightarrow> Snapshot q)"

lemma all_resource:
  "(\<forall>r. P r) \<longleftrightarrow> P RCpu \<and> P RMemory \<and> P RStorage \<and> P RPort \<and> P REip \<and> P REport \<and> P RBw \<and> P REbw \<and> P RKeypair \<and>
     P RGroup \<and> P RSecgroup \<and> P RIsolatedDevice \<and> P RSnapshot"
proof
  assume "P RCpu \<and> P RMemory \<and> P RStorage \<and> P RPort \<and> P REip \<and> P REport \<and> P RBw \<and> P REbw \<and> P RKeypair \<and>
     P RGroup \<and> P RSecgroup \<and> P RIsolatedDevice \<and> P RSnapshot"
  then have "P r" for r by (cases r) simp_all
  then show "\<forall>r. P r" ..
qed simp

lemma exceed_step: "((if 0 < r \<and> l < u then Some e else X) = None) \<longleftrightarrow> (0 < r \<longrightarrow> u \<le> l) \<and> X = None" for r l u :: int
  by auto

lemma empty_step: "(if 0 < x then False else X) \<longleftrightarrow> x \<le> 0 \<and> X" for x :: int
  by auto

interpretation compute_quota: quota_type "compute_IQuota opts" compute_amt for opts
proof
  fix a b u r l q :: SQuota and c
  show "compute_amt (newQuota (compute_IQuota opts)) c = 0"
    by (cases c) (simp_all add: compute_IQuota_def compute_newQuota_def compute_amt_def)
  show "compute_amt (i_Add (compute_IQuota opts) a b) c = wrap64 (compute_amt a c + compute_amt b c)"
    by (cases c) (simp_all add: compute_IQuota_def compute_Add_def compute_amt_def)
  show "compute_amt (i_Sub (compute_IQuota opts) a b) c = NonNegative (wrap64 (compute_amt a c - compute_amt b c))"
    by (cases c) (simp_all add: compute_IQuota_def compute_Sub_def compute_amt_def)
  show "compute_amt (i_Update (compute_IQuota opts) a b) c = (if compute_amt b c > 0 then compute_amt b c else compute_amt a c)"
    by (cases c) (simp_all add: compute_IQuota_def compute_Update_def compute_amt_def)
  show "i_Exceed (compute_IQuota opts) u r l = None \<longleftrightarrow> (\<forall>c. 0 < compute_amt r c \<longrightarrow> compute_amt u c \<le> compute_amt l c)"
    by (simp only: all_resource compute_IQuota_def IQuota.simps compute_Exceed_def compute_amt_def resource.case exceed_step simp_thms)
  show "i_IsEmpty (compute_IQuota opts) q \<longleftrightarrow> (\<forall>c. compute_amt q c \<le> 0)"
    by (simp only: all_resource compute_IQuota_def IQuota.simps compute_IsEmpty_def compute_amt_def resource.case empty_step simp_thms)
  show "(\<And>c. compute_amt a c = compute_amt b c) \<Longrightarrow> a = b"
  proof -
    assume "\<And>c. compute_amt a c = compute_amt b c"
    then have "\<forall>c. compute_amt a c = compute_amt b c" by simp
    then show "a = b" unfolding all_resource by (simp add: compute_amt_def)
  qed
qed

interpretation image_quota: quota_type "image_IQuota dflt" "\<lambda>q (_ :: unit). Image q" for dflt
  by unfold_locales
    (auto simp: image_IQuota_def image_Add_def image_Sub_def image_Update_def image_Exceed_def image_IsEmpty_def)

section \<open>Properties\<close>


definition demo_opts :: ComputeOptions where
  "demo_opts = \<lparr>DefaultCpuQuota = 8, DefaultMemoryQuota = 8, DefaultStorageQuota = 8, DefaultPortQuota = 8, DefaultEipQuota = 8,
     DefaultEportQuota = 8, DefaultBwQuota = 8, DefaultEbwQuota = 8, DefaultKeypairQuota = 8, DefaultGroupQuota = 8,
     DefaultSecgroupQuota = 8, DefaultIsolatedDeviceQuota = 8, DefaultSnapshotQuota = 8\<rparr>"

definition demo_quota :: "(SQuota, SQuota) SQuotaManager" where
  "demo_quota = \<lparr>quotaType = compute_IQuota demo_opts, marshal = (\<lambda>q. q), unmarshal = (\<lambda>j _. Inr j),
     tenant_err = (\<lambda>_. None), meta_err = (\<lambda>_. None)\<rparr>"

definition demo_limit :: SQuota where
  "demo_limit = compute_FetchSystemQuota demo_opts compute_newQuota"

definition demo_world :: "(SQuota, SQuota) quota_world" where
  "demo_world = \<lparr>qstores = \<lparr>store = NewMemoryQuotaStore, metadata = Map.empty\<rparr>, used = (\<lambda>_. compute_newQuota), held = []\<rparr>"

definition demo_order :: SQuota where
  "demo_order = compute_newQuota\<lparr>Cpu := 5\<rparr>"

lemmas demo_quota_defs = demo_opts_def demo_quota_def demo_limit_def demo_world_def demo_order_def compute_newQuota_def
  compute_FetchSystemQuota_def compute_IQuota_def

lemma demo_GetQuota: "GetQuota demo_quota \<lparr>store = s, metadata = Map.empty\<rparr> p compute_newQuota = Inr demo_limit"
  by (simp add: GetQuota_def db_GetQuota_def demo_quota_defs compute_IsEmpty_def)

lemma demo_init: "quota_init demo_quota compute_amt (\<lambda>_. demo_limit) demo_world"
proof -
  have "newQuota (quotaType demo_quota) = compute_newQuota" by (simp add: demo_quota_defs)
  moreover have "qstores demo_world = \<lparr>store = NewMemoryQuotaStore, metadata = Map.empty\<rparr>" "held demo_world = []"
    "used demo_world = (\<lambda>_. compute_newQuota)" by (simp_all add: demo_world_def)
  moreover have "\<forall>c. 0 \<le> compute_amt demo_limit c \<and> compute_amt demo_limit c \<le> 2 ^ 60 \<and> compute_amt compute_newQuota c = 0"
    unfolding all_resource by (simp add: compute_amt_def demo_quota_defs)
  ultimately show ?thesis by (simp add: quota_init_def small_def demo_GetQuota)
qed

lemma demo_reserve:
  "CheckSetPendingQuota demo_quota (\<lambda>p _. Inr compute_newQuota) (qstores demo_world) ''p'' demo_order =
     (None, \<lparr>store = [''p'' \<mapsto> demo_order], metadata = Map.empty\<rparr>)"
proof -
  have n: "newQuota (quotaType demo_quota) = compute_newQuota" by (simp add: demo_quota_defs)
  have add: "i_Add (quotaType demo_quota) compute_newQuota q = q" if "q \<in> {compute_newQuota, demo_order}" for q
    using that by (auto simp: demo_quota_defs compute_Add_def wrap64_def)
  have "i_Exceed (quotaType demo_quota) demo_order demo_order demo_limit = None" "\<not> i_IsEmpty (quotaType demo_quota) demo_order"
    by (simp_all add: demo_quota_defs compute_Exceed_def compute_IsEmpty_def)
  moreover have "marshal demo_quota demo_order = demo_order" by (simp add: demo_quota_def)
  ultimately show ?thesis
    by (simp add: CheckSetPendingQuota_def CheckQuota_def n GetPendingUsage_def memory_GetQuota_def memory_SetQuota_def add
      demo_GetQuota demo_world_def NewMemoryQuotaStore_def Let_def)
qed

definition demo_reserved :: "(SQuota, SQuota) quota_world" where
  "demo_reserved = \<lparr>qstores = \<lparr>store = [''p'' \<mapsto> demo_order], metadata = Map.empty\<rparr>, used = (\<lambda>_. compute_newQuota),
     held = [(''p'', demo_order, False)]\<rparr>"

definition demo_created :: "(SQuota, SQuota) quota_world" where
  "demo_created = \<lparr>qstores = \<lparr>store = [''p'' \<mapsto> demo_order], metadata = Map.empty\<rparr>,
     used = (\<lambda>_. compute_newQuota)(''p'' := demo_order), held = [(''p'', demo_order, True)]\<rparr>"

lemma demo_step1: "quota_step demo_quota compute_amt demo_world demo_reserved"
proof -
  have "small compute_amt demo_order" unfolding small_def all_resource by (simp add: compute_amt_def demo_quota_defs)
  moreover have "CheckSetPendingQuota demo_quota (\<lambda>p _. Inr (used demo_world p)) (qstores demo_world) ''p'' demo_order =
      (None, \<lparr>store = [''p'' \<mapsto> demo_order], metadata = Map.empty\<rparr>)"
    using demo_reserve unfolding demo_world_def by (simp only: quota_world.simps)
  ultimately have "quota_step demo_quota compute_amt demo_world
      (demo_world\<lparr>qstores := \<lparr>store = [''p'' \<mapsto> demo_order], metadata = Map.empty\<rparr>, held := held demo_world @ [(''p'', demo_order, False)]\<rparr>)"
    by (rule reserve)
  then show ?thesis unfolding demo_world_def demo_reserved_def by (simp only: quota_world.simps append.simps)
qed

lemma demo_step2: "quota_step demo_quota compute_amt demo_reserved demo_created"
proof -
  have "held demo_reserved = [] @ (''p'', demo_order, False) # []" by (simp add: demo_reserved_def)
  moreover have "compute_amt demo_order c = compute_amt (used demo_reserved ''p'') c + compute_amt demo_order c" for c
    by (cases c) (simp_all add: compute_amt_def demo_reserved_def demo_quota_defs)
  ultimately have "quota_step demo_quota compute_amt demo_reserved
      (demo_reserved\<lparr>used := (used demo_reserved)(''p'' := demo_order), held := [] @ (''p'', demo_order, True) # []\<rparr>)"
    by (rule create)
  then show ?thesis unfolding demo_reserved_def demo_created_def by (simp only: quota_world.simps append.simps)
qed

lemma demo_reach:
  "reach (quota_init demo_quota compute_amt (\<lambda>_. demo_limit)) (quota_step demo_quota compute_amt) demo_created"
  using demo_init demo_step1 demo_step2 by (blast intro: reach_init reach_step)




lemma SetQuota_GetQuota:
  assumes "quotaType man = compute_IQuota opts" and "\<And>q. unmarshal man (marshal man q) compute_newQuota = Inr q"
    and "SetQuota man st p q = (None, st')"
  shows "GetQuota man st' p compute_newQuota =
     Inr (if compute_IsEmpty q then compute_FetchSystemQuota opts q else q)"
  using assms by (auto simp: SetQuota_def db_SetQuota_def GetQuota_def db_GetQuota_def compute_IQuota_def split: option.splits)

lemma FetchSystemQuota_const: "compute_FetchSystemQuota opts q = compute_FetchSystemQuota opts q'"
  by (simp add: compute_FetchSystemQuota_def)

text \<open>What is left of a quota update that succeeded, on every path through the handler.\<close>

lemma setQuota_success:
  assumes "setQuotaHanlder man unmarshal_key c pm st = Some (SendJSON k d, pm', st')"
  obtains p json quota old where "target_project c = Inr p" and "FetchJSON c = Inr (Some json)"
    and "unmarshal_key json (Keyword c) (newQuota (quotaType man)) = Inr quota"
    and "GetQuota man st p (newQuota (quotaType man)) = Inr old"
    and "SetQuota man st p (i_Update (quotaType man) old quota) = (None, st')"
proof -
  note h = assms [unfolded setQuotaHanlder_def]
  obtain b pm1 where "admin_allowed c (clock1 c) pm (Keyword c) ''update'' = Some (b, pm1)"
    using h by (cases "admin_allowed c (clock1 c) pm (Keyword c) ''update''") auto
  note h = h [unfolded this bind.bind_lunit prod.case]
  then have b by (cases b) simp_all
  obtain p where p: "target_project c = Inr p" using h \<open>b\<close> by (cases "target_project c") (auto simp: target_project_def
    resolve_tenant_def split: if_splits tenant_lookup.splits)
  obtain json where json: "FetchJSON c = Inr (Some json)"
    using h \<open>b\<close> p by (cases "FetchJSON c") (auto simp: bind_eq_Some_conv)
  obtain quota where quota: "unmarshal_key json (Keyword c) (newQuota (quotaType man)) = Inr quota"
    using h \<open>b\<close> p json by (cases "unmarshal_key json (Keyword c) (newQuota (quotaType man))") auto
  obtain old where old: "GetQuota man st p (newQuota (quotaType man)) = Inr old"
    using h \<open>b\<close> p json quota by (cases "GetQuota man st p (newQuota (quotaType man))") auto
  have "SetQuota man st p (i_Update (quotaType man) old quota) = (None, st')"
    using h \<open>b\<close> p json quota old by (auto simp: Let_def split: prod.splits option.splits)
  with p json quota old show thesis by (rule that)
qed

text \<open>
  C32. Setting a compute quota takes effect: once the handler has answered with the new
  quota, the quota of the project is what the request says wherever the request is
  positive, and what it was everywhere else. In particular no quota can be set to zero.
\<close>

theorem set_quota_takes_effect:
  assumes "quotaType man = compute_IQuota opts" and "\<And>q. unmarshal man (marshal man q) compute_newQuota = Inr q"
    and "setQuotaHanlder man unmarshal_key c pm st = Some (SendJSON k d, pm', st')"
  shows "\<exists>p json quota old l. target_project c = Inr p \<and> FetchJSON c = Inr (Some json) \<and>
     unmarshal_key json (Keyword c) compute_newQuota = Inr quota \<and> GetQuota man st p compute_newQuota = Inr old \<and>
     GetQuota man st' p compute_newQuota = Inr l \<and>
     (\<forall>r. compute_amt l r = (if compute_amt quota r > 0 then compute_amt quota r else compute_amt old r))"
proof -
  have new: "newQuota (quotaType man) = compute_newQuota" by (simp add: assms(1) compute_IQuota_def)
  obtain p json quota old where h: "target_project c = Inr p" "FetchJSON c = Inr (Some json)"
    "unmarshal_key json (Keyword c) compute_newQuota = Inr quota" "GetQuota man st p compute_newQuota = Inr old"
    "SetQuota man st p (i_Update (quotaType man) old quota) = (None, st')"
    using setQuota_success [OF assms(3)] unfolding new by blast
  let ?n = "i_Update (compute_IQuota opts) old quota"
  have n: "compute_amt ?n r = (if compute_amt quota r > 0 then compute_amt quota r else compute_amt old r)" for r
    by (rule compute_quota.amt_Update)
  have get: "GetQuota man st' p compute_newQuota = Inr (if compute_IsEmpty ?n then compute_FetchSystemQuota opts ?n else ?n)"
    using SetQuota_GetQuota [OF assms(1,2)] h(5) assms(1) by simp
  have ie: "compute_IsEmpty q \<longleftrightarrow> (\<forall>r. compute_amt q r \<le> 0)" for q
    using compute_quota.IsEmpty_iff [of opts q] by (simp add: compute_IQuota_def)
  show ?thesis
  proof (cases "compute_IsEmpty ?n")
    case False
    with get h n show ?thesis by auto
  next
    case True
    then have n0: "compute_amt ?n r \<le> 0" for r by (simp add: ie)
    have le: "compute_amt quota r \<le> 0" "compute_amt old r \<le> 0" for r using n [of r] n0 [of r] by (auto split: if_splits)
    then have "compute_IsEmpty old" by (simp add: ie)
    then have "old = compute_FetchSystemQuota opts old"
      using h(4) FetchSystemQuota_const by (auto simp: GetQuota_def assms(1) compute_IQuota_def split: sum.splits if_splits)
    then have "GetQuota man st' p compute_newQuota = Inr old" using get True FetchSystemQuota_const by metis
    with h le show ?thesis by (metis not_less)
  qed
qed

definition demo_http :: "SQuota http_ctx" where
  "demo_http = \<lparr>IsRbacEnabled = False, GetServiceType = ''compute'', Keyword = ''quotas'', digests = (\<lambda>_ _. [1, 2, 3, 4]),
     clock1 = 1, clock2 = 2, h_userCred = demo_user, token_allow = (\<lambda>_ _ _. True), tenantid = [],
     FetchTenantByIdOrName = (\<lambda>_. NoRows), FetchJSON = Inr (Some demo_order)\<rparr>"

lemma demo_set_quota:
  "\<exists>d st'. setQuotaHanlder demo_quota (\<lambda>j _ _. Inr j) demo_http demo_manager (qstores demo_world) =
     Some (SendJSON ''quotas'' d, demo_manager, st')"
proof -
  have n: "newQuota (quotaType demo_quota) = compute_newQuota" by (simp add: demo_quota_defs)
  have "SetQuota demo_quota (qstores demo_world) p q = (None, (qstores demo_world)\<lparr>metadata := [p \<mapsto> q]\<rparr>)" for p q
    by (simp add: SetQuota_def db_SetQuota_def demo_quota_def demo_world_def)
  then show ?thesis
    by (simp add: setQuotaHanlder_def demo_http_def admin_allowed_def target_project_def Let_def n)
      (simp add: demo_world_def demo_GetQuota Let_def)
qed

lemma set_quota_takes_effect_witness:
  "\<exists>st' p json quota old l. target_project demo_http = Inr p \<and> FetchJSON demo_http = Inr (Some json) \<and>
     Inr json = (Inr quota :: string + SQuota) \<and> GetQuota demo_quota (qstores demo_world) p compute_newQuota = Inr old \<and>
     GetQuota demo_quota st' p compute_newQuota = Inr l \<and>
     (\<forall>r. compute_amt l r = (if compute_amt quota r > 0 then compute_amt quota r else compute_amt old r))"
proof -
  obtain d st' where "setQuotaHanlder demo_quota (\<lambda>j _ _. Inr j) demo_http demo_manager (qstores demo_world) =
     Some (SendJSON ''quotas'' d, demo_manager, st')" using demo_set_quota by blast
  note set = this
  have "quotaType demo_quota = compute_IQuota demo_opts" "\<And>q. unmarshal demo_quota (marshal demo_quota q) compute_newQuota = Inr q"
    by (simp_all add: demo_quota_def)
  from set_quota_takes_effect [OF this set] show ?thesis by blast
qed

text \<open>
  An empty body ends the quota handlers in a panic, once the user is allowed and the
  project found; \<^verbatim>\<open>checkQuotaHanlder\<close> also panics on a body that cannot be read or parsed.
\<close>

theorem empty_body_panics:
  assumes "target_project c = Inr p"
  shows "(admin_allowed c (clock1 c) pm (Keyword c) ''update'' = Some (True, pm') \<and> FetchJSON c = Inr None \<longrightarrow>
      setQuotaHanlder man unmarshal_key c pm st = None) \<and>
    (delegated c pm ''check quota'' = Some (None, pm') \<and> FetchJSON c \<in> {Inr None, Inl err} \<longrightarrow>
      checkQuotaHanlder man usage unmarshal_key c pm st = None)"
  using assms by (auto simp: setQuotaHanlder_def checkQuotaHanlder_def)

lemma empty_body_panics_witness:
  "setQuotaHanlder demo_quota (\<lambda>j _ _. Inr j) (demo_http\<lparr>FetchJSON := Inr None\<rparr>) demo_manager (qstores demo_world) = None"
  by (rule empty_body_panics [THEN conjunct1, rule_format, where p = "ProjectId demo_user" and pm' = demo_manager])
    (simp_all add: target_project_def demo_http_def admin_allowed_def)

section \<open>Who may change a quota\<close>

lemma setQuota_changes_only_if_allowed:
  assumes "setQuotaHanlder man unmarshal_key c pm st = Some (r, pm', st')" and "st' \<noteq> st"
  shows "\<exists>pm1. admin_allowed c (clock1 c) pm (Keyword c) ''update'' = Some (True, pm1)"
proof (cases "admin_allowed c (clock1 c) pm (Keyword c) ''update''")
  case None
  with assms(1) show ?thesis by (simp add: setQuotaHanlder_def)
next
  case (Some x)
  obtain b pm1 where x: "x = (b, pm1)" by (cases x)
  show ?thesis using assms Some unfolding x by (cases b) (simp_all add: setQuotaHanlder_def)
qed

lemma admin_decision_needs_policy:
  assumes "valid_manager m" and "allowWithoutCache m True u s r a e = Some AdminAllow"
  shows "\<exists>(n, p) \<in> set (slice_of (adminPolicies m)). userMatch p u"
proof (cases "adminPolicies m")
  case None
  with assms(2) show ?thesis by (simp add: allowWithoutCache_def policies_for_def result_defs)
next
  case (Some ps)
  then have "policies_for True m = Some ps" by (simp add: policies_for_def)
  from allow_decision [OF assms(1) this, of u s r a e] obtain x where
    x: "allowWithoutCache m True u s r a e = Some (unifyRbacResult True x)" "x \<in> policy_grants True u s r a e ps"
    by (auto simp: is_laxest_def default_grants_def)
  have "x \<noteq> DenyR" using x(1) assms(2) by (auto simp: unifyRbacResult_def result_defs)
  then show ?thesis using x(2) Some by (auto simp: policy_grants_def split: if_splits)
qed

text \<open>
  C24. With access control on, the quota handler changes a stored quota only for a user whom
  an admin policy matches, provided that what the decision cache holds for this request is
  the decision on it.
\<close>

theorem quota_change_needs_admin_policy:
  assumes "setQuotaHanlder man unmarshal_key c pm st = Some (r, pm', st')" and "st' \<noteq> st"
    and "IsRbacEnabled c" and "valid_manager pm"
    and "q = \<lparr>q_admin = True, q_user = h_userCred c, q_service = GetServiceType c, q_resource = Keyword c,
        q_action = ''update'', q_extra = []\<rparr>"
    and "pcache pm = Some cache" and "cache_agrees (cache_holds (digests c)) (decided pm {q}) cache"
  shows "\<exists>(n, p) \<in> set (slice_of (adminPolicies pm)). userMatch p (Some (h_userCred c))"
proof -
  obtain pm1 where "admin_allowed c (clock1 c) pm (Keyword c) ''update'' = Some (True, pm1)"
    using setQuota_changes_only_if_allowed [OF assms(1,2)] by blast
  then have allow: "Allow_request (digests c) (clock1 c) pm q = Some (AdminAllow, pm1)"
    using assms(3,5) by (auto simp: admin_allowed_def Allow_request_def bind_eq_Some_conv)
  obtain d c' where "decision pm q = Some d" "Allow_request (digests c) (clock1 c) pm q = Some (d, pm\<lparr>pcache := Some c'\<rparr>)"
    using Allow_request_correct [OF assms(6,7), of q "clock1 c"] by auto
  then have "decision pm q = Some AdminAllow" using allow by simp
  then show ?thesis using admin_decision_needs_policy [OF assms(4)] assms(5) by (simp add: decision_def)
qed

definition admin_policies :: SPolicyManager where
  "admin_policies = \<lparr>policies = None, adminPolicies = Some [(''a'', \<lparr>IsAdmin = True, Rules = [], Projects = [], Roles = []\<rparr>)],
     defaultPolicy = None, lastSync = 0, failedRetryInterval = 1, refreshInterval = 2, pcache = Some (NewCache 2048 60000000000)\<rparr>"

definition update_request :: request where
  "update_request = \<lparr>q_admin = True, q_user = demo_user, q_service = ''compute'', q_resource = ''quotas'', q_action = ''update'', q_extra = []\<rparr>"

lemma admin_fresh:
  "pcache admin_policies = Some (NewCache 2048 60000000000)"
  "cache_agrees (cache_holds digest) (decided admin_policies {update_request}) (NewCache 2048 60000000000)"
  "valid_manager admin_policies" "decision admin_policies update_request = Some AdminAllow"
proof -
  show "cache_agrees (cache_holds digest) (decided admin_policies {update_request}) (NewCache 2048 60000000000)"
    unfolding cache_agrees_def using NewCache_holds [of 2048 digest] by auto
  show "decision admin_policies update_request = Some AdminAllow"
    by (simp add: decision_def update_request_def admin_policies_def allowWithoutCache_def policies_for_def userMatch_def
      policy_Match_def GetMatchRule_def unifyRbacResult_def result_defs)
qed (simp_all add: admin_policies_def valid_manager_def valid_policy_def)

lemma admin_sets_quota:
  "\<exists>r pm' st'. setQuotaHanlder demo_quota (\<lambda>j _ _. Inr j) (demo_http\<lparr>IsRbacEnabled := True\<rparr>) admin_policies (qstores demo_world) =
     Some (r, pm', st') \<and> st' \<noteq> qstores demo_world"
proof -
  let ?c = "demo_http\<lparr>IsRbacEnabled := True\<rparr>"
  obtain c' where "Allow_request (digests ?c) (clock1 ?c) admin_policies update_request = Some (AdminAllow, admin_policies\<lparr>pcache := Some c'\<rparr>)"
    using Allow_request_correct [OF admin_fresh(1,2), where q = update_request and now = "clock1 ?c" and digest = "digests ?c"] admin_fresh(4) by auto
  then have allow: "admin_allowed ?c (clock1 ?c) admin_policies (Keyword ?c) ''update'' = Some (True, admin_policies\<lparr>pcache := Some c'\<rparr>)"
    by (simp add: admin_allowed_def Allow_request_def update_request_def demo_http_def)
  have n: "newQuota (quotaType demo_quota) = compute_newQuota" by (simp add: demo_quota_defs)
  have "SetQuota demo_quota (qstores demo_world) p q = (None, (qstores demo_world)\<lparr>metadata := [p \<mapsto> q]\<rparr>)" for p q
    by (simp add: SetQuota_def db_SetQuota_def demo_quota_def demo_world_def)
  moreover have "(qstores demo_world)\<lparr>metadata := [p \<mapsto> q]\<rparr> \<noteq> qstores demo_world" for p q
    by (simp add: demo_world_def fun_eq_iff)
  moreover have "target_project ?c = Inr (ProjectId demo_user)" "FetchJSON ?c = Inr (Some demo_order)"
    by (simp_all add: target_project_def demo_http_def)
  moreover have "GetQuota demo_quota (qstores demo_world) p compute_newQuota = Inr demo_limit" for p
    by (simp add: demo_world_def demo_GetQuota)
  ultimately show ?thesis
    unfolding setQuotaHanlder_def allow by (simp add: Let_def n)
qed

lemma quota_change_needs_admin_policy_witness:
  "\<exists>(n, p) \<in> set (slice_of (adminPolicies admin_policies)). userMatch p (Some demo_user)"
proof -
  let ?c = "demo_http\<lparr>IsRbacEnabled := True\<rparr>"
  obtain r pm' st' where h: "setQuotaHanlder demo_quota (\<lambda>j _ _. Inr j) ?c admin_policies (qstores demo_world) = Some (r, pm', st')"
    "st' \<noteq> qstores demo_world" using admin_sets_quota by blast
  have "update_request = \<lparr>q_admin = True, q_user = h_userCred ?c, q_service = GetServiceType ?c, q_resource = Keyword ?c,
        q_action = ''update'', q_extra = []\<rparr>" and "h_userCred ?c = demo_user" and "IsRbacEnabled ?c"
    by (simp_all add: update_request_def demo_http_def)
  with quota_change_needs_admin_policy [OF h _ admin_fresh(3) _ admin_fresh(1,2)] show ?thesis by simp
qed

end
