(* ===== verification/Go_Strconv.thy ===== *)
theory Go_Strconv
  imports Go_Prelude
begin

text \<open>
  The parts of Go's \<^verbatim>\<open>strconv\<close>, \<^verbatim>\<open>strings\<close> and \<^verbatim>\<open>fmt\<close> packages the components use on numbers
  and texts: decimal printing, \<^verbatim>\<open>ParseInt\<close> with its range errors, lower case, prefixes and
  suffixes, and division that truncates.
\<close>

definition digit_char :: "nat \<Rightarrow> char" where
  "digit_char d = char_of (d + 48)"

definition digit_value :: "char \<Rightarrow> nat option" where
  "digit_value c =
     (let n = of_char c :: nat in
      if 48 \<le> n \<and> n \<le> 57 then Some (n - 48)
      else if 97 \<le> n \<and> n \<le> 122 then Some (n - 97 + 10)
      else if 65 \<le> n \<and> n \<le> 90 then Some (n - 65 + 10)
      else None)"

definition is_digit :: "char \<Rightarrow> bool" where
  "is_digit c \<longleftrightarrow> (let n = of_char c :: nat in 48 \<le> n \<and> n \<le> 57)"

section \<open>Printing\<close>

fun dec_nat :: "nat \<Rightarrow> string" where
  "dec_nat n = (if n < 10 then [digit_char n] else dec_nat (n div 10) @ [digit_char (n mod 10)])"

declare dec_nat.simps [simp del]

definition dec_int :: "int \<Rightarrow> string" where
  "dec_int i = (if i < 0 then ''-'' @ dec_nat (nat (- i)) else dec_nat (nat i))"

section \<open>Parsing\<close>

fun digits_value :: "nat \<Rightarrow> string \<Rightarrow> nat \<Rightarrow> nat option" where
  "digits_value base [] acc = Some acc"
| "digits_value base (c # cs) acc =
     (case digit_value c of
        Some d \<Rightarrow> if d < base then digits_value base cs (acc * base + d) else None
      | None \<Rightarrow> None)"

text \<open>The value of the digits, or \<^term>\<open>None\<close> for a syntax error; base 0 reads the base from the prefix.\<close>

definition parse_digits :: "nat \<Rightarrow> string \<Rightarrow> nat option" where
  "parse_digits base s =
     (if s = [] then None
      else if base \<noteq> 0 then digits_value base s 0
      else case s of
        CHR ''0'' # x # t \<Rightarrow>
          if x = CHR ''x'' \<or> x = CHR ''X''
          then if t = [] then None else digits_value 16 t 0
          else digits_value 8 (x # t) 0
      | CHR ''0'' # [] \<Rightarrow> Some 0
      | _ \<Rightarrow> digits_value 10 s 0)"

text \<open>The value and whether there was no error; a range error gives the nearest 64-bit integer.\<close>

definition strconv_ParseInt :: "string \<Rightarrow> nat \<Rightarrow> int \<times> bool" where
  "strconv_ParseInt s base =
     (let neg = (case s of c # _ \<Rightarrow> c = CHR ''-'' | [] \<Rightarrow> False);
          t = (case s of c # cs \<Rightarrow> if c = CHR ''-'' \<or> c = CHR ''+'' then cs else s | [] \<Rightarrow> s) in
      case parse_digits base t of
        None \<Rightarrow> (0, False)
      | Some un \<Rightarrow>
          if \<not> neg \<and> int un \<ge> 2 ^ 63 then (2 ^ 63 - 1, False)
          else if neg \<and> int un > 2 ^ 63 then (- (2 ^ 63), False)
          else (if neg then - int un else int un, True))"

section \<open>Texts\<close>

definition strings_ToLower :: "string \<Rightarrow> string" where
  "strings_ToLower s = map (\<lambda>c. let n = of_char c :: nat in if 65 \<le> n \<and> n \<le> 90 then char_of (n + 32) else c) s"

definition strings_HasPrefix :: "string \<Rightarrow> string \<Rightarrow> bool" where
  "strings_HasPrefix s p \<longleftrightarrow> take (length p) s = p"

definition strings_HasSuffix :: "string \<Rightarrow> string \<Rightarrow> bool" where
  "strings_HasSuffix s p \<longleftrightarrow> length p \<le> length s \<and> drop (length s - length p) s = p"

definition go_div :: "int \<Rightarrow> int \<Rightarrow> int" where
  "go_div a b = sgn a * sgn b * (\<bar>a\<bar> div \<bar>b\<bar>)"

definition go_mod :: "int \<Rightarrow> int \<Rightarrow> int" where
  "go_mod a b = a - b * go_div a b"

section \<open>Printing and parsing agree\<close>

lemma digit_value_digit_char: "d < 10 \<Longrightarrow> digit_value (digit_char d) = Some d"
  by (simp add: digit_value_def digit_char_def Let_def)

lemma is_digit_digit_char: "d < 10 \<Longrightarrow> is_digit (digit_char d)"
  by (simp add: is_digit_def digit_char_def Let_def)

lemma digits_value_append:
  "digits_value b (s @ t) acc = (case digits_value b s acc of None \<Rightarrow> None | Some a \<Rightarrow> digits_value b t a)"
  by (induction b s acc rule: digits_value.induct) (auto split: option.split)

lemma digits_value_dec_nat: "digits_value 10 (dec_nat n) 0 = Some n"
proof (induction n rule: dec_nat.induct)
  case (1 n)
  show ?case
  proof (cases "n < 10")
    case True
    then show ?thesis by (subst dec_nat.simps) (simp add: digit_value_digit_char)
  next
    case False
    then have "digits_value 10 (dec_nat (n div 10)) 0 = Some (n div 10)" using 1 by simp
    with False show ?thesis
      by (subst dec_nat.simps) (simp add: digits_value_append digit_value_digit_char)
  qed
qed

lemma dec_nat_not_Nil [simp]: "dec_nat n \<noteq> []"
  by (subst dec_nat.simps) simp

lemma dec_nat_digits: "c \<in> set (dec_nat n) \<Longrightarrow> is_digit c"
proof (induction n rule: dec_nat.induct)
  case (1 n)
  show ?case
  proof (cases "n < 10")
    case True
    with 1(2) show ?thesis by (subst (asm) dec_nat.simps) (simp add: is_digit_digit_char)
  next
    case False
    then have "c \<in> set (dec_nat (n div 10)) \<or> c = digit_char (n mod 10)" using 1(2) by (subst (asm) dec_nat.simps) auto
    then show ?thesis using 1(1) [OF False] by (auto simp: is_digit_digit_char)
  qed
qed

lemma parse_dec_nat: "parse_digits 10 (dec_nat n) = Some n"
  by (simp add: parse_digits_def digits_value_dec_nat)

lemma dec_nat_inj: "dec_nat m = dec_nat n \<longleftrightarrow> m = n"
  using digits_value_dec_nat by (metis option.inject)

lemma not_digit_sign: "\<not> is_digit (CHR ''-'')" "\<not> is_digit (CHR ''+'')"
  by code_simp+

lemma dec_nat_no_sign: "dec_nat n = c # cs \<Longrightarrow> c \<noteq> CHR ''-'' \<and> c \<noteq> CHR ''+''"
  using dec_nat_digits [of _ n] not_digit_sign by (metis list.set_intros(1))

lemma ParseInt_dec_int: "in_int64 i \<Longrightarrow> strconv_ParseInt (dec_int i) 10 = (i, True)"
proof (cases "i < 0")
  case True
  assume "in_int64 i"
  then have "int (nat (- i)) \<le> 2 ^ 63" using True by (simp add: in_int64_def)
  then show ?thesis using True by (simp add: strconv_ParseInt_def dec_int_def parse_dec_nat)
next
  case False
  assume "in_int64 i"
  then have small: "int (nat i) < 2 ^ 63" using False by (simp add: in_int64_def)
  obtain c cs where c: "dec_nat (nat i) = c # cs" by (cases "dec_nat (nat i)") auto
  then show ?thesis
    using False small dec_nat_no_sign [OF c] parse_dec_nat [of "nat i"]
    by (simp add: strconv_ParseInt_def dec_int_def)
qed

lemma dec_int_inj: "dec_int i = dec_int j \<longleftrightarrow> i = j"
proof -
  have "dec_nat m \<noteq> CHR ''-'' # t" for m t using dec_nat_no_sign by blast
  moreover have "CHR ''-'' # t \<noteq> dec_nat m" for m t using dec_nat_no_sign by metis
  ultimately show ?thesis by (auto simp: dec_int_def dec_nat_inj split: if_splits)
qed

lemma go_div_nonneg: "0 \<le> a \<Longrightarrow> 0 < b \<Longrightarrow> go_div a b = a div b"
  by (cases "a = 0") (simp_all add: go_div_def)

end
