(* ===== verification/Disk_Config.thy ===== *)
theory Disk_Config
  imports Go_Strconv "HOL-Library.AList"
begin

text \<open>
  RAID configurations of bare metal machines: the textual configurations
  (\<^verbatim>\<open>pkg/cloudcommon/cmdline/parser.go\<close>, \<^verbatim>\<open>ParseBaremetalDiskConfig\<close> and below), and laying out
  the disks of a machine by a list of configurations (\<^verbatim>\<open>pkg/compute/baremetal\<close>).

  Configurations are shared by pointer and written through: a layout refers to its
  configuration by its index in a heap of configurations, and the operations that write
  return the new heap. The disks are passed on by value, with the index the code assigns
  to them. A percentage in a split goes through floating point numbers and is an argument.
\<close>

section \<open>Configurations and disks\<close>

record BaremetalDiskConfig =
  Type :: string
  Conf :: string
  Count :: int
  Range :: "int list"
  Splits :: string
  SizeC :: "int list option"
  AdapterC :: "int option"
  DriverC :: string
  Cachedbadbbu :: "bool option"
  Strip :: "int option"
  RA :: "bool option"
  WT :: "bool option"
  Direct :: "bool option"

record BaremetalStorage =
  Size :: int
  Driver :: string
  Rotate :: bool
  Dev :: string
  Sector :: int
  Block :: int
  ModuleInfo :: string
  Kernel :: string
  PCIClass :: string
  Slot :: int
  Status :: string
  Adapter :: int
  Model :: string
  Enclosure :: int
  MinStripSize :: int
  MaxStripSize :: int
  Index :: int
  Addr :: string

definition GetBlock :: "BaremetalStorage \<Rightarrow> int" where
  "GetBlock s = (if Block s \<le> 0 then 512 else Block s)"

definition DISK_CONFS :: "string list" where
  "DISK_CONFS = [''raid0'', ''raid1'', ''raid5'', ''raid10'', ''none'']"

definition DISK_TYPES :: "string list" where
  "DISK_TYPES = [''rotate'', ''ssd'', ''hybrid'']"

definition DISK_DRIVERS_RAID :: "string list" where
  "DISK_DRIVERS_RAID = [''MegaRaid'', ''HPSARaid'', ''Mpt2SAS'', ''MarvelRaid'']"

text \<open>The sorted list of the set of drivers.\<close>

definition DISK_DRIVERS :: "string list" where
  "DISK_DRIVERS = [''HPSARaid'', ''Linux'', ''MarvelRaid'', ''MegaRaid'', ''Mpt2SAS'', ''PCIE'']"

definition BaremetalDefaultDiskConfig :: BaremetalDiskConfig where
  "BaremetalDefaultDiskConfig = \<lparr>Type = ''hybrid'', Conf = ''none'', Count = 0, Range = [], Splits = [], SizeC = None,
     AdapterC = None, DriverC = [], Cachedbadbbu = None, Strip = None, RA = None, WT = None, Direct = None\<rparr>"

section \<open>Sizes\<close>

definition IsMatchInteger :: "string \<Rightarrow> bool" where
  "IsMatchInteger s \<longleftrightarrow> s \<noteq> [] \<and> list_all is_digit s"

text \<open>The size and whether there was no error; \<^term>\<open>None\<close> is the panic on an empty text.\<close>

definition GetSize :: "string \<Rightarrow> string \<Rightarrow> int \<Rightarrow> (int \<times> bool) option" where
  "GetSize sizeStr defaultSize base =
     (let sizeStr = (if IsMatchInteger sizeStr then sizeStr @ defaultSize else sizeStr) in
      if sizeStr = [] then None
      else let (sz, ok) = strconv_ParseInt (butlast sizeStr) 10; u = last sizeStr in
        Some (if \<not> ok then (sz, False)
          else if u \<in> set ''tT'' then (wrap64 (wrap64 (wrap64 (wrap64 (sz * base) * base) * base) * base), True)
          else if u \<in> set ''gG'' then (wrap64 (wrap64 (wrap64 (sz * base) * base) * base), True)
          else if u \<in> set ''mM'' then (wrap64 (wrap64 (sz * base) * base), True)
          else if u \<in> set ''kK'' then (wrap64 (sz * base), True)
          else if u \<in> set ''bB'' then (sz, True)
          else (sz, False)))"

definition GetSizeMB :: "string \<Rightarrow> string \<Rightarrow> (int \<times> bool) option" where
  "GetSizeMB sizeStr defaultSize =
     do {
       (bytes, ok) \<leftarrow> GetSize sizeStr defaultSize 1024;
       Some (if \<not> ok then (0, False) else (go_div (go_div bytes 1024) 1024, True)) }"

section \<open>Textual configurations\<close>

datatype 'a run = Returns 'a | Fails string | Panics

definition is_sep :: "char \<Rightarrow> bool" where
  "is_sep c \<longleftrightarrow> c \<in> {CHR '' '', CHR '','', CHR 0x09, CHR 0x0A, CHR 0x0C, CHR 0x0D}"

text \<open>Splitting at runs of white space and commas.\<close>

function split_seps :: "string \<Rightarrow> string list" where
  "split_seps [] = [[]]"
| "split_seps (c # cs) =
     (if is_sep c then [] # split_seps (dropWhile is_sep cs)
      else case split_seps cs of [] \<Rightarrow> [[c]] | y # ys \<Rightarrow> (c # y) # ys)"
  by pat_completeness auto
termination
  by (relation "measure length") (auto simp: le_imp_less_Suc length_dropWhile_le)

text \<open>The loop over a range, with the increment wrapping: \<^term>\<open>None\<close> when it does not end.\<close>

partial_function (option) range_loop :: "int \<Rightarrow> int \<Rightarrow> int list \<Rightarrow> int list option" where
  "range_loop i stop ret = (if i \<le> stop then range_loop (wrap64 (i + 1)) stop (ret @ [i]) else Some ret)"

definition parseRangeStr :: "string \<Rightarrow> (string + int list) option" where
  "parseRangeStr str =
     (case strings_Split (CHR ''-'') str of
        [bs, es] \<Rightarrow>
          if \<not> IsMatchInteger bs then Some (Inl str)
          else if \<not> IsMatchInteger es then Some (Inl str)
          else let b = fst (strconv_ParseInt bs 10); e = fst (strconv_ParseInt es 10) in
            map_option Inr (range_loop (min b e) (max b e) [])
      | _ \<Rightarrow> Some (Inl str))"

definition parseRange1 :: "string \<Rightarrow> (string + int list) option" where
  "parseRange1 str =
     (if length str = 0 then Some (Inr [])
      else if length str = 1 \<and> \<not> IsMatchInteger str then Some (Inr [])
      else if IsMatchInteger str then Some (Inr [fst (strconv_ParseInt str 10)])
      else parseRangeStr str)"

fun parse_pieces :: "string list \<Rightarrow> int list \<Rightarrow> (string + int list) option" where
  "parse_pieces [] intSet = Some (Inr intSet)"
| "parse_pieces (rs # rss) intSet =
     do {
       r \<leftarrow> parseRange1 rs;
       case r of Inl err \<Rightarrow> Some (Inl err) | Inr xs \<Rightarrow> parse_pieces rss (intSet @ xs) }"

definition ParseRange :: "string \<Rightarrow> (string + int list) option" where
  "ParseRange rangeStr =
     do {
       r \<leftarrow> parse_pieces (split_seps rangeStr) [];
       Some (case r of Inl err \<Rightarrow> Inl err | Inr intSet \<Rightarrow> Inr (sort (remdups intSet))) }"

definition parseStrip :: "string \<Rightarrow> string \<Rightarrow> int option" where
  "parseStrip stripStr defaultSize =
     do { (sz, ok) \<leftarrow> GetSize stripStr defaultSize 1024; Some (go_div sz 1024) }"

definition drvMap :: "string \<Rightarrow> string option" where
  "drvMap p = map_of (rev (map (\<lambda>drv. (strings_ToLower drv, drv)) DISK_DRIVERS)) p"

definition parse_flag :: "string \<Rightarrow> BaremetalDiskConfig \<Rightarrow> BaremetalDiskConfig run" where
  "parse_flag p bdc =
     (if p = ''ra'' then Returns (bdc\<lparr>RA := Some True\<rparr>)
      else if p = ''nora'' then Returns (bdc\<lparr>RA := Some False\<rparr>)
      else if p = ''wt'' then Returns (bdc\<lparr>WT := Some True\<rparr>)
      else if p = ''wb'' then Returns (bdc\<lparr>WT := Some False\<rparr>)
      else if p = ''direct'' then Returns (bdc\<lparr>Direct := Some True\<rparr>)
      else if p = ''cached'' then Returns (bdc\<lparr>Direct := Some False\<rparr>)
      else if p = ''cachedbadbbu'' then Returns (bdc\<lparr>Cachedbadbbu := Some True\<rparr>)
      else if p = ''nocachedbadbbu'' then Returns (bdc\<lparr>Cachedbadbbu := Some False\<rparr>)
      else Fails (''unknown option '' @ p))"

text \<open>One part of the description; \<^term>\<open>None\<close> when reading a range does not end.\<close>

definition parse_part :: "string \<Rightarrow> BaremetalDiskConfig \<Rightarrow> BaremetalDiskConfig run option" where
  "parse_part p bdc =
     (if length p = 0 then Some (Returns bdc)
      else if p \<in> set DISK_TYPES then Some (Returns (bdc\<lparr>Type := p\<rparr>))
      else if p \<in> set DISK_CONFS then Some (Returns (bdc\<lparr>Conf := p\<rparr>))
      else case drvMap p of Some drv \<Rightarrow> Some (Returns (bdc\<lparr>DriverC := drv\<rparr>)) | None \<Rightarrow>
      if IsMatchInteger p then Some (Returns (bdc\<lparr>Count := fst (strconv_ParseInt p 0)\<rparr>))
      else if length p > 2 \<and> hd p = CHR ''['' \<and> last p = CHR '']''
      then do {
        r \<leftarrow> ParseRange (butlast (tl p));
        Some (case r of Inl err \<Rightarrow> Fails err | Inr rg \<Rightarrow> Returns (bdc\<lparr>Range := rg\<rparr>)) }
      else if length p > 2 \<and> hd p = CHR ''('' \<and> last p = CHR '')''
      then Some (Returns (bdc\<lparr>Splits := butlast (tl p)\<rparr>))
      else if strings_HasPrefix p ''strip''
      then Some (case parseStrip (drop 5 p) ''k'' of None \<Rightarrow> Panics | Some strip \<Rightarrow> Returns (bdc\<lparr>Strip := Some strip\<rparr>))
      else if strings_HasPrefix p ''adapter''
      then Some (Returns (bdc\<lparr>AdapterC := Some (fst (strconv_ParseInt (drop 7 p) 0))\<rparr>))
      else Some (parse_flag p bdc))"

fun parse_parts :: "string list \<Rightarrow> BaremetalDiskConfig \<Rightarrow> BaremetalDiskConfig run option" where
  "parse_parts [] bdc = Some (Returns bdc)"
| "parse_parts (p # ps) bdc =
     do {
       r \<leftarrow> parse_part p bdc;
       case r of Returns bdc' \<Rightarrow> parse_parts ps bdc' | Fails err \<Rightarrow> Some (Fails err) | Panics \<Rightarrow> Some Panics }"

definition ParseBaremetalDiskConfig :: "string \<Rightarrow> BaremetalDiskConfig run option" where
  "ParseBaremetalDiskConfig desc =
     (let bdc = BaremetalDefaultDiskConfig; desc = strings_ToLower desc in
      if length desc = 0 then Some (Returns bdc) else parse_parts (strings_Split (CHR '':'') desc) bdc)"

fun NewBaremetalDiskConfigs :: "string list \<Rightarrow> BaremetalDiskConfig list run option" where
  "NewBaremetalDiskConfigs [] = Some (Returns [])"
| "NewBaremetalDiskConfigs (ds # dss) =
     do {
       r \<leftarrow> ParseBaremetalDiskConfig ds;
       case r of
         Fails err \<Rightarrow> Some (Fails err)
       | Panics \<Rightarrow> Some Panics
       | Returns c \<Rightarrow>
           do {
             rs \<leftarrow> NewBaremetalDiskConfigs dss;
             Some (case rs of Fails err \<Rightarrow> Fails err | Panics \<Rightarrow> Panics | Returns cs \<Rightarrow> Returns (c # cs)) } }"

section \<open>Selecting disks\<close>

definition isDiskConfigStorageMatch :: "BaremetalDiskConfig \<Rightarrow> string option \<Rightarrow> int option \<Rightarrow> BaremetalStorage \<Rightarrow>
    BaremetalStorage list \<Rightarrow> bool" where
  "isDiskConfigStorageMatch config confDriver confAdapter storage selected =
     (let isRotate = Rotate storage;
          typeIsHybrid = (Type config = ''hybrid'');
          typeIsRotate = (Type config = ''rotate'' \<and> isRotate);
          typeIsSSD = (Type config = ''ssd'' \<and> \<not> isRotate);
          rangeIsNoneAndCountZero = (length (Range config) = 0 \<and> Count config = 0);
          rangeIsNotNoneAndIndexInRange = (length (Range config) \<noteq> 0 \<and> Index storage \<in> set (Range config));
          rangeIsNoneAndSmallThanCount = (length (Range config) = 0 \<and> int (length selected) < Count config);
          adapterIsEqual = ((case confAdapter of None \<Rightarrow> True | Some a \<Rightarrow> a = Adapter storage) \<and>
            (case confDriver of None \<Rightarrow> True | Some d \<Rightarrow> d = Driver storage)) in
      (typeIsHybrid \<or> typeIsRotate \<or> typeIsSSD) \<and>
      (rangeIsNoneAndCountZero \<or> rangeIsNotNoneAndIndexInRange \<or> rangeIsNoneAndSmallThanCount) \<and> adapterIsEqual)"

fun retrieve_loop :: "BaremetalDiskConfig \<Rightarrow> string option \<Rightarrow> int option \<Rightarrow> nat \<Rightarrow> BaremetalStorage list \<Rightarrow>
    BaremetalStorage list \<Rightarrow> BaremetalStorage list \<Rightarrow> BaremetalStorage list \<times> BaremetalStorage list" where
  "retrieve_loop config confDriver confAdapter idx [] selected rest = (selected, rest)"
| "retrieve_loop config confDriver confAdapter idx (storage # storages) selected rest =
     (let storage = (if Index storage = 0 then storage\<lparr>Index := int idx\<rparr> else storage) in
      if isDiskConfigStorageMatch config confDriver confAdapter storage selected
      then retrieve_loop config
        (case confDriver of None \<Rightarrow> Some (Driver storage) | Some d \<Rightarrow> Some d)
        (case confAdapter of None \<Rightarrow> Some (Adapter storage) | Some a \<Rightarrow> Some a)
        (Suc idx) storages (selected @ [storage]) rest
      else retrieve_loop config confDriver confAdapter (Suc idx) storages selected (rest @ [storage]))"

definition RetrieveStorages :: "BaremetalDiskConfig \<Rightarrow> BaremetalStorage list \<Rightarrow> BaremetalStorage list \<times> BaremetalStorage list" where
  "RetrieveStorages diskConfig storages =
     retrieve_loop diskConfig (if DriverC diskConfig \<noteq> [] then Some (DriverC diskConfig) else None)
       (AdapterC diskConfig) 0 storages [] []"

section \<open>Meeting a configuration\<close>

definition GetMinDiskRequirement :: "string \<Rightarrow> nat" where
  "GetMinDiskRequirement diskConfig =
     (let minDisk = 1;
          minDisk = (if diskConfig = ''raid1'' then 2 else minDisk) in
      if diskConfig = ''raid5'' then 3 else if diskConfig = ''raid10'' then 4 else minDisk)"

definition RequireEvenDisks :: "string \<Rightarrow> bool" where
  "RequireEvenDisks diskConfig \<longleftrightarrow> diskConfig \<in> {''raid10'', ''raid1''}"

fun RetrieveStorageDrivers :: "BaremetalStorage list \<Rightarrow> string list \<Rightarrow> string list" where
  "RetrieveStorageDrivers [] ret = ret"
| "RetrieveStorageDrivers (s # ss) ret =
     RetrieveStorageDrivers ss (if Driver s \<in> set ret then ret else insort (Driver s) ret)"

datatype meet_error = MoreThanOneDriver | NoRaidSupport | TooFewDisks | OddDisks | SplitNormalDisk
  | NoRaid5 | Raid0TooFew | Raid10TooMany | StripOutOfRange

text \<open>The error, if any; \<^term>\<open>None\<close> is the panic of reading the driver of no disk.\<close>

definition MeetConfig :: "BaremetalDiskConfig \<Rightarrow> BaremetalStorage list \<Rightarrow> meet_error option option" where
  "MeetConfig conf storages =
     (let storageDrvs = RetrieveStorageDrivers storages [] in
      if length storageDrvs > 1 then Some (Some MoreThanOneDriver)
      else do {
        driver \<leftarrow> go_nth storageDrvs 0;
        Some (
          if Conf conf \<noteq> ''none'' \<and> driver \<notin> set DISK_DRIVERS_RAID then Some NoRaidSupport
          else if length storages < GetMinDiskRequirement (Conf conf) then Some TooFewDisks
          else if RequireEvenDisks (Conf conf) \<and> length storages mod 2 \<noteq> 0 then Some OddDisks
          else if length (Splits conf) > 0 \<and> Conf conf \<in> {''none'', ''Mpt2SAS''} then Some SplitNormalDisk
          else if driver = ''Mpt2SAS'' \<and> Conf conf = ''raid5'' then Some NoRaid5
          else if driver = ''Mpt2SAS'' \<and> Conf conf = ''raid0'' \<and> length storages < 2 then Some Raid0TooFew
          else if driver = ''Mpt2SAS'' \<and> Conf conf = ''raid10'' \<and> length storages > 10 then Some Raid10TooMany
          else case Strip conf of
            None \<Rightarrow> None
          | Some sz \<Rightarrow>
              let minStripSize = MinStripSize (hd storages); maxStripSize = MaxStripSize (hd storages) in
              if driver = ''MegaRaid'' \<and> maxStripSize \<noteq> - 1 \<and> minStripSize \<noteq> - 1 \<and> (sz > maxStripSize \<or> sz < minStripSize)
              then Some StripOutOfRange else None) })"

section \<open>Sizes of a layout\<close>

fun GetStoragesMinSize :: "BaremetalStorage list \<Rightarrow> int \<Rightarrow> int" where
  "GetStoragesMinSize [] minSize = minSize"
| "GetStoragesMinSize (s # ss) minSize =
     GetStoragesMinSize ss (if minSize < 0 \<or> minSize > Size s then Size s else minSize)"

definition CalculateSize :: "string \<Rightarrow> BaremetalStorage list \<Rightarrow> int" where
  "CalculateSize conf storages =
     (let conf = (if conf = [] then ''none'' else conf) in
      if conf = ''raid5'' then wrap64 (GetStoragesMinSize storages (- 1) * (int (length storages) - 1))
      else if conf \<in> {''raid10'', ''raid1''} then wrap64 (GetStoragesMinSize storages (- 1) * int (length storages div 2))
      else foldl (\<lambda>sz s. wrap64 (sz + Size s)) 0 storages)"

text \<open>
  One pass over the split texts: the sizes so far, the index of the unspecified one and the
  subtotal; \<^term>\<open>None\<close> for two unspecified splits. \<open>percent s sz\<close> is what the floating point
  expression for a percentage \<open>s\<close> of \<open>sz\<close> gives, \<^term>\<open>None\<close> when it does not parse.
\<close>

fun split_loop :: "(string \<Rightarrow> int \<Rightarrow> int option) \<Rightarrow> int \<Rightarrow> string list \<Rightarrow> int list \<times> nat option \<times> int \<Rightarrow>
    (int list \<times> nat option \<times> int) option" where
  "split_loop percent sz [] acc = Some acc"
| "split_loop percent sz (s # ss) (isizes, leftover, subtotal) =
     (if strings_HasSuffix s ''%'' then
        (case percent (butlast s) sz of
           None \<Rightarrow> split_loop percent sz ss (isizes @ [0], leftover, subtotal)
         | Some n \<Rightarrow> split_loop percent sz ss (isizes @ [n], leftover, wrap64 (subtotal + n)))
      else if s \<noteq> [] then
        let n = fst (the (GetSizeMB s ''M'')) in split_loop percent sz ss (isizes @ [n], leftover, wrap64 (subtotal + n))
      else if leftover \<noteq> None then None
      else split_loop percent sz ss (isizes @ [0], Some (length isizes), subtotal))"

definition GetSplitSizes :: "(string \<Rightarrow> int \<Rightarrow> int option) \<Rightarrow> int \<Rightarrow> string \<Rightarrow> int list" where
  "GetSplitSizes percent sz splitConf =
     (case split_loop percent sz (strings_Split (CHR '','') splitConf) ([], None, 0) of
        None \<Rightarrow> []
      | Some (isizes, Some i, subtotal) \<Rightarrow>
          let rest = wrap64 (sz - subtotal) in if rest \<le> 0 then [] else isizes[i := rest]
      | Some (isizes, None, subtotal) \<Rightarrow> if subtotal > sz then [] else isizes)"

section \<open>Layouts\<close>

text \<open>A layout refers to its configuration by its index in the heap.\<close>

record Layout =
  Disks :: "BaremetalStorage list"
  LConf :: nat
  LSize :: int

type_synonym conf_heap = "BaremetalDiskConfig list"

datatype layout_error = NoMatchedStorages | NotMeet meet_error | NotEnoughDisks

text \<open>
  \<^verbatim>\<open>CalculateLayout\<close>. The first \<open>n\<close> configurations of the heap are the ones given, and
  \<open>confIdx\<close> counts those used; the default configurations the loop adds are allocated
  at the end. A selection that leaves every disk ends the loop with an error, so each
  round removes a disk.
\<close>

lemma retrieve_loop_length:
  "retrieve_loop c d a i ss sel rest = (sel', rest') \<Longrightarrow> length sel' + length rest' = length ss + length sel + length rest"
  by (induction c d a i ss sel rest rule: retrieve_loop.induct) (auto simp: Let_def split: if_splits)

lemma RetrieveStorages_length: "RetrieveStorages c ss = (sel, rest) \<Longrightarrow> length sel + length rest = length ss"
  using retrieve_loop_length by (fastforce simp: RetrieveStorages_def)

lemma RetrieveStorages_shrinks: "RetrieveStorages c ss = (sel, rest) \<Longrightarrow> sel \<noteq> [] \<Longrightarrow> length rest < length ss"
  using RetrieveStorages_length by (cases sel) fastforce+

function layout_loop :: "(string \<Rightarrow> int \<Rightarrow> int option) \<Rightarrow> nat \<Rightarrow> nat \<Rightarrow> BaremetalStorage list \<Rightarrow> Layout list \<Rightarrow> conf_heap \<Rightarrow>
    (Layout list \<times> layout_error option \<times> conf_heap) option" where
  "layout_loop percent n confIdx storages layouts heap =
     (if storages = [] then Some (layouts, if confIdx < n then Some NotEnoughDisks else None, heap)
      else
        let (confIdx', ref, heap) =
          (if confIdx < n then (confIdx + 1, confIdx, heap)
           else (confIdx, length heap, heap @ [BaremetalDefaultDiskConfig]));
          conf = heap ! ref;
          (selected, storage1) = RetrieveStorages conf storages in
        if length selected = 0 then Some (layouts, Some NoMatchedStorages, heap)
        else case MeetConfig conf selected of
          None \<Rightarrow> None
        | Some (Some e) \<Rightarrow> Some (layouts, Some (NotMeet e), heap)
        | Some None \<Rightarrow>
            let sz = CalculateSize (Conf conf) selected;
                heap = (if length (Splits conf) = 0 then heap
                        else heap[ref := conf\<lparr>SizeC := Some (GetSplitSizes percent sz (Splits conf))\<rparr>]) in
            layout_loop percent n confIdx' storage1
              (layouts @ [\<lparr>Disks = selected, LConf = ref, LSize = sz\<rparr>]) heap)"
  by pat_completeness auto
termination
  by (relation "measure (\<lambda>(_, _, _, storages, _, _). length storages)")
    (auto dest: sym [THEN RetrieveStorages_shrinks] split: if_splits)

definition CalculateLayout :: "(string \<Rightarrow> int \<Rightarrow> int option) \<Rightarrow> BaremetalDiskConfig list \<Rightarrow> BaremetalStorage list \<Rightarrow>
    (Layout list \<times> layout_error option \<times> conf_heap) option" where
  "CalculateLayout percent confs storages = layout_loop percent (length confs) 0 storages [] confs"

text \<open>Expanding a layout of single disks writes a count of one into its configuration.\<close>

fun ExpandNoneConf :: "conf_heap \<Rightarrow> Layout list \<Rightarrow> Layout list \<times> conf_heap" where
  "ExpandNoneConf heap [] = ([], heap)"
| "ExpandNoneConf heap (layout # layouts) =
     (if Conf (heap ! LConf layout) = ''none'' \<and> length (Disks layout) \<ge> 1
      then let heap = heap[LConf layout := (heap ! LConf layout)\<lparr>Count := 1\<rparr>];
               (ret, heap) = ExpandNoneConf heap layouts in
        (map (\<lambda>disk. \<lparr>Disks = [disk], LConf = LConf layout, LSize = Size disk\<rparr>) (Disks layout) @ ret, heap)
      else let (ret, heap) = ExpandNoneConf heap layouts in (layout # ret, heap))"

definition expandLayoutSplits :: "(string \<Rightarrow> int \<Rightarrow> int option) \<Rightarrow> conf_heap \<Rightarrow> Layout list \<Rightarrow> Layout list" where
  "expandLayoutSplits percent heap layouts =
     concat (map (\<lambda>l. let splitSizes = GetSplitSizes percent (LSize l) (Splits (heap ! LConf l)) in
       if length splitSizes \<le> 0 then [l] else map (\<lambda>ssz. l\<lparr>LSize := ssz\<rparr>) splitSizes) layouts)"

text \<open>
  The loop of \<^verbatim>\<open>CheckDisksAllocable\<close> over the sizes of the disks wanted, with \<^verbatim>\<open>storeIndex\<close>,
  \<^verbatim>\<open>storeFreeSize\<close> and \<^verbatim>\<open>diskIndex\<close>.
\<close>

fun alloc_loop :: "Layout list \<Rightarrow> int list \<Rightarrow> nat \<times> int \<times> nat \<Rightarrow> nat \<times> int \<times> nat" where
  "alloc_loop layouts [] st = st"
| "alloc_loop layouts (disk # disks) (storeIndex, storeFreeSize, diskIndex) =
     (if storeIndex \<ge> length layouts then (storeIndex, storeFreeSize, diskIndex)
      else let free = (if storeFreeSize < 0 then LSize (layouts ! storeIndex) - 2 else storeFreeSize) in
        alloc_loop layouts disks
         (if disk > 0 then
            if free \<ge> disk then
              let free = free - disk in if free = 0 then (storeIndex + 1, - 1, diskIndex + 1) else (storeIndex, free, diskIndex + 1)
            else (storeIndex + 1, - 1, diskIndex)
          else (storeIndex + 1, - 1, diskIndex + 1)))"

definition CheckDisksAllocable :: "(string \<Rightarrow> int \<Rightarrow> int option) \<Rightarrow> conf_heap \<Rightarrow> Layout list \<Rightarrow> int list \<Rightarrow> bool \<times> conf_heap" where
  "CheckDisksAllocable percent heap layouts disks =
     (let (layouts, heap) = ExpandNoneConf heap layouts;
          layouts = expandLayoutSplits percent heap layouts;
          (storeIndex, storeFreeSize, diskIndex) = alloc_loop layouts disks (0, - 1, 0) in
      (\<not> diskIndex < length disks, heap))"

text \<open>The configurations to write to the controllers; equal neighbours are one configuration.\<close>

fun raid_loop :: "conf_heap \<Rightarrow> BaremetalStorage list option \<Rightarrow> nat list \<Rightarrow> Layout list \<Rightarrow> (nat list \<times> conf_heap) option" where
  "raid_loop heap disk ret [] = Some (ret, heap)"
| "raid_loop heap disk ret (layout # layouts) =
     do {
       skip \<leftarrow> (if Conf (heap ! LConf layout) = ''none''
          then do { d \<leftarrow> go_nth (Disks layout) 0; Some (Driver d \<in> {''Linux'', ''PCIE''}) } else Some False);
       if skip then raid_loop heap disk ret layouts
       else if disk \<noteq> Some (Disks layout)
       then let r = LConf layout;
                heap = (if SizeC (heap ! r) = None then heap[r := (heap ! r)\<lparr>SizeC := Some []\<rparr>] else heap) in
         raid_loop heap (Some (Disks layout)) (ret @ [r]) layouts
       else let r = last ret;
                heap = heap[r := (heap ! r)\<lparr>SizeC := Some (slice_of (SizeC (heap ! r)) @ slice_of (SizeC (heap ! LConf layout)))\<rparr>] in
         raid_loop heap disk ret layouts }"

definition GetLayoutRaidConfig :: "conf_heap \<Rightarrow> Layout list \<Rightarrow> (nat list \<times> conf_heap) option" where
  "GetLayoutRaidConfig heap layouts = raid_loop heap None [] layouts"

record DiskConfiguration =
  dc_Driver :: string
  dc_Adapter :: int
  dc_Block :: int
  dc_Size :: int

fun GetDiskConfigurations :: "conf_heap \<Rightarrow> Layout list \<Rightarrow> DiskConfiguration list option" where
  "GetDiskConfigurations heap [] = Some []"
| "GetDiskConfigurations heap (rr # layouts) =
     do {
       d0 \<leftarrow> go_nth (Disks rr) 0;
       let mk = (\<lambda>sz. \<lparr>dc_Driver = Driver d0, dc_Adapter = Adapter d0, dc_Block = GetBlock d0, dc_Size = sz\<rparr>);
       let conf = heap ! LConf rr;
       let disks = (if Conf conf = ''none'' then map (\<lambda>d. mk (Size d)) (Disks rr)
                    else if length (slice_of (SizeC conf)) \<noteq> 0 then map mk (slice_of (SizeC conf))
                    else [mk (LSize rr)]);
       rest \<leftarrow> GetDiskConfigurations heap layouts;
       Some (disks @ rest) }"

record DriverAdapterDiskConfig =
  da_Driver :: string
  da_Adapter :: int
  da_Configs :: "nat list"

text \<open>The table of items is the list in order of creation, found by the key built from both parts.\<close>

definition group_key :: "string \<Rightarrow> int \<Rightarrow> string" where
  "group_key driver adapter = driver @ ''.'' @ dec_int adapter"

fun GroupLayoutResultsByDriverAdapter :: "Layout list \<Rightarrow> (string \<times> DriverAdapterDiskConfig) list \<Rightarrow>
    DriverAdapterDiskConfig list option" where
  "GroupLayoutResultsByDriverAdapter [] tbl = Some (map snd tbl)"
| "GroupLayoutResultsByDriverAdapter (layout # layouts) tbl =
     do {
       d0 \<leftarrow> go_nth (Disks layout) 0;
       let key = group_key (Driver d0) (Adapter d0);
       GroupLayoutResultsByDriverAdapter layouts
         (case map_of tbl key of
            Some item \<Rightarrow> AList.update key (item\<lparr>da_Configs := da_Configs item @ [LConf layout]\<rparr>) tbl
          | None \<Rightarrow> tbl @ [(key, \<lparr>da_Driver = Driver d0, da_Adapter = Adapter d0, da_Configs = [LConf layout]\<rparr>)]) }"

section \<open>Specifications of disks\<close>

type_synonym DiskSpec = "string \<rightharpoonup> (string \<rightharpoonup> int)"

definition GetDiskSpec :: "BaremetalStorage list \<Rightarrow> DiskSpec" where
  "GetDiskSpec storages =
     foldl (\<lambda>diskSpec s.
       let dtype = (if Rotate s then ''HDD'' else ''SSD'');
           sizeStr = dec_int (Size s);
           sc = (case diskSpec dtype of None \<Rightarrow> Map.empty | Some sc \<Rightarrow> sc);
           cnt = (case sc sizeStr of None \<Rightarrow> 0 | Some k \<Rightarrow> k) in
       diskSpec(dtype \<mapsto> sc(sizeStr \<mapsto> cnt + 1))) Map.empty storages"

definition getStoragesByDriver :: "string \<Rightarrow> BaremetalStorage list \<Rightarrow> BaremetalStorage list" where
  "getStoragesByDriver driver storages = filter (\<lambda>s. Driver s = driver) storages"

definition groupByAdapter :: "BaremetalStorage list \<Rightarrow> (string \<rightharpoonup> BaremetalStorage list)" where
  "groupByAdapter storages =
     foldl (\<lambda>ret storage. let key = ''adapter'' @ dec_int (Adapter storage) in
       ret(key \<mapsto> (case ret key of None \<Rightarrow> [storage] | Some old \<Rightarrow> old @ [storage]))) Map.empty storages"

definition getSpec :: "BaremetalStorage list \<Rightarrow> (string \<rightharpoonup> DiskSpec)" where
  "getSpec storages =
     (\<lambda>k. case groupByAdapter storages k of None \<Rightarrow> None | Some ss \<Rightarrow> if length ss = 0 then None else Some (GetDiskSpec ss))"

definition GetDiskSpecV2 :: "BaremetalStorage list \<Rightarrow> (string \<rightharpoonup> (string \<rightharpoonup> DiskSpec))" where
  "GetDiskSpecV2 storages =
     foldl (\<lambda>spec driver. if length (getStoragesByDriver driver storages) = 0 then spec
        else spec(driver \<mapsto> getSpec storages)) Map.empty DISK_DRIVERS"

section \<open>Selection keeps the disks\<close>

text \<open>A disk without the index the selection may give it.\<close>

definition plain :: "BaremetalStorage \<Rightarrow> BaremetalStorage" where
  "plain s = s\<lparr>Index := 0\<rparr>"

definition homogeneous :: "BaremetalStorage list \<Rightarrow> bool" where
  "homogeneous ss \<longleftrightarrow> (\<forall>s \<in> set ss. \<forall>t \<in> set ss. Driver s = Driver t \<and> Adapter s = Adapter t)"

lemma plain_index [simp]: "plain (s\<lparr>Index := i\<rparr>) = plain s"
  by (simp add: plain_def)

lemma plain_fields [simp]: "Size (plain s) = Size s" "Driver (plain s) = Driver s" "Adapter (plain s) = Adapter s"
  by (simp_all add: plain_def)

lemma retrieve_loop_mset:
  "retrieve_loop c d a i ss sel rest = (sel', rest') \<Longrightarrow>
     mset (map plain sel') + mset (map plain rest') = mset (map plain ss) + mset (map plain sel) + mset (map plain rest)"
  by (induction c d a i ss sel rest rule: retrieve_loop.induct) (auto simp: Let_def split: if_splits)

lemma match_driver:
  "isDiskConfigStorageMatch c d a s sel \<Longrightarrow> (\<forall>x. d = Some x \<longrightarrow> x = Driver s) \<and> (\<forall>x. a = Some x \<longrightarrow> x = Adapter s)"
  by (auto simp: isDiskConfigStorageMatch_def Let_def)

lemma retrieve_loop_homogeneous:
  "retrieve_loop c d a i ss sel rest = (sel', rest') \<Longrightarrow> \<forall>s \<in> set sel. d = Some (Driver s) \<and> a = Some (Adapter s) \<Longrightarrow>
     homogeneous sel'"
proof (induction c d a i ss sel rest rule: retrieve_loop.induct)
  case (1 c d a i sel rest)
  then have "sel' = sel" by simp
  with 1(2) show ?case unfolding homogeneous_def by (metis option.inject)
next
  case (2 c d a i s ss sel rest)
  let ?s = "if Index s = 0 then s\<lparr>Index := int i\<rparr> else s"
  show ?case
  proof (cases "isDiskConfigStorageMatch c d a ?s sel")
    case True
    let ?d = "case d of None \<Rightarrow> Some (Driver ?s) | Some x \<Rightarrow> Some x" and ?a = "case a of None \<Rightarrow> Some (Adapter ?s) | Some x \<Rightarrow> Some x"
    have ds: "?d = Some (Driver ?s)" "?a = Some (Adapter ?s)" using match_driver [OF True] by (auto split: option.split)
    have "\<forall>x \<in> set (sel @ [?s]). ?d = Some (Driver x) \<and> ?a = Some (Adapter x)"
      using "2.prems"(2) match_driver [OF True] ds by fastforce
    moreover have "retrieve_loop c ?d ?a (Suc i) ss (sel @ [?s]) rest = (sel', rest')" using "2.prems"(1) True by (simp add: Let_def)
    ultimately show ?thesis using "2.IH"(1) [OF refl True] by blast
  next
    case False
    then show ?thesis using "2.IH"(2) [OF refl False] "2.prems" by (simp add: Let_def)
  qed
qed

lemma RetrieveStorages_mset:
  "RetrieveStorages c ss = (sel, rest) \<Longrightarrow> mset (map plain sel) + mset (map plain rest) = mset (map plain ss)"
  using retrieve_loop_mset [of c _ _ 0 ss "[]" "[]"] by (simp add: RetrieveStorages_def)

lemma RetrieveStorages_homogeneous: "RetrieveStorages c ss = (sel, rest) \<Longrightarrow> homogeneous sel"
  using retrieve_loop_homogeneous [of c _ _ 0 ss "[]" "[]"] by (simp add: RetrieveStorages_def)

section \<open>Laying out\<close>

lemma set_RetrieveStorageDrivers: "set (RetrieveStorageDrivers ss ret) = set ret \<union> Driver ` set ss"
  by (induction ss ret rule: RetrieveStorageDrivers.induct) (auto simp: set_insort_key)

lemma MeetConfig_total:
  assumes "ss \<noteq> []"
  shows "MeetConfig c ss \<noteq> None"
proof -
  have "set (RetrieveStorageDrivers ss []) \<noteq> {}" unfolding set_RetrieveStorageDrivers using assms by simp
  then have "RetrieveStorageDrivers ss [] \<noteq> []" by auto
  then show ?thesis by (simp add: MeetConfig_def Let_def)
qed

lemma MeetConfig_SizeC [simp]: "MeetConfig (c\<lparr>SizeC := x\<rparr>) ss = MeetConfig c ss"
proof -
  have "Conf (c\<lparr>SizeC := x\<rparr>) = Conf c" "Splits (c\<lparr>SizeC := x\<rparr>) = Splits c" "Strip (c\<lparr>SizeC := x\<rparr>) = Strip c"
    by simp_all
  then show ?thesis unfolding MeetConfig_def by (simp only:)
qed

text \<open>What every layout of the result satisfies, and that later writes to other configurations keep it.\<close>

definition layout_ok :: "conf_heap \<Rightarrow> Layout \<Rightarrow> bool" where
  "layout_ok heap l \<longleftrightarrow> LConf l < length heap \<and> Disks l \<noteq> [] \<and> homogeneous (Disks l) \<and>
     MeetConfig (heap ! LConf l) (Disks l) = Some None \<and> LSize l = CalculateSize (Conf (heap ! LConf l)) (Disks l)"

lemma layout_ok_append: "layout_ok heap l \<Longrightarrow> layout_ok (heap @ xs) l"
  by (auto simp: layout_ok_def nth_append)

lemma layout_ok_SizeC: "layout_ok heap l \<Longrightarrow> layout_ok (heap[r := (heap ! r)\<lparr>SizeC := x\<rparr>]) l"
  by (cases "r < length heap") (auto simp: layout_ok_def nth_list_update)

lemma layout_loop_ok:
  "n \<le> length heap \<Longrightarrow> \<forall>l \<in> set ls. layout_ok heap l \<Longrightarrow>
   \<exists>ls' err heap'. layout_loop percent n i ss ls heap = Some (ls', err, heap') \<and> (\<forall>l \<in> set ls'. layout_ok heap' l) \<and>
     (err = None \<longrightarrow> mset (map plain (concat (map Disks ls'))) = mset (map plain (concat (map Disks ls))) + mset (map plain ss))"
proof (induction "length ss" arbitrary: i ss ls heap rule: less_induct)
  case less
  show ?case
  proof (cases "ss = []")
    case True
    with less.prems show ?thesis by (subst layout_loop.simps) simp
  next
    case False
    define i' where "i' = (if i < n then i + 1 else i)"
    define r where "r = (if i < n then i else length heap)"
    define h where "h = (if i < n then heap else heap @ [BaremetalDefaultDiskConfig])"
    have new: "(if i < n then (i + 1, i, heap) else (i, length heap, heap @ [BaremetalDefaultDiskConfig])) = (i', r, h)"
      by (simp add: i'_def r_def h_def)
    have r: "r < length h" "n \<le> length h" using less.prems(1) by (auto simp: r_def h_def)
    have ok: "\<forall>l \<in> set ls. layout_ok h l" using less.prems(2) layout_ok_append by (auto simp: h_def)
    obtain sel rest where sel: "RetrieveStorages (h ! r) ss = (sel, rest)" by fastforce
    note ms = RetrieveStorages_mset [OF sel]
    show ?thesis
    proof (cases "sel = []")
      case True
      then show ?thesis using ok by (subst layout_loop.simps) (simp add: False new sel)
    next
      case ne: False
      then obtain m where m: "MeetConfig (h ! r) sel = Some m" using MeetConfig_total by blast
      show ?thesis
      proof (cases m)
        case (Some e)
        then show ?thesis using ok ne m by (subst layout_loop.simps) (simp add: False new sel)
      next
        case None
        let ?sz = "CalculateSize (Conf (h ! r)) sel"
        let ?h = "if length (Splits (h ! r)) = 0 then h else h[r := (h ! r)\<lparr>SizeC := Some (GetSplitSizes percent ?sz (Splits (h ! r)))\<rparr>]"
        let ?l = "\<lparr>Disks = sel, LConf = r, LSize = ?sz\<rparr>"
        have "layout_ok h ?l"
          using r(1) ne RetrieveStorages_homogeneous [OF sel] m None by (simp add: layout_ok_def)
        then have "\<forall>l \<in> set (ls @ [?l]). layout_ok ?h l" using ok layout_ok_SizeC by auto
        then have IH: "\<exists>ls' err heap'. layout_loop percent n i' rest (ls @ [?l]) ?h = Some (ls', err, heap') \<and>
            (\<forall>l \<in> set ls'. layout_ok heap' l) \<and> (err = None \<longrightarrow> mset (map plain (concat (map Disks ls'))) =
              mset (map plain (concat (map Disks (ls @ [?l])))) + mset (map plain rest))"
          using r(2) by (intro less.hyps [OF RetrieveStorages_shrinks [OF sel ne]]) simp_all
        have "layout_loop percent n i ss ls heap = layout_loop percent n i' rest (ls @ [?l]) ?h"
          using False ne m None by (subst layout_loop.simps) (simp add: new sel Let_def)
        with IH show ?thesis using ms by (auto simp: add.assoc)
      qed
    qed
  qed
qed

section \<open>Sizes stay within the disks\<close>

lemma MinSize_le:
  assumes "\<forall>s \<in> set ss. 0 \<le> Size s"
  shows "0 \<le> m \<Longrightarrow> 0 \<le> GetStoragesMinSize ss m \<and> GetStoragesMinSize ss m \<le> m \<and> (\<forall>s \<in> set ss. GetStoragesMinSize ss m \<le> Size s)"
  using assms
proof (induction ss arbitrary: m)
  case (Cons s ss)
  let ?m = "if m < 0 \<or> m > Size s then Size s else m"
  have "0 \<le> ?m" "?m \<le> m" "?m \<le> Size s" using Cons.prems by auto
  with Cons.IH [of ?m] Cons.prems(2) show ?case by force
qed simp

lemma MinSize_start:
  assumes "ss \<noteq> []" and "\<forall>s \<in> set ss. 0 \<le> Size s"
  shows "0 \<le> GetStoragesMinSize ss (- 1) \<and> (\<forall>s \<in> set ss. GetStoragesMinSize ss (- 1) \<le> Size s)"
proof (cases ss)
  case (Cons s ts)
  then show ?thesis using MinSize_le [of ts "Size s"] assms(2) by auto
qed (use assms in simp)

lemma MinSize_sum:
  assumes "\<forall>s \<in> set ss. m \<le> Size s"
  shows "m * int (length ss) \<le> sum_list (map Size ss)"
  using assms by (induction ss) (auto simp: distrib_left)

lemma sizes_nonneg: "\<forall>s \<in> set ss. 0 \<le> Size s \<Longrightarrow> 0 \<le> sum_list (map Size ss)"
  by (induction ss) auto

lemma fold_sum_wrap:
  assumes "\<forall>s \<in> set ss. 0 \<le> Size s" and "0 \<le> a" and "a + sum_list (map Size ss) < 2 ^ 63"
  shows "foldl (\<lambda>n s. wrap64 (n + Size s)) a ss = a + sum_list (map Size ss)"
  using assms
proof (induction ss arbitrary: a)
  case (Cons s ss)
  have "0 \<le> sum_list (map Size ss)" using Cons.prems(1) by (simp add: sizes_nonneg)
  then have "in_int64 (a + Size s)" using Cons.prems by (simp add: in_int64_def)
  then show ?case using Cons.IH [of "a + Size s"] Cons.prems by simp
qed simp

lemma CalculateSize_bounds:
  assumes "ss \<noteq> []" and nn: "\<forall>s \<in> set ss. 0 \<le> Size s" and small: "sum_list (map Size ss) < 2 ^ 63"
  shows "0 \<le> CalculateSize conf ss \<and> CalculateSize conf ss \<le> sum_list (map Size ss)"
proof -
  let ?m = "GetStoragesMinSize ss (- 1)" and ?n = "int (length ss)"
  have m: "0 \<le> ?m" "?m * ?n \<le> sum_list (map Size ss)" using MinSize_start [OF assms(1) nn] MinSize_sum by auto
  have scaled: "wrap64 (?m * k) = ?m * k \<and> 0 \<le> ?m * k \<and> ?m * k \<le> sum_list (map Size ss)" if "0 \<le> k" "k \<le> ?n" for k
  proof -
    have "?m * k \<le> ?m * ?n" using m(1) that(2) by (simp add: mult_left_mono)
    moreover have "0 \<le> ?m * k" using m(1) that(1) by simp
    ultimately show ?thesis using m(2) small by (simp add: in_int64_def)
  qed
  have n: "1 \<le> ?n" using assms(1) by (cases ss) auto
  have "wrap64 (?m * (?n - 1)) = ?m * (?n - 1) \<and> 0 \<le> ?m * (?n - 1) \<and> ?m * (?n - 1) \<le> sum_list (map Size ss)"
    using n by (intro scaled) auto
  moreover have "wrap64 (?m * int (length ss div 2)) = ?m * int (length ss div 2) \<and> 0 \<le> ?m * int (length ss div 2) \<and>
      ?m * int (length ss div 2) \<le> sum_list (map Size ss)" using scaled [of "int (length ss div 2)"] by simp
  moreover have "0 \<le> sum_list (map Size ss)" using nn by (rule sizes_nonneg)
  ultimately show ?thesis
    using fold_sum_wrap [OF nn, of 0] small unfolding CalculateSize_def Let_def by auto
qed

section \<open>Allocation\<close>

text \<open>
  Disks are given to stores in order: \<open>ns\<close> names the store of each disk, no store is given
  more than its size less two.
\<close>

definition load :: "int list \<Rightarrow> nat list \<Rightarrow> nat \<Rightarrow> int" where
  "load disks ns j = sum_list (map (\<lambda>(d, n). if n = j \<and> d > 0 then d else 0) (zip disks ns))"

definition placed :: "Layout list \<Rightarrow> int list \<Rightarrow> nat list \<Rightarrow> bool" where
  "placed layouts disks ns \<longleftrightarrow> length ns = length disks \<and> sorted ns \<and>
     (\<forall>n \<in> set ns. n < length layouts) \<and> (\<forall>j < length layouts. load disks ns j > 0 \<longrightarrow> load disks ns j \<le> LSize (layouts ! j) - 2)"

lemma load_simps [simp]:
  "load [] ns j = 0" "load (d # ds) (n # ns) j = (if n = j \<and> d > 0 then d else 0) + load ds ns j"
  by (simp_all add: load_def)

lemma load_outside: "\<forall>n \<in> set ns. j < n \<Longrightarrow> load ds ns j = 0"
  by (induction ds arbitrary: ns) (auto simp: load_def zip_Cons1 dest!: set_zip_rightD split: list.split intro!: sum_list_0)

lemma alloc_loop_le: "snd (snd (alloc_loop layouts disks (i, f, k))) \<le> k + length disks"
proof (induction disks arbitrary: i f k)
  case (Cons d ds)
  show ?case
  proof (cases "i < length layouts")
    case True
    let ?free = "if f < 0 then LSize (layouts ! i) - 2 else f"
    let ?st = "if d > 0 then
        if ?free \<ge> d then
          let free = ?free - d in if free = 0 then (i + 1, - 1, k + 1) else (i, free, k + 1)
        else (i + 1, - 1, k)
      else (i + 1, - 1, k + 1)"
    obtain i' f' k' where st: "?st = (i', f', k')" by (cases ?st)
    then have "k' \<le> k + 1" by (simp add: Let_def split: if_splits)
    moreover have "alloc_loop layouts (d # ds) (i, f, k) = alloc_loop layouts ds (i', f', k')"
      using True unfolding st [symmetric] by simp
    ultimately show ?thesis using Cons.IH [of i' f' k'] by simp
  qed simp
qed simp

lemma alloc_loop_placed:
  "snd (snd (alloc_loop layouts disks (i, f, k))) = k + length disks \<Longrightarrow>
   \<exists>ns. length ns = length disks \<and> sorted ns \<and> (\<forall>n \<in> set ns. i \<le> n \<and> n < length layouts) \<and>
     (load disks ns i > 0 \<longrightarrow> load disks ns i \<le> (if f < 0 then LSize (layouts ! i) - 2 else f)) \<and>
     (\<forall>j > i. j < length layouts \<longrightarrow> load disks ns j > 0 \<longrightarrow> load disks ns j \<le> LSize (layouts ! j) - 2)"
proof (induction disks arbitrary: i f k)
  case (Cons d ds)
  let ?free = "if f < 0 then LSize (layouts ! i) - 2 else f"
  have i: "i < length layouts" using Cons.prems by (auto split: if_splits)
  have fits: "d \<le> 0 \<or> d \<le> ?free"
  proof (rule ccontr)
    assume "\<not> (d \<le> 0 \<or> d \<le> ?free)"
    then have "alloc_loop layouts (d # ds) (i, f, k) = alloc_loop layouts ds (i + 1, - 1, k)" using i by (simp add: Let_def)
    then show False using Cons.prems alloc_loop_le [of layouts ds "i + 1" "- 1" k] by simp
  qed
  show ?case
  proof (cases "d \<le> 0 \<or> ?free - d = 0")
    case True
    then have "alloc_loop layouts (d # ds) (i, f, k) = alloc_loop layouts ds (i + 1, - 1, k + 1)"
      using i fits by (auto simp: Let_def)
    with Cons.IH [of "i + 1" "- 1" "k + 1"] Cons.prems obtain ns where ns: "length ns = length ds" "sorted ns"
      "\<forall>n \<in> set ns. i + 1 \<le> n \<and> n < length layouts"
      "\<forall>j > i. j < length layouts \<longrightarrow> load ds ns j > 0 \<longrightarrow> load ds ns j \<le> LSize (layouts ! j) - 2"
      by simp (metis Suc_lessI)
    have "load ds ns i = 0" by (rule load_outside) (use ns(3) in auto)
    then show ?thesis using ns i True by (intro exI [of _ "i # ns"]) auto
  next
    case False
    then have d: "d > 0" and lt: "d < ?free" using fits by auto
    then have "alloc_loop layouts (d # ds) (i, f, k) = alloc_loop layouts ds (i, ?free - d, k + 1)"
      using i by (simp add: Let_def)
    with Cons.IH [of i "?free - d" "k + 1"] Cons.prems lt obtain ns where ns: "length ns = length ds" "sorted ns"
      "\<forall>n \<in> set ns. i \<le> n \<and> n < length layouts" "load ds ns i > 0 \<longrightarrow> load ds ns i \<le> ?free - d"
      "\<forall>j > i. j < length layouts \<longrightarrow> load ds ns j > 0 \<longrightarrow> load ds ns j \<le> LSize (layouts ! j) - 2"
      by auto
    have "load (d # ds) (i # ns) i \<le> ?free"
    proof (cases "load ds ns i > 0")
      case True
      then show ?thesis using ns(4) d by simp
    next
      case False
      then show ?thesis using lt d by simp
    qed
    moreover have "sorted (i # ns)" using ns(2,3) by auto
    ultimately show ?thesis using ns(1,3,5) i by (intro exI [of _ "i # ns"]) auto
  qed
qed simp

section \<open>Ranges\<close>

lemma range_loop_ends:
  "in_int64 i \<Longrightarrow> stop < 2 ^ 63 - 1 \<Longrightarrow> range_loop i stop acc = Some (acc @ [i..stop])"
proof (induction "nat (stop + 1 - i)" arbitrary: i acc)
  case 0
  then show ?case by (subst range_loop.simps) simp
next
  case (Suc n)
  then have le: "i \<le> stop" by simp
  then have nxt: "in_int64 (i + 1)" using Suc.prems by (simp add: in_int64_def)
  have "range_loop (i + 1) stop (acc @ [i]) = Some ((acc @ [i]) @ [i + 1..stop])"
    using Suc.hyps(2) le by (intro Suc.hyps(1) nxt Suc.prems(2)) simp
  then show ?case using le nxt by (subst range_loop.simps) (simp add: upto_rec1)
qed

lemma range_loop_diverges:
  assumes "in_int64 i"
  shows "range_loop i (2 ^ 63 - 1) acc = None"
proof (rule ccontr)
  have stuck: "\<not> (stop = 2 ^ 63 - 1 \<and> in_int64 i)" if "range_loop i stop ac = Some res" for i stop ac res
    using that
  proof (rule range_loop.raw_induct [where P = "\<lambda>i stop ac res. \<not> (stop = 2 ^ 63 - 1 \<and> in_int64 i)", rotated])
    fix rl i stop ac res
    assume IH: "\<And>x xa xb xc. rl x xa xb = Some xc \<Longrightarrow> \<not> (xa = 2 ^ 63 - 1 \<and> in_int64 x)"
      and res: "(if i \<le> stop then rl (wrap64 (i + 1)) stop (ac @ [i]) else Some ac) = Some res"
    show "\<not> (stop = 2 ^ 63 - 1 \<and> in_int64 i)"
    proof
      assume a: "stop = 2 ^ 63 - 1 \<and> in_int64 i"
      then have "i \<le> stop" by (simp add: in_int64_def)
      then have "rl (wrap64 (i + 1)) stop (ac @ [i]) = Some res" using res by simp
      from IH [OF this] a show False by simp
    qed
  qed
  assume "range_loop i (2 ^ 63 - 1) acc \<noteq> None"
  then obtain res where "range_loop i (2 ^ 63 - 1) acc = Some res" by blast
  from stuck [OF this] assms show False by simp
qed

lemma ParseInt_in_int64: "in_int64 (fst (strconv_ParseInt s b))"
  by (auto simp: strconv_ParseInt_def Let_def in_int64_def split: option.split)

lemma digits_no_dash: "IsMatchInteger s \<Longrightarrow> CHR ''-'' \<notin> set s"
  using not_digit_sign(1) by (auto simp: IsMatchInteger_def list_all_iff)

section \<open>Properties\<close>

text \<open>
  C21. Laying out always ends without a panic. When it succeeds every disk is in exactly one
  layout, and the disks of a layout are at least one, on one adapter of one driver, meet
  the configuration of the layout and give its size.
\<close>

theorem CalculateLayout_partitions_disks:
  "\<exists>layouts err heap. CalculateLayout percent confs storages = Some (layouts, err, heap) \<and>
     (\<forall>l \<in> set layouts. LConf l < length heap \<and> Disks l \<noteq> [] \<and> homogeneous (Disks l) \<and>
        MeetConfig (heap ! LConf l) (Disks l) = Some None \<and> LSize l = CalculateSize (Conf (heap ! LConf l)) (Disks l)) \<and>
     (err = None \<longrightarrow> mset (map plain (concat (map Disks layouts))) = mset (map plain storages))"
  using layout_loop_ok [of "length confs" confs "[]" percent 0 storages] unfolding CalculateLayout_def layout_ok_def by simp

definition demo_disk :: "bool \<Rightarrow> int \<Rightarrow> BaremetalStorage" where
  "demo_disk rot sz = \<lparr>Size = sz, Driver = ''MegaRaid'', Rotate = rot, Dev = [], Sector = 0, Block = 0, ModuleInfo = [], Kernel = [],
     PCIClass = [], Slot = 0, Status = [], Adapter = 0, Model = [], Enclosure = 0, MinStripSize = - 1, MaxStripSize = - 1,
     Index = 0, Addr = []\<rparr>"

lemma CalculateLayout_partitions_disks_witness:
  "\<exists>layouts heap. CalculateLayout (\<lambda>_ _. None) [BaremetalDefaultDiskConfig\<lparr>Conf := ''raid1'', Count := 2\<rparr>]
      [demo_disk True 100, demo_disk True 120, demo_disk False 50] = Some (layouts, None, heap) \<and>
     mset (map plain (concat (map Disks layouts))) = mset (map plain [demo_disk True 100, demo_disk True 120, demo_disk False 50])"
proof -
  have "map_option (\<lambda>(ls, err, h). err) (CalculateLayout (\<lambda>_ _. None) [BaremetalDefaultDiskConfig\<lparr>Conf := ''raid1'', Count := 2\<rparr>]
      [demo_disk True 100, demo_disk True 120, demo_disk False 50]) = Some None" by code_simp
  with CalculateLayout_partitions_disks [of "\<lambda>_ _. None" "[BaremetalDefaultDiskConfig\<lparr>Conf := ''raid1'', Count := 2\<rparr>]"
    "[demo_disk True 100, demo_disk True 120, demo_disk False 50]"] show ?thesis by fastforce
qed

text \<open>
  The size computed for a layout, whatever its RAID level, is never negative and never
  more than the disks have together, as long as that is below 2 to the 63.
\<close>

theorem CalculateSize_within_disks:
  assumes "ss \<noteq> []" and "\<forall>s \<in> set ss. 0 \<le> Size s" and "sum_list (map Size ss) < 2 ^ 63"
  shows "0 \<le> CalculateSize conf ss \<and> CalculateSize conf ss \<le> sum_list (map Size ss)"
  by (rule CalculateSize_bounds [OF assms])

lemma CalculateSize_within_disks_witness:
  "0 \<le> CalculateSize ''raid5'' [demo_disk True 100, demo_disk True 120, demo_disk True 90] \<and>
     CalculateSize ''raid5'' [demo_disk True 100, demo_disk True 120, demo_disk True 90] \<le>
       sum_list (map Size [demo_disk True 100, demo_disk True 120, demo_disk True 90])"
  by (rule CalculateSize_within_disks) (simp_all add: demo_disk_def)


definition demo_layouts :: "Layout list" where
  "demo_layouts = [\<lparr>Disks = [demo_disk True 12], LConf = 0, LSize = 12\<rparr>, \<lparr>Disks = [demo_disk True 102], LConf = 0, LSize = 102\<rparr>]"


text \<open>
  The converse fails: a disk that does not fit into the rest of a layout is dropped when
  the loop moves on to the next layout. One disk of 20 is refused on layouts of 12 and 102,
  although it can be placed on the second.
\<close>

theorem CheckDisksAllocable_drops_disk:
  "fst (CheckDisksAllocable percent [BaremetalDefaultDiskConfig] demo_layouts [20]) = False \<and>
     placed (expandLayoutSplits percent (snd (ExpandNoneConf [BaremetalDefaultDiskConfig] demo_layouts))
       (fst (ExpandNoneConf [BaremetalDefaultDiskConfig] demo_layouts))) [20] [1]"
proof -
  obtain ls h where e: "ExpandNoneConf [BaremetalDefaultDiskConfig] demo_layouts = (ls, h)" by fastforce
  have "expandLayoutSplits percent (snd (ExpandNoneConf [BaremetalDefaultDiskConfig] demo_layouts))
      (fst (ExpandNoneConf [BaremetalDefaultDiskConfig] demo_layouts)) = demo_layouts"
    by (simp add: demo_layouts_def expandLayoutSplits_def BaremetalDefaultDiskConfig_def demo_disk_def GetSplitSizes_def
      strings_HasSuffix_def wrap64_def Let_def)
  then have x: "expandLayoutSplits percent h ls = demo_layouts" by (simp add: e)
  have "placed demo_layouts [20] [1]"
    by (auto simp: placed_def demo_layouts_def less_Suc_eq)
  moreover have "alloc_loop demo_layouts [20] (0, - 1, 0) = (1, - 1, 0)" by (simp add: demo_layouts_def)
  then have "CheckDisksAllocable percent [BaremetalDefaultDiskConfig] demo_layouts [20] = (\<not> 0 < length [20 :: int], h)"
    by (simp only: CheckDisksAllocable_def e Let_def prod.case x)
  ultimately show ?thesis using x by (simp add: e)
qed

text \<open>
  C39. Reading a range of indices ends exactly when the larger bound is not the largest 64-bit
  integer, and then gives the indices from the smaller to the larger bound; with the largest
  integer the counter wraps and the loop never ends.
\<close>

theorem parseRangeStr_ends_iff:
  assumes "IsMatchInteger bs" and "IsMatchInteger es"
    and "b = fst (strconv_ParseInt bs 10)" and "e = fst (strconv_ParseInt es 10)"
  shows "parseRangeStr (bs @ ''-'' @ es) = (if max b e = 2 ^ 63 - 1 then None else Some (Inr [min b e..max b e]))"
proof -
  have split: "strings_Split (CHR ''-'') (bs @ ''-'' @ es) = [bs, es]"
    using digits_no_dash [OF assms(1)] digits_no_dash [OF assms(2)]
    by (simp add: strings_Split_append_sep strings_Split_whole)
  have be: "in_int64 b" "in_int64 e" using assms(3,4) ParseInt_in_int64 by auto
  then have "in_int64 (min b e)" "max b e \<le> 2 ^ 63 - 1" by (auto simp: min_def max_def in_int64_def)
  then have loop: "range_loop (min b e) (max b e) [] = (if max b e = 2 ^ 63 - 1 then None else Some [min b e..max b e])"
    using range_loop_ends [of "min b e" "max b e" "[]"] range_loop_diverges [of "min b e" "[]"]
    by (cases "max b e = 2 ^ 63 - 1") (simp_all only: append.simps if_True if_False, simp)
  have "parseRangeStr (bs @ ''-'' @ es) = map_option Inr (range_loop (min b e) (max b e) [])"
    unfolding parseRangeStr_def split using assms by (simp add: Let_def)
  then show ?thesis unfolding loop by simp
qed

lemma parseRangeStr_ends_iff_witness:
  "parseRangeStr ''9223372036854775807-1'' = None"
  using parseRangeStr_ends_iff [of "''9223372036854775807''" "''1''" "2 ^ 63 - 1" 1]
  by (simp add: IsMatchInteger_def is_digit_def strconv_ParseInt_def parse_digits_def digit_value_def Let_def)

definition valid_config :: "BaremetalDiskConfig \<Rightarrow> bool" where
  "valid_config c \<longleftrightarrow> Type c \<in> set DISK_TYPES \<and> Conf c \<in> set DISK_CONFS \<and> (DriverC c = [] \<or> DriverC c \<in> set DISK_DRIVERS) \<and>
     in_int64 (Count c) \<and> (\<forall>a. AdapterC c = Some a \<longrightarrow> in_int64 a)"

lemma drvMap_in: "drvMap p = Some drv \<Longrightarrow> drv \<in> set DISK_DRIVERS"
  unfolding drvMap_def by (auto dest!: map_of_SomeD)

lemma parse_flag_valid: "parse_flag p c = Returns c' \<Longrightarrow> valid_config c \<Longrightarrow> valid_config c'"
  by (auto simp: parse_flag_def valid_config_def split: if_splits)

lemma parse_part_valid:
  assumes r: "parse_part p c = Some (Returns c')" and v: "valid_config c"
  shows "valid_config c'"
proof -
  note r = r [unfolded parse_part_def]
  show ?thesis
  proof (cases "p \<in> set DISK_TYPES \<or> p \<in> set DISK_CONFS \<or> length p = 0")
    case True
    then show ?thesis using r v by (auto simp: valid_config_def split: if_splits)
  next
    case False
    show ?thesis
    proof (cases "drvMap p")
      case (Some drv)
      then have "c' = c\<lparr>DriverC := drv\<rparr>" using r False by simp
      then show ?thesis using v drvMap_in [OF Some] by (simp add: valid_config_def)
    next
      case None
      define f where "f = parse_flag p c"
      define range splits where "range \<longleftrightarrow> length p > 2 \<and> hd p = CHR ''['' \<and> last p = CHR '']''"
        and "splits \<longleftrightarrow> length p > 2 \<and> hd p = CHR ''('' \<and> last p = CHR '')''"
      have r: "(if IsMatchInteger p then Some (Returns (c\<lparr>Count := fst (strconv_ParseInt p 0)\<rparr>))
          else if range then do { r \<leftarrow> ParseRange (butlast (tl p)); Some (case r of Inl err \<Rightarrow> Fails err | Inr rg \<Rightarrow> Returns (c\<lparr>Range := rg\<rparr>)) }
          else if splits then Some (Returns (c\<lparr>Splits := butlast (tl p)\<rparr>))
          else if strings_HasPrefix p ''strip''
          then Some (case parseStrip (drop 5 p) ''k'' of None \<Rightarrow> Panics | Some strip \<Rightarrow> Returns (c\<lparr>Strip := Some strip\<rparr>))
          else if strings_HasPrefix p ''adapter'' then Some (Returns (c\<lparr>AdapterC := Some (fst (strconv_ParseInt (drop 7 p) 0))\<rparr>))
          else Some f) = Some (Returns c')"
        using r False None unfolding range_def splits_def f_def by (simp only: if_False option.case de_Morgan_disj)
      consider (count) "IsMatchInteger p" | (range) "\<not> IsMatchInteger p" range | (splits) "\<not> IsMatchInteger p" "\<not> range" splits
        | (strip) "\<not> IsMatchInteger p" "\<not> range" "\<not> splits" "strings_HasPrefix p ''strip''"
        | (adapter) "\<not> IsMatchInteger p" "\<not> range" "\<not> splits" "\<not> strings_HasPrefix p ''strip''" "strings_HasPrefix p ''adapter''"
        | (flag) "\<not> IsMatchInteger p" "\<not> range" "\<not> splits" "\<not> strings_HasPrefix p ''strip''" "\<not> strings_HasPrefix p ''adapter''"
        by blast
      then show ?thesis
      proof cases
        case range
        then obtain x where "ParseRange (butlast (tl p)) = Some x" using r by (cases "ParseRange (butlast (tl p))") auto
        then obtain rg where "c' = c\<lparr>Range := rg\<rparr>" using r range by (cases x) auto
        then show ?thesis using v by (simp add: valid_config_def)
      next
        case strip
        then obtain st where "c' = c\<lparr>Strip := st\<rparr>" using r by (auto split: option.splits)
        then show ?thesis using v by (simp add: valid_config_def)
      next
        case flag
        then have "parse_flag p c = Returns c'" using r f_def by simp
        then show ?thesis using v by (rule parse_flag_valid)
      next
        case count
        then have "c' = c\<lparr>Count := fst (strconv_ParseInt p 0)\<rparr>" using r by simp
        then show ?thesis using v by (simp add: valid_config_def ParseInt_in_int64)
      next
        case splits
        then have "c' = c\<lparr>Splits := butlast (tl p)\<rparr>" using r by simp
        then show ?thesis using v by (simp add: valid_config_def)
      next
        case adapter
        then have "c' = c\<lparr>AdapterC := Some (fst (strconv_ParseInt (drop 7 p) 0))\<rparr>" using r by simp
        then show ?thesis using v by (simp add: valid_config_def ParseInt_in_int64)
      qed
    qed
  qed
qed

lemma parse_parts_valid: "parse_parts ps c = Some (Returns c') \<Longrightarrow> valid_config c \<Longrightarrow> valid_config c'"
proof (induction ps c rule: parse_parts.induct)
  case (2 p ps c)
  then obtain r where "parse_part p c = Some r" by (cases "parse_part p c") auto
  with 2 show ?case using parse_part_valid by (cases r) auto
qed simp



end
