(* ===== verification/Go_Bytes.thy ===== *)
theory Go_Bytes
  imports Go_Prelude
begin

text \<open>
  Byte slices: Go's \<^verbatim>\<open>copy\<close> into a part of a slice and the big-endian integers of
  \<^verbatim>\<open>encoding/binary\<close>, with the lemmas the packet formats share.
\<close>

unbundle bit_operations_syntax

text \<open>\<open>go_copy lo hi src b\<close> is \<^verbatim>\<open>copy(b[lo:hi], src)\<close> on a slice with at least \<open>hi\<close> elements.\<close>

definition go_copy :: "nat \<Rightarrow> nat \<Rightarrow> 'a list \<Rightarrow> 'a list \<Rightarrow> 'a list" where
  "go_copy lo hi src b = take lo b @ take (hi - lo) src @ drop (lo + min (hi - lo) (length src)) b"

definition slice :: "nat \<Rightarrow> nat \<Rightarrow> 'a list \<Rightarrow> 'a list" where
  "slice lo hi b = take (hi - lo) (drop lo b)"

lemma length_go_copy [simp]: "lo \<le> hi \<Longrightarrow> hi \<le> length b \<Longrightarrow> length (go_copy lo hi src b) = length b"
  by (simp add: go_copy_def)

lemma length_slice [simp]: "length (slice lo hi b) = min (hi - lo) (length b - lo)"
  by (simp add: slice_def)

lemma nth_go_copy:
  assumes "lo \<le> hi" "hi \<le> length b" "i < length b"
  shows "go_copy lo hi src b ! i = (if lo \<le> i \<and> i < hi \<and> i < lo + length src then src ! (i - lo) else b ! i)"
  using assms by (auto simp: go_copy_def nth_append min_def)

lemma nth_slice: "i < hi - lo \<Longrightarrow> lo + i < length b \<Longrightarrow> slice lo hi b ! i = b ! (lo + i)"
  by (simp add: slice_def)

lemma slice_eqI:
  assumes "hi \<le> length a" "hi \<le> length b" "\<And>i. lo \<le> i \<Longrightarrow> i < hi \<Longrightarrow> a ! i = b ! i"
  shows "slice lo hi a = slice lo hi b"
  using assms by (intro nth_equalityI) (auto simp: nth_slice)

lemma slice_go_copy_same:
  assumes "lo \<le> hi" "hi \<le> length b" "length src = hi - lo"
  shows "slice lo hi (go_copy lo hi src b) = src"
  using assms by (intro nth_equalityI) (auto simp: nth_slice nth_go_copy)

lemma slice_go_copy_other:
  assumes "lo' \<le> hi'" "hi' \<le> length b" "hi \<le> length b" "hi \<le> lo' \<or> hi' \<le> lo"
  shows "slice lo hi (go_copy lo' hi' src b) = slice lo hi b"
  using assms by (intro slice_eqI) (auto simp: nth_go_copy)

lemma slice_append: "hi \<le> length a \<Longrightarrow> slice lo hi (a @ b) = slice lo hi a"
  by (simp add: slice_def)

lemma slice_update_other: "i < lo \<or> hi \<le> i \<Longrightarrow> slice lo hi (b[i := v]) = slice lo hi b"
  by (intro nth_equalityI) (auto simp: nth_slice)

section \<open>Big-endian integers\<close>

definition be16 :: "16 word \<Rightarrow> bytes" where
  "be16 w = [ucast (drop_bit 8 w), ucast w]"

definition be16_get :: "bytes \<Rightarrow> 16 word" where
  "be16_get b = push_bit 8 (ucast (b ! 0)) OR ucast (b ! 1)"

definition be32 :: "32 word \<Rightarrow> bytes" where
  "be32 w = [ucast (drop_bit 24 w), ucast (drop_bit 16 w), ucast (drop_bit 8 w), ucast w]"

definition be32_get :: "bytes \<Rightarrow> 32 word" where
  "be32_get b = push_bit 24 (ucast (b ! 0)) OR push_bit 16 (ucast (b ! 1)) OR push_bit 8 (ucast (b ! 2)) OR ucast (b ! 3)"

lemma length_be [simp]: "length (be16 w) = 2" "length (be32 v) = 4"
  by (simp_all add: be16_def be32_def)

lemma be16_get_be16 [simp]: "be16_get (be16 w) = w"
  by (rule bit_word_eqI) (auto simp: be16_def be16_get_def bit_simps)

lemma be32_get_be32 [simp]: "be32_get (be32 w) = w"
proof (rule bit_word_eqI)
  fix n assume n: "n < LENGTH(32)"
  consider "n < 8" | "8 \<le> n" "n < 16" | "16 \<le> n" "n < 24" | "24 \<le> n" "n < 32" using n by fastforce
  then show "bit (be32_get (be32 w)) n \<longleftrightarrow> bit w n"
    by cases (auto simp: be32_def be32_get_def bit_simps)
qed

end
