(* ===== verification/Ethernet.thy ===== *)
theory Ethernet
  imports Go_Bytes
begin

text \<open>
  Ethernet II frames with VLAN tags: \<^verbatim>\<open>pkg/util/ethernet/ethernet.go\<close> and \<^verbatim>\<open>vlan.go\<close>,
  marshalling and unmarshalling with and without a frame check sequence. Buffers are written
  with \<open>go_copy\<close>; an operation that fails returns what it has written so far.
\<close>

unbundle bit_operations_syntax

datatype eth_error = ErrInvalidVLAN | ErrUnexpectedEOF | ErrInvalidFCS

section \<open>VLAN tags\<close>

record VLAN =
  Priority :: byte
  DropEligible :: bool
  ID :: "16 word"

text \<open>The two bytes \<^verbatim>\<open>read\<close> writes.\<close>

definition vlan_read :: "VLAN \<Rightarrow> eth_error + bytes" where
  "vlan_read v =
     (if Priority v > 7 then Inl ErrInvalidVLAN
      else if ID v \<ge> 0xfff then Inl ErrInvalidVLAN
      else let ub = push_bit 13 (ucast (Priority v)) :: 16 word;
               drop = (if DropEligible v then 1 else 0);
               ub = ub OR push_bit 12 drop;
               ub = ub OR ID v in
        Inr (be16 ub))"

definition vlan_MarshalBinary :: "VLAN \<Rightarrow> bytes \<times> eth_error option" where
  "vlan_MarshalBinary v = (case vlan_read v of Inl err \<Rightarrow> ([0, 0], Some err) | Inr b \<Rightarrow> (b, None))"

definition vlan_UnmarshalBinary :: "bytes \<Rightarrow> eth_error + VLAN" where
  "vlan_UnmarshalBinary b =
     (if length b \<noteq> 2 then Inl ErrUnexpectedEOF
      else let ub = be16_get (slice 0 2 b);
               v = \<lparr>Priority = ucast (drop_bit 13 ub), DropEligible = (ub AND 0x1000 \<noteq> 0), ID = ub AND 0x0fff\<rparr> in
        if ID v \<ge> 0xfff then Inl ErrInvalidVLAN else Inr v)"

section \<open>Frames\<close>

definition EtherTypeVLAN :: "16 word" where "EtherTypeVLAN = 0x8100"
definition EtherTypeServiceVLAN :: "16 word" where "EtherTypeServiceVLAN = 0x88a8"

record Frame =
  Destination :: bytes
  Source :: bytes
  ServiceVLAN :: "VLAN option"
  VLANTag :: "VLAN option"
  EtherType :: "16 word"
  Payload :: bytes

definition frame_length :: "Frame \<Rightarrow> nat" where
  "frame_length f =
     (let pl = (if length (Payload f) < 46 then 46 else length (Payload f));
          vlanLen = (if ServiceVLAN f \<noteq> None \<and> VLANTag f \<noteq> None then 8 else if VLANTag f \<noteq> None then 4 else 0) in
      6 + 6 + vlanLen + 2 + pl)"

fun read_vlans :: "(VLAN option \<times> 16 word) list \<Rightarrow> nat \<Rightarrow> bytes \<Rightarrow> bytes \<times> (eth_error + nat)" where
  "read_vlans [] n b = (b, Inr n)"
| "read_vlans ((None, tpid) # vts) n b = read_vlans vts n b"
| "read_vlans ((Some v, tpid) # vts) n b =
     (let b = go_copy n (n + 2) (be16 tpid) b in
      case vlan_read v of
        Inl err \<Rightarrow> (b, Inl err)
      | Inr tag \<Rightarrow> read_vlans vts (n + 4) (go_copy (n + 2) (n + 4) tag b))"

definition frame_read :: "Frame \<Rightarrow> bytes \<Rightarrow> bytes \<times> eth_error option" where
  "frame_read f b =
     (if ServiceVLAN f \<noteq> None \<and> VLANTag f = None then (b, Some ErrInvalidVLAN)
      else let b = go_copy 0 6 (Destination f) b;
               b = go_copy 6 12 (Source f) b in
        case read_vlans [(ServiceVLAN f, EtherTypeServiceVLAN), (VLANTag f, EtherTypeVLAN)] 12 b of
          (b, Inl err) \<Rightarrow> (b, Some err)
        | (b, Inr n) \<Rightarrow>
            let b = go_copy n (n + 2) (be16 (EtherType f)) b in
            (go_copy (n + 2) (length b) (Payload f) b, None))"

definition MarshalBinary :: "Frame \<Rightarrow> bytes \<times> eth_error option" where
  "MarshalBinary f = frame_read f (replicate (frame_length f) 0)"

text \<open>\<^verbatim>\<open>crc32.ChecksumIEEE\<close>: the reflected polynomial, bit by bit.\<close>

definition crc_bit :: "32 word \<Rightarrow> 32 word" where
  "crc_bit c = (if bit c 0 then drop_bit 1 c XOR 0xEDB88320 else drop_bit 1 c)"

definition ChecksumIEEE :: "bytes \<Rightarrow> 32 word" where
  "ChecksumIEEE bs = NOT (foldl (\<lambda>c b. (crc_bit ^^ 8) (c XOR ucast b)) (NOT 0) bs)"

definition MarshalFCS :: "Frame \<Rightarrow> eth_error + bytes" where
  "MarshalFCS f =
     (case frame_read f (replicate (frame_length f + 4) 0) of
        (b, Some err) \<Rightarrow> Inl err
      | (b, None) \<Rightarrow> Inr (go_copy (length b - 4) (length b) (be32 (ChecksumIEEE (slice 0 (length b - 4) b))) b))"

definition unmarshalVLANs :: "16 word \<Rightarrow> bytes \<Rightarrow> Frame \<Rightarrow> Frame \<times> (eth_error + nat)" where
  "unmarshalVLANs tpid b f =
     (if length b < 4 then (f, Inl ErrUnexpectedEOF)
      else
        let customer = (\<lambda>n f. case vlan_UnmarshalBinary (slice n (n + 2) b) of
            Inl err \<Rightarrow> (f, Inl err)
          | Inr v \<Rightarrow> (f\<lparr>VLANTag := Some v, EtherType := be16_get (slice (n + 2) (n + 4) b)\<rparr>, Inr (n + 4))) in
        if tpid = EtherTypeServiceVLAN then
          (case vlan_UnmarshalBinary (slice 0 2 b) of
             Inl err \<Rightarrow> (f, Inl err)
           | Inr v \<Rightarrow>
               let f = f\<lparr>ServiceVLAN := Some v\<rparr> in
               if be16_get (slice 2 4 b) \<noteq> EtherTypeVLAN then (f, Inl ErrInvalidVLAN)
               else if length (drop 4 b) < 4 then (f, Inl ErrUnexpectedEOF)
               else customer 4 f)
        else customer 0 f)"

definition UnmarshalBinary :: "Frame \<Rightarrow> bytes \<Rightarrow> Frame \<times> eth_error option" where
  "UnmarshalBinary f b =
     (if length b < 14 then (f, Some ErrUnexpectedEOF)
      else let et = be16_get (slice 12 14 b);
               (f, r) = (if et = EtherTypeServiceVLAN \<or> et = EtherTypeVLAN then unmarshalVLANs et (drop 14 b) f
                         else (f\<lparr>EtherType := et\<rparr>, Inr 0)) in
        case r of
          Inl err \<Rightarrow> (f, Some err)
        | Inr nn \<Rightarrow> (f\<lparr>Destination := slice 0 6 b, Source := slice 6 12 b, Payload := drop (14 + nn) b\<rparr>, None))"

definition UnmarshalFCS :: "Frame \<Rightarrow> bytes \<Rightarrow> Frame \<times> eth_error option" where
  "UnmarshalFCS f b =
     (if length b < 4 then (f, Some ErrUnexpectedEOF)
      else if be32_get (slice (length b - 4) (length b) b) \<noteq> ChecksumIEEE (slice 0 (length b - 4) b)
      then (f, Some ErrInvalidFCS)
      else UnmarshalBinary f (slice 0 (length b - 4) b))"

definition emptyFrame :: Frame where
  "emptyFrame = \<lparr>Destination = [], Source = [], ServiceVLAN = None, VLANTag = None, EtherType = 0, Payload = []\<rparr>"

section \<open>Tags are read back\<close>

definition vlan_ok :: "VLAN \<Rightarrow> bool" where
  "vlan_ok v \<longleftrightarrow> Priority v \<le> 7 \<and> ID v < 0xfff"

lemma vlan_read_ok: "(\<exists>b. vlan_read v = Inr b) \<longleftrightarrow> vlan_ok v"
  by (auto simp: vlan_read_def vlan_ok_def Let_def not_less not_le)

lemma bit_less_exp:
  fixes w :: "'a::len word"
  assumes "unat w < 2 ^ k" and "bit w n"
  shows "n < k"
proof (rule ccontr)
  assume "\<not> n < k"
  then have "(2::nat) ^ k \<le> 2 ^ n" by simp
  then have "unat w < 2 ^ n" using assms(1) by (rule less_le_trans [rotated])
  then have "unat w div 2 ^ n = 0" by simp
  moreover have "bit (unat w) n" using assms(2) by (simp add: bit_unsigned_iff)
  ultimately show False by (simp add: bit_nat_def)
qed

lemma vlan_bits:
  assumes "vlan_ok v"
  shows "bit (Priority v) n \<Longrightarrow> n < 3" and "bit (ID v) n \<Longrightarrow> n < 12"
proof -
  have "unat (Priority v) \<le> unat (7 :: byte)" "unat (ID v) < unat (0xfff :: 16 word)"
    using assms unfolding vlan_ok_def word_le_nat_alt word_less_nat_alt by simp_all
  then have "unat (Priority v) < 2 ^ 3" "unat (ID v) < 2 ^ 12" by simp_all
  then show "bit (Priority v) n \<Longrightarrow> n < 3" "bit (ID v) n \<Longrightarrow> n < 12" using bit_less_exp by blast+
qed

definition vlan_word :: "VLAN \<Rightarrow> 16 word" where
  "vlan_word v = (push_bit 13 (ucast (Priority v)) OR push_bit 12 (if DropEligible v then 1 else 0)) OR ID v"

lemma vlan_read_word: "vlan_ok v \<Longrightarrow> vlan_read v = Inr (be16 (vlan_word v))"
  by (auto simp: vlan_read_def vlan_ok_def vlan_word_def Let_def not_less not_le)

lemma bit_vlan_word:
  assumes "vlan_ok v" and "n < 16"
  shows "bit (vlan_word v) n \<longleftrightarrow>
     (if n < 12 then bit (ID v) n else if n = 12 then DropEligible v else bit (Priority v) (n - 13))"
  using assms vlan_bits [OF assms(1)] by (auto simp: vlan_word_def bit_simps)

lemma vlan_word_fields:
  assumes "vlan_ok v"
  shows "ucast (drop_bit 13 (vlan_word v)) = Priority v" and "vlan_word v AND 0x0fff = ID v"
    and "vlan_word v AND 0x1000 \<noteq> 0 \<longleftrightarrow> DropEligible v"
proof -
  show "ucast (drop_bit 13 (vlan_word v)) = Priority v"
  proof (rule bit_word_eqI)
    fix n assume "n < LENGTH(8)"
    moreover have "bit (vlan_word v) (13 + n) \<longleftrightarrow> n < 3 \<and> bit (Priority v) n"
    proof (cases "n < 3")
      case True
      then show ?thesis using bit_vlan_word [OF assms, of "13 + n"] by simp
    next
      case False
      then show ?thesis using bit_imp_le_length [of "vlan_word v" "13 + n"] by auto
    qed
    ultimately show "bit (ucast (drop_bit 13 (vlan_word v)) :: byte) n \<longleftrightarrow> bit (Priority v) n"
      using vlan_bits(1) [OF assms, of n] by (auto simp: bit_simps)
  qed
  have m: "(0x0fff :: 16 word) = mask 12" by (simp add: mask_eq_exp_minus_1)
  show "vlan_word v AND 0x0fff = ID v"
    unfolding m by (rule bit_word_eqI) (use vlan_bits [OF assms] bit_vlan_word [OF assms] in \<open>auto simp: bit_simps\<close>)
  have s: "(0x1000 :: 16 word) = push_bit 12 1" by simp
  have b: "bit (0x1000 :: 16 word) n \<longleftrightarrow> n = 12" for n
    unfolding s by (subst bit_push_bit_iff) (auto simp: bit_1_iff)
  have "vlan_word v AND 0x1000 = 0 \<longleftrightarrow> \<not> bit (vlan_word v) 12"
  proof
    assume "vlan_word v AND 0x1000 = 0"
    then have "\<not> bit (vlan_word v AND 0x1000) 12" by (simp only: bit_0_eq) simp
    then show "\<not> bit (vlan_word v) 12" by (simp add: bit_and_iff b)
  next
    assume "\<not> bit (vlan_word v) 12"
    then have "\<not> bit (vlan_word v AND 0x1000) n" for n unfolding bit_and_iff b by blast
    then show "vlan_word v AND 0x1000 = 0" by (intro bit_word_eqI) (simp only: bit_0_eq, simp)
  qed
  then show "vlan_word v AND 0x1000 \<noteq> 0 \<longleftrightarrow> DropEligible v" using bit_vlan_word [OF assms, of 12] by simp
qed

lemma vlan_roundtrip: "vlan_ok v \<Longrightarrow> vlan_UnmarshalBinary (be16 (vlan_word v)) = Inr v"
proof -
  assume ok: "vlan_ok v"
  have "slice 0 2 (be16 (vlan_word v)) = be16 (vlan_word v)" by (simp add: slice_def be16_def)
  then show ?thesis
    using vlan_word_fields [OF ok] ok by (auto simp: vlan_UnmarshalBinary_def Let_def vlan_ok_def not_le)
qed

section \<open>Frames are read back\<close>

definition frame_ok :: "Frame \<Rightarrow> bool" where
  "frame_ok f \<longleftrightarrow> length (Destination f) = 6 \<and> length (Source f) = 6 \<and>
     (\<forall>v. ServiceVLAN f = Some v \<longrightarrow> vlan_ok v \<and> VLANTag f \<noteq> None) \<and> (\<forall>v. VLANTag f = Some v \<longrightarrow> vlan_ok v)"

definition tag_bytes :: "VLAN option \<Rightarrow> 16 word \<Rightarrow> bytes" where
  "tag_bytes t tpid = (case t of None \<Rightarrow> [] | Some v \<Rightarrow> be16 tpid @ be16 (vlan_word v))"

definition header :: "Frame \<Rightarrow> bytes" where
  "header f = Destination f @ Source f @ tag_bytes (ServiceVLAN f) EtherTypeServiceVLAN @
     tag_bytes (VLANTag f) EtherTypeVLAN @ be16 (EtherType f)"

lemma go_copy_next:
  "length pre = lo \<Longrightarrow> length src \<le> hi - lo \<Longrightarrow> length src \<le> n \<Longrightarrow>
     go_copy lo hi src (pre @ replicate n z) = (pre @ src) @ replicate (n - length src) z"
  by (simp add: go_copy_def)

lemma read_vlans_next:
  assumes "\<forall>(t, tpid) \<in> set vts. \<forall>v. t = Some v \<longrightarrow> vlan_ok v"
    and "length (concat (map (\<lambda>(t, tpid). tag_bytes t tpid) vts)) \<le> k"
  shows "read_vlans vts (length pre) (pre @ replicate k 0) =
     ((pre @ concat (map (\<lambda>(t, tpid). tag_bytes t tpid) vts)) @
        replicate (k - length (concat (map (\<lambda>(t, tpid). tag_bytes t tpid) vts))) 0,
      Inr (length (pre @ concat (map (\<lambda>(t, tpid). tag_bytes t tpid) vts))))"
  using assms
proof (induction vts arbitrary: pre k)
  case (Cons vt vts)
  obtain t tpid where vt: "vt = (t, tpid)" by (cases vt)
  show ?case
  proof (cases t)
    case None
    then show ?thesis using Cons.IH [of k pre] Cons.prems by (simp add: vt tag_bytes_def)
  next
    case (Some v)
    have ok: "vlan_ok v" using Cons.prems(1) by (simp add: vt Some)
    have k: "4 + length (concat (map (\<lambda>(t, tpid). tag_bytes t tpid) vts)) \<le> k"
      using Cons.prems(2) by (simp add: vt Some tag_bytes_def)
    have c1: "go_copy (length pre) (length pre + 2) (be16 tpid) (pre @ replicate k 0) = (pre @ be16 tpid) @ replicate (k - 2) 0"
      using k by (subst go_copy_next) simp_all
    have c2: "go_copy (length pre + 2) (length pre + 4) (be16 (vlan_word v)) ((pre @ be16 tpid) @ replicate (k - 2) 0) =
        (pre @ tag_bytes t tpid) @ replicate (k - 4) 0"
      using k by (subst go_copy_next) (simp_all add: tag_bytes_def Some)
    have "read_vlans (vt # vts) (length pre) (pre @ replicate k 0) =
        read_vlans vts (length (pre @ tag_bytes t tpid)) ((pre @ tag_bytes t tpid) @ replicate (k - 4) 0)"
      using c1 c2 vlan_read_word [OF ok] by (simp add: vt Some Let_def tag_bytes_def)
    also have "\<dots> = (((pre @ tag_bytes t tpid) @ concat (map (\<lambda>(t, tpid). tag_bytes t tpid) vts)) @
        replicate (k - 4 - length (concat (map (\<lambda>(t, tpid). tag_bytes t tpid) vts))) 0,
        Inr (length ((pre @ tag_bytes t tpid) @ concat (map (\<lambda>(t, tpid). tag_bytes t tpid) vts))))"
      using Cons.prems k by (intro Cons.IH) simp_all
    finally show ?thesis by (simp add: vt Some tag_bytes_def)
  qed
qed simp

lemma frame_read_ok:
  assumes ok: "frame_ok f" and L: "length (header f) + length (Payload f) \<le> L"
  shows "frame_read f (replicate L 0) = (header f @ Payload f @ replicate (L - length (header f) - length (Payload f)) 0, None)"
proof -
  let ?vts = "[(ServiceVLAN f, EtherTypeServiceVLAN), (VLANTag f, EtherTypeVLAN)]"
  let ?tags = "tag_bytes (ServiceVLAN f) EtherTypeServiceVLAN @ tag_bytes (VLANTag f) EtherTypeVLAN"
  let ?pre = "Destination f @ Source f"
  have len: "length (Destination f) = 6" "length (Source f) = 6" using ok by (auto simp: frame_ok_def)
  have hl: "length (header f) = 12 + length ?tags + 2" by (simp add: header_def len)
  have c1: "go_copy 0 6 (Destination f) (replicate L 0) = Destination f @ replicate (L - 6) 0"
    using go_copy_next [of "[]" 0 "Destination f" 6 L 0] len hl L by simp
  have c2: "go_copy 6 12 (Source f) (Destination f @ replicate (L - 6) 0) = ?pre @ replicate (L - 12) 0"
    using go_copy_next [of "Destination f" 6 "Source f" 12 "L - 6" 0] len hl L by simp
  have "\<forall>(t, tpid) \<in> set ?vts. \<forall>v. t = Some v \<longrightarrow> vlan_ok v" using ok by (auto simp: frame_ok_def)
  from read_vlans_next [OF this, of "L - 12" ?pre] hl L len
  have rv: "read_vlans ?vts 12 (?pre @ replicate (L - 12) 0) =
      ((?pre @ ?tags) @ replicate (L - 12 - length ?tags) 0, Inr (length (?pre @ ?tags)))" by simp
  have c3: "go_copy (length (?pre @ ?tags)) (length (?pre @ ?tags) + 2) (be16 (EtherType f))
      ((?pre @ ?tags) @ replicate (L - 12 - length ?tags) 0) = header f @ replicate (L - length (header f)) 0"
    using L hl by (subst go_copy_next) (simp_all add: header_def len)
  have c4: "go_copy (length (?pre @ ?tags) + 2) L (Payload f) (header f @ replicate (L - length (header f)) 0) =
      (header f @ Payload f) @ replicate (L - length (header f) - length (Payload f)) 0"
    using L hl len by (subst go_copy_next) simp_all
  have "\<not> (ServiceVLAN f \<noteq> None \<and> VLANTag f = None)" using ok by (auto simp: frame_ok_def)
  moreover have "length (header f @ replicate (L - length (header f)) 0) = L" using L by simp
  ultimately show ?thesis
    unfolding frame_read_def Let_def c1 c2 rv prod.case sum.case c3 using c4 by simp
qed

lemma unmarshal_header:
  assumes ok: "frame_ok f" and et: "VLANTag f = None \<Longrightarrow> EtherType f \<noteq> EtherTypeVLAN \<and> EtherType f \<noteq> EtherTypeServiceVLAN"
  shows "UnmarshalBinary emptyFrame (header f @ rest) = (f\<lparr>Payload := rest\<rparr>, None)"
proof -
  have len: "length (Destination f) = 6" "length (Source f) = 6" using ok by (auto simp: frame_ok_def)
  have be: "slice 0 2 (be16 w) = be16 w" for w by (simp add: slice_def)
  have ne: "EtherTypeVLAN \<noteq> EtherTypeServiceVLAN" by (simp add: EtherTypeVLAN_def EtherTypeServiceVLAN_def)
  note defs = UnmarshalBinary_def unmarshalVLANs_def header_def tag_bytes_def slice_def len Let_def vlan_roundtrip
  consider (plain) "ServiceVLAN f = None" "VLANTag f = None" | (one) v where "ServiceVLAN f = None" "VLANTag f = Some v"
    | (two) s v where "ServiceVLAN f = Some s" "VLANTag f = Some v"
    using ok by (cases "ServiceVLAN f"; cases "VLANTag f") (auto simp: frame_ok_def)
  then show ?thesis
  proof cases
    case plain
    then show ?thesis using et [OF plain(2)] by (simp add: defs emptyFrame_def)
  next
    case (one v)
    then have "vlan_ok v" using ok by (auto simp: frame_ok_def)
    then show ?thesis using one ne by (simp add: defs emptyFrame_def)
  next
    case (two s v)
    then have "vlan_ok v" "vlan_ok s" using ok by (auto simp: frame_ok_def)
    then show ?thesis using two ne by (simp add: defs emptyFrame_def)
  qed
qed

lemma frame_length_header: "frame_ok f \<Longrightarrow> frame_length f = length (header f) + max 46 (length (Payload f))"
  by (cases "ServiceVLAN f"; cases "VLANTag f") (auto simp: frame_ok_def frame_length_def header_def tag_bytes_def)

definition padded :: "Frame \<Rightarrow> Frame" where
  "padded f = f\<lparr>Payload := Payload f @ replicate (46 - length (Payload f)) 0\<rparr>"

lemma marshal_bytes: "frame_ok f \<Longrightarrow> MarshalBinary f = (header f @ Payload (padded f), None)"
  by (simp add: MarshalBinary_def frame_read_ok frame_length_header padded_def max_def)

lemma marshal_fcs_bytes:
  assumes "frame_ok f"
  shows "MarshalFCS f = Inr ((header f @ Payload (padded f)) @ be32 (ChecksumIEEE (header f @ Payload (padded f))))"
proof -
  let ?b = "header f @ Payload (padded f)" and ?L = "frame_length f"
  have L: "length ?b = ?L" by (simp add: frame_length_header [OF assms] padded_def)
  have "Suc (Suc (Suc (Suc n))) = n + 4" for n by simp
  then have "frame_read f (replicate (?L + 4) 0) = (?b @ replicate 4 0, None)"
    using frame_read_ok [OF assms, of "?L + 4"] frame_length_header [OF assms]
    by (simp add: padded_def max_def replicate_add [symmetric] add.commute)
  moreover have "slice 0 ?L (?b @ replicate 4 0) = ?b" using L by (simp add: slice_def)
  moreover have "go_copy ?L (?L + 4) (be32 w) (?b @ replicate 4 0) = ?b @ be32 w" for w
    using go_copy_next [of ?b ?L "be32 w" "?L + 4" 4 0] L by simp
  ultimately show ?thesis using L by (simp add: MarshalFCS_def add.assoc [symmetric])
qed

lemma read_vlans_error:
  "(\<exists>e. snd (read_vlans vts n b) = Inl e) \<longleftrightarrow> (\<exists>(t, tpid) \<in> set vts. \<exists>v. t = Some v \<and> \<not> vlan_ok v)"
proof (induction vts n b rule: read_vlans.induct)
  case (3 v tpid vts n b)
  then show ?case
  proof (cases "vlan_ok v")
    case False
    then obtain e where "vlan_read v = Inl e" using vlan_read_ok [of v] by (cases "vlan_read v") auto
    then show ?thesis using False by (auto simp: Let_def)
  qed (simp add: Let_def vlan_read_word)
qed auto

section \<open>Properties\<close>

text \<open>
  C31. A frame is read back from its binary form, with and without a check sequence: hardware
  addresses, both VLAN tags and the type are the same, the payload is padded with zeros to
  46 bytes. The frame has addresses of six bytes, valid tags, an outer tag only with an
  inner one, and, when it has no tag, a type that is not that of a tag.
\<close>

theorem frame_roundtrip:
  assumes "frame_ok f" and "VLANTag f = None \<Longrightarrow> EtherType f \<noteq> EtherTypeVLAN \<and> EtherType f \<noteq> EtherTypeServiceVLAN"
  shows "\<exists>b b'. MarshalBinary f = (b, None) \<and> UnmarshalBinary emptyFrame b = (padded f, None) \<and>
     MarshalFCS f = Inr b' \<and> UnmarshalFCS emptyFrame b' = (padded f, None)"
proof -
  let ?b = "header f @ Payload (padded f)"
  let ?c = "be32 (ChecksumIEEE ?b)"
  have u: "UnmarshalBinary emptyFrame ?b = (padded f, None)"
    using unmarshal_header [OF assms, of "Payload (padded f)"] by (simp add: padded_def)
  have "slice (length ?b) (length ?b + 4) (?b @ ?c) = ?c" "slice 0 (length ?b) (?b @ ?c) = ?b"
    by (simp_all add: slice_def)
  then have "UnmarshalFCS emptyFrame (?b @ ?c) = (padded f, None)"
    using u by (simp add: UnmarshalFCS_def add.assoc)
  with u marshal_bytes [OF assms(1)] marshal_fcs_bytes [OF assms(1)] show ?thesis by blast
qed

definition demo_frame :: Frame where
  "demo_frame = \<lparr>Destination = [1, 2, 3, 4, 5, 6], Source = [7, 8, 9, 10, 11, 12],
     ServiceVLAN = Some \<lparr>Priority = 1, DropEligible = False, ID = 3000\<rparr>,
     VLANTag = Some \<lparr>Priority = 7, DropEligible = True, ID = 0xffe\<rparr>, EtherType = 0x800, Payload = [1, 2, 3]\<rparr>"

lemma frame_roundtrip_witness:
  "\<exists>b b'. MarshalBinary demo_frame = (b, None) \<and> UnmarshalBinary emptyFrame b = (padded demo_frame, None) \<and>
     MarshalFCS demo_frame = Inr b' \<and> UnmarshalFCS emptyFrame b' = (padded demo_frame, None)"
  by (rule frame_roundtrip) (simp_all add: demo_frame_def frame_ok_def vlan_ok_def)

text \<open>
  A frame that does not say it is valid is refused: marshalling fails exactly when a
  priority is above 7, an identifier above 0xffe, or an outer tag is without an inner one.
\<close>

theorem marshal_errors:
  "snd (MarshalBinary f) \<noteq> None \<longleftrightarrow>
     ServiceVLAN f \<noteq> None \<and> VLANTag f = None \<or> (\<exists>v. ServiceVLAN f = Some v \<and> \<not> vlan_ok v) \<or>
     (\<exists>v. VLANTag f = Some v \<and> \<not> vlan_ok v)"
proof -
  have "snd (frame_read f b) \<noteq> None \<longleftrightarrow> ServiceVLAN f \<noteq> None \<and> VLANTag f = None \<or>
      (\<exists>(t, tpid) \<in> set [(ServiceVLAN f, EtherTypeServiceVLAN), (VLANTag f, EtherTypeVLAN)]. \<exists>v. t = Some v \<and> \<not> vlan_ok v)" for b
    unfolding read_vlans_error [symmetric, where n = 12 and b = "go_copy 6 12 (Source f) (go_copy 0 6 (Destination f) b)"]
    by (auto simp only: frame_read_def Let_def split: prod.splits sum.splits if_splits)
      (simp_all only: snd_conv option.simps sum.simps HOL.simp_thms)
  then show ?thesis unfolding MarshalBinary_def by simp
qed

end
