(* ===== verification/Go_Net.thy ===== *)
theory Go_Net
  imports Go_Strconv Go_Bytes
begin

text \<open>
  The part of Go's \<^verbatim>\<open>net\<close> package that the sources use: addresses, masks and networks as byte
  slices (the empty list is \<^verbatim>\<open>nil\<close>), their textual forms and the parsers of these forms.
\<close>

unbundle bit_operations_syntax

section \<open>Addresses\<close>

definition v4InV6Prefix :: bytes where
  "v4InV6Prefix = [0, 0, 0, 0, 0, 0, 0, 0, 0, 0, 0xff, 0xff]"

definition net_IPv4 :: "byte \<Rightarrow> byte \<Rightarrow> byte \<Rightarrow> byte \<Rightarrow> bytes" where
  "net_IPv4 a b c d = v4InV6Prefix @ [a, b, c, d]"

definition IPv4zero :: bytes where "IPv4zero = net_IPv4 0 0 0 0"

definition To4 :: "bytes \<Rightarrow> bytes" where
  "To4 ip = (if length ip = 4 then ip
             else if length ip = 16 \<and> take 12 ip = v4InV6Prefix then drop 12 ip
             else [])"

text \<open>The text of an address: dotted decimal, or hexadecimal groups with the longest run of zero groups left out.\<close>

definition byte_text :: "byte \<Rightarrow> string" where
  "byte_text b = dec_nat (unat b)"

definition hex_char :: "nat \<Rightarrow> char" where
  "hex_char d = (if d < 10 then char_of (d + 48) else char_of (d + 87))"

fun hex_nat :: "nat \<Rightarrow> string" where
  "hex_nat n = (if n < 16 then [hex_char n] else hex_nat (n div 16) @ [hex_char (n mod 16)])"

declare hex_nat.simps [simp del]

definition hex2 :: "byte \<Rightarrow> string" where
  "hex2 b = [hex_char (unat b div 16), hex_char (unat b mod 16)]"

fun byte_pairs :: "bytes \<Rightarrow> nat list" where
  "byte_pairs (a # b # r) = (unat a * 256 + unat b) # byte_pairs r"
| "byte_pairs r = []"

text \<open>The first longest run of zero groups at or after position \<open>i\<close>, given the best so far.\<close>

fun zero_run :: "nat list \<Rightarrow> nat \<Rightarrow> nat \<times> nat \<Rightarrow> nat \<times> nat" where
  "zero_run [] i best = best"
| "zero_run (g # gs) i best =
     (let n = length (takeWhile (\<lambda>x. x = 0) (g # gs)) in
      zero_run gs (Suc i) (if n > snd best then (i, n) else best))"

definition ipv6_text :: "bytes \<Rightarrow> string" where
  "ipv6_text p =
     (let gs = byte_pairs p; (e, n) = zero_run gs 0 (0, 0) in
      if n \<le> 1 then strings_Join '':'' (map hex_nat gs)
      else strings_Join '':'' (map hex_nat (take e gs)) @ ''::'' @ strings_Join '':'' (map hex_nat (drop (e + n) gs)))"

definition IP_String :: "bytes \<Rightarrow> string" where
  "IP_String ip =
     (if ip = [] then ''<nil>''
      else case To4 ip of
        [a, b, c, d] \<Rightarrow> byte_text a @ ''.'' @ byte_text b @ ''.'' @ byte_text c @ ''.'' @ byte_text d
      | _ \<Rightarrow> if length ip = 16 then ipv6_text ip else ''?'' @ concat (map hex2 ip))"

section \<open>Masks and networks\<close>

definition net_CIDRMask :: "nat \<Rightarrow> nat \<Rightarrow> bytes" where
  "net_CIDRMask ones bits =
     (if (bits \<noteq> 32 \<and> bits \<noteq> 128) \<or> ones > bits then []
      else map (\<lambda>i. NOT (drop_bit (min 8 (ones - 8 * i)) 0xff)) [0..<bits div 8])"

text \<open>The number of leading ones of a byte whose other bits are zero.\<close>

definition byte_ones :: "byte \<Rightarrow> nat option" where
  "byte_ones v = find (\<lambda>n. v = NOT (drop_bit n 0xff)) [0..<9]"

fun simpleMaskLength :: "bytes \<Rightarrow> nat option" where
  "simpleMaskLength [] = Some 0"
| "simpleMaskLength (v # m) =
     (if v = 0xff then map_option ((+) 8) (simpleMaskLength m)
      else if list_all (\<lambda>b. b = 0) m then byte_ones v else None)"

definition Mask_Size :: "bytes \<Rightarrow> nat \<times> nat" where
  "Mask_Size m = (case simpleMaskLength m of None \<Rightarrow> (0, 0) | Some n \<Rightarrow> (n, 8 * length m))"

record IPNet =
  IP :: bytes
  Mask :: bytes

definition networkNumberAndMask :: "IPNet \<Rightarrow> (bytes \<times> bytes) option" where
  "networkNumberAndMask n =
     (let ip = (if To4 (IP n) = [] then IP n else To4 (IP n)) in
      if length ip \<noteq> 4 \<and> length ip \<noteq> 16 then None
      else if length (Mask n) = 4 then if length ip = 4 then Some (ip, Mask n) else None
      else if length (Mask n) = 16 then Some (ip, if length ip = 4 then drop 12 (Mask n) else Mask n)
      else None)"

definition IPNet_String :: "IPNet \<Rightarrow> string" where
  "IPNet_String n =
     (case networkNumberAndMask n of
        None \<Rightarrow> ''<nil>''
      | Some (nn, m) \<Rightarrow>
          (case simpleMaskLength m of
             None \<Rightarrow> IP_String nn @ ''/'' @ concat (map hex2 m)
           | Some l \<Rightarrow> IP_String nn @ ''/'' @ dec_nat l))"

definition IP_Mask :: "bytes \<Rightarrow> bytes \<Rightarrow> bytes" where
  "IP_Mask ip m =
     (let m = (if length m = 16 \<and> length ip = 4 \<and> list_all (\<lambda>b. b = 0xff) (take 12 m) then drop 12 m else m);
          ip = (if length m = 4 \<and> length ip = 16 \<and> take 12 ip = v4InV6Prefix then drop 12 ip else ip) in
      if length ip \<noteq> length m then [] else map2 (AND) ip m)"

section \<open>Parsing\<close>

text \<open>\<^verbatim>\<open>dtoi\<close> and \<^verbatim>\<open>xtoi\<close>: the number, the rest of the text and whether there was one below \<^verbatim>\<open>0xFFFFFF\<close>.\<close>

fun toi_loop :: "nat \<Rightarrow> nat \<Rightarrow> string \<Rightarrow> (nat \<times> string) option" where
  "toi_loop base n [] = Some (n, [])"
| "toi_loop base n (c # cs) =
     (case digit_value c of
        Some d \<Rightarrow>
          if d < base then
            if n * base + d \<ge> 0xFFFFFF then None else toi_loop base (n * base + d) cs
          else Some (n, c # cs)
      | None \<Rightarrow> Some (n, c # cs))"

definition toi :: "nat \<Rightarrow> string \<Rightarrow> (nat \<times> string) option" where
  "toi base s = (case toi_loop base 0 s of Some (n, r) \<Rightarrow> if length r = length s then None else Some (n, r) | None \<Rightarrow> None)"

fun parseIPv4_loop :: "nat \<Rightarrow> string \<Rightarrow> bytes \<Rightarrow> bytes option" where
  "parseIPv4_loop 0 s p = (if s = [] then Some p else None)"
| "parseIPv4_loop (Suc i) s p =
     (if s = [] then None
      else if p \<noteq> [] \<and> hd s \<noteq> CHR ''.'' then None
      else let s = (if p \<noteq> [] then tl s else s) in
        case toi 10 s of
          Some (n, r) \<Rightarrow> if n > 0xFF then None else parseIPv4_loop i r (p @ [of_nat n])
        | None \<Rightarrow> None)"

definition parseIPv4 :: "string \<Rightarrow> bytes" where
  "parseIPv4 s = (case parseIPv4_loop 4 s [] of Some [a, b, c, d] \<Rightarrow> net_IPv4 a b c d | _ \<Rightarrow> [])"

text \<open>
  The loop over the groups of an IPv6 address: the bytes read, the position of the ellipsis
  and the rest of the text at the end.
\<close>

fun parseIPv6_loop :: "nat \<Rightarrow> string \<Rightarrow> bytes \<Rightarrow> nat option \<Rightarrow> (bytes \<times> nat option \<times> string) option" where
  "parseIPv6_loop 0 s p e = Some (p, e, s)"
| "parseIPv6_loop (Suc k) s p e =
     (case toi 16 s of
        None \<Rightarrow> None
      | Some (n, r) \<Rightarrow>
          if n > 0xFFFF then None
          else if r \<noteq> [] \<and> hd r = CHR ''.'' then
            if e = None \<and> length p \<noteq> 12 \<or> length p + 4 > 16 then None
            else (case parseIPv4 s of [] \<Rightarrow> None | ip4 \<Rightarrow> Some (p @ drop 12 ip4, e, []))
          else let p = p @ [of_nat (n div 256), of_nat n] in
            if r = [] then Some (p, e, [])
            else if hd r \<noteq> CHR '':'' \<or> length r = 1 then None
            else if hd (tl r) = CHR '':'' then
              if e \<noteq> None then None
              else if tl (tl r) = [] then Some (p, Some (length p), [])
              else parseIPv6_loop k (tl (tl r)) p (Some (length p))
            else parseIPv6_loop k (tl r) p e)"

definition parseIPv6 :: "string \<Rightarrow> bytes" where
  "parseIPv6 s =
     (let lead = (take 2 s = ''::'') in
      if lead \<and> length s = 2 then replicate 16 0
      else case parseIPv6_loop 8 (if lead then drop 2 s else s) [] (if lead then Some 0 else None) of
        None \<Rightarrow> []
      | Some (p, e, r) \<Rightarrow>
          if r \<noteq> [] then []
          else if length p < 16 then
            (case e of None \<Rightarrow> [] | Some j \<Rightarrow> take j p @ replicate (16 - length p) 0 @ drop j p)
          else if e \<noteq> None then [] else p)"

definition net_ParseIP :: "string \<Rightarrow> bytes" where
  "net_ParseIP s =
     (case find (\<lambda>c. c = CHR ''.'' \<or> c = CHR '':'') s of
        Some c \<Rightarrow> if c = CHR ''.'' then parseIPv4 s else parseIPv6 s
      | None \<Rightarrow> [])"

definition net_ParseCIDR :: "string \<Rightarrow> (bytes \<times> IPNet) option" where
  "net_ParseCIDR s =
     (if CHR ''/'' \<notin> set s then None
      else let addr = takeWhile (\<lambda>c. c \<noteq> CHR ''/'') s;
               mask = tl (dropWhile (\<lambda>c. c \<noteq> CHR ''/'') s);
               v4 = parseIPv4 addr;
               iplen = (if v4 = [] then 16 else 4);
               ip = (if v4 = [] then parseIPv6 addr else v4) in
        case toi 10 mask of
          Some (n, []) \<Rightarrow>
            if ip = [] \<or> n > 8 * iplen then None
            else let m = net_CIDRMask n (8 * iplen) in Some (ip, \<lparr>IP = IP_Mask ip m, Mask = m\<rparr>)
        | _ \<Rightarrow> None)"

section \<open>IPv4 addresses\<close>

text \<open>An address as a number and as bytes.\<close>

definition ip4_bytes :: "32 word \<Rightarrow> bytes" where
  "ip4_bytes a = net_IPv4 (be32 a ! 0) (be32 a ! 1) (be32 a ! 2) (be32 a ! 3)"

lemma length_v4InV6Prefix [simp]: "length v4InV6Prefix = 12"
  by (simp add: v4InV6Prefix_def)

lemma To4_net_IPv4 [simp]: "To4 (net_IPv4 a b c d) = [a, b, c, d]"
  by (simp add: To4_def net_IPv4_def)

lemma be32_nths: "[be32 a ! 0, be32 a ! Suc 0, be32 a ! 2, be32 a ! 3] = be32 a"
  by (simp add: be32_def)

lemma To4_ip4_bytes [simp]: "To4 (ip4_bytes a) = be32 a"
  by (simp add: ip4_bytes_def be32_nths)

definition dotted :: "bytes \<Rightarrow> string" where
  "dotted bs = strings_Join ''.'' (map byte_text bs)"

lemma IP_String_v4:
  assumes "To4 ip = [a, b, c, d]"
  shows "IP_String ip = dotted [a, b, c, d]"
proof -
  have "ip \<noteq> []" using assms by (auto simp: To4_def)
  then show ?thesis using assms by (simp add: IP_String_def dotted_def)
qed

lemma To4_length: "To4 ip = [] \<or> length (To4 ip) = 4"
  by (simp add: To4_def)

end
