(* ===== verification/Netutils.thy ===== *)
theory Netutils
  imports Go_Net
begin

text \<open>
  IPv4 arithmetic, \<^verbatim>\<open>vendor/yunion.io/x/pkg/util/netutils/netutils.go\<close>: addresses as 32-bit
  numbers, address ranges with their difference and their decomposition into networks,
  prefixes, and the normal form of hardware addresses.
\<close>

unbundle bit_operations_syntax

section \<open>Hardware addresses\<close>

definition macChars :: string where "macChars = ''0123456789abcdef''"
definition macCapChars :: string where "macCapChars = ''ABCDEF''"

fun mac_loop :: "string \<Rightarrow> string \<Rightarrow> string" where
  "mac_loop [] buf = buf"
| "mac_loop (c # cs) buf =
     (if length buf \<ge> 12 then buf
      else if c \<in> set macChars then mac_loop cs (buf @ [c])
      else if c \<in> set macCapChars then mac_loop cs (buf @ [char_of (of_char c - 65 + 97 :: nat)])
      else mac_loop cs buf)"

fun pairs :: "'a list \<Rightarrow> 'a list list" where
  "pairs (a # b # r) = [a, b] # pairs r"
| "pairs r = []"

definition FormatMacAddr :: "string \<Rightarrow> string" where
  "FormatMacAddr macAddr =
     (let buf = mac_loop macAddr [] in
      if length buf = 12 then strings_Join '':'' (pairs buf) else [])"

definition MatchCompactMacAddr :: "string \<Rightarrow> bool" where
  "MatchCompactMacAddr s \<longleftrightarrow> length s = 12 \<and> list_all (\<lambda>c. c \<in> set macChars \<or> c \<in> set macCapChars) s"

definition MacUnpackHex :: "string \<Rightarrow> string" where
  "MacUnpackHex mac =
     (if MatchCompactMacAddr mac then strings_Join '':'' (map strings_ToLower (pairs mac)) else [])"

section \<open>Addresses\<close>

type_synonym IPV4Addr = "32 word"

fun ip_parts :: "nat \<Rightarrow> string list \<Rightarrow> 32 word \<Rightarrow> 32 word option" where
  "ip_parts i [] num = Some num"
| "ip_parts i (p # ps) num =
     (case strconv_ParseInt p 10 of
        (n, False) \<Rightarrow> None
      | (n, True) \<Rightarrow> ip_parts (Suc i) ps (num OR push_bit (24 - i * 8) (word_of_int n)))"

definition IP2Number :: "string \<Rightarrow> 32 word option" where
  "IP2Number ipstr =
     (let parts = strings_Split (CHR ''.'') ipstr in
      if length parts = 4 then ip_parts 0 parts 0 else None)"

definition Number2Bytes :: "32 word \<Rightarrow> bytes" where
  "Number2Bytes num =
     (let a = drop_bit 24 num; num = num - push_bit 24 a;
          b = drop_bit 16 num; num = num - push_bit 16 b;
          c = drop_bit 8 num; num = num - push_bit 8 c in
      [ucast a, ucast b, ucast c, ucast num])"

definition Number2IP :: "32 word \<Rightarrow> string" where
  "Number2IP num =
     (let bs = Number2Bytes num in
      byte_text (bs ! 0) @ ''.'' @ byte_text (bs ! 1) @ ''.'' @ byte_text (bs ! 2) @ ''.'' @ byte_text (bs ! 3))"

definition NewIPV4Addr :: "string \<Rightarrow> IPV4Addr option" where
  "NewIPV4Addr ipstr = (if ipstr \<noteq> [] then IP2Number ipstr else Some 0)"

definition StepDown :: "IPV4Addr \<Rightarrow> IPV4Addr" where "StepDown addr = addr - 1"
definition StepUp :: "IPV4Addr \<Rightarrow> IPV4Addr" where "StepUp addr = addr + 1"

text \<open>A shift by 31 minus \<open>i\<close> is a shift by a huge unsigned number once \<open>i\<close> exceeds 31, and gives 0.\<close>

definition Masklen2Mask :: "int \<Rightarrow> IPV4Addr" where
  "Masklen2Mask maskLen =
     foldl (\<lambda>mask i. mask OR (if i \<le> 31 then push_bit (31 - i) 1 else 0)) 0 [0..<nat maskLen]"

definition NetAddr :: "IPV4Addr \<Rightarrow> int \<Rightarrow> IPV4Addr" where
  "NetAddr addr maskLen = Masklen2Mask maskLen AND addr"

definition BroadcastAddr :: "IPV4Addr \<Rightarrow> int \<Rightarrow> IPV4Addr" where
  "BroadcastAddr addr maskLen = addr OR (0xffffffff - Masklen2Mask maskLen)"

definition CliAddr :: "IPV4Addr \<Rightarrow> int \<Rightarrow> IPV4Addr" where
  "CliAddr addr maskLen = addr - (addr AND Masklen2Mask maskLen)"

definition addr_ToBytes :: "IPV4Addr \<Rightarrow> bytes" where
  "addr_ToBytes addr =
     [ucast (drop_bit 24 (addr AND 0xff000000)), ucast (drop_bit 16 (addr AND 0x00ff0000)),
      ucast (drop_bit 8 (addr AND 0x0000ff00)), ucast (addr AND 0x000000ff)]"

definition ToMac :: "IPV4Addr \<Rightarrow> string \<Rightarrow> string" where
  "ToMac addr prefix =
     (let bs = addr_ToBytes addr in
      prefix @ hex2 (bs ! 0) @ '':'' @ hex2 (bs ! 1) @ '':'' @ hex2 (bs ! 2) @ '':'' @ hex2 (bs ! 3))"

section \<open>Ranges\<close>

record IPV4AddrRange =
  ar_start :: IPV4Addr
  ar_end :: IPV4Addr

definition NewIPV4AddrRange :: "IPV4Addr \<Rightarrow> IPV4Addr \<Rightarrow> IPV4AddrRange" where
  "NewIPV4AddrRange ip1 ip2 =
     (if ip1 < ip2 then \<lparr>ar_start = ip1, ar_end = ip2\<rparr> else \<lparr>ar_start = ip2, ar_end = ip1\<rparr>)"

definition Contains :: "IPV4AddrRange \<Rightarrow> IPV4Addr \<Rightarrow> bool" where
  "Contains ar ip \<longleftrightarrow> ip \<ge> ar_start ar \<and> ip \<le> ar_end ar"

definition ContainsRange :: "IPV4AddrRange \<Rightarrow> IPV4AddrRange \<Rightarrow> bool" where
  "ContainsRange ar ar2 \<longleftrightarrow> ar_start ar \<le> ar_start ar2 \<and> ar_end ar \<ge> ar_end ar2"

text \<open>\<^verbatim>\<open>rand.Intn\<close> panics on zero; its value is the argument \<open>rnd\<close>.\<close>

definition Random :: "(nat \<Rightarrow> nat) \<Rightarrow> IPV4AddrRange \<Rightarrow> IPV4Addr option" where
  "Random rnd ar =
     (let n = unat (ar_end ar - ar_start ar) in
      if n = 0 then None else Some (ar_start ar + of_nat (rnd n)))"

definition AddressCount :: "IPV4AddrRange \<Rightarrow> nat" where
  "AddressCount ar = unat (ar_end ar - ar_start ar + 1)"

definition IsOverlap :: "IPV4AddrRange \<Rightarrow> IPV4AddrRange \<Rightarrow> bool" where
  "IsOverlap ar ar2 = (if ar_start ar > ar_end ar2 \<or> ar_end ar < ar_start ar2 then False else True)"

definition range_String :: "IPV4AddrRange \<Rightarrow> string" where
  "range_String ar = Number2IP (ar_start ar) @ ''-'' @ Number2IP (ar_end ar)"

text \<open>
  The decomposition of a range into aligned blocks. The block size is kept as its exponent
  \<open>k\<close>; sums stay below \<open>2\<^sup>3\<^sup>4\<close>, so the 64-bit arithmetic does not overflow.
\<close>

function block_loop :: "nat \<Rightarrow> nat \<Rightarrow> nat \<Rightarrow> nat" where
  "block_loop sp ep k = (if sp + 2 ^ k \<le> ep \<and> sp AND (2 ^ k - 1) = 0 then block_loop sp ep (Suc k) else k)"
  by pat_completeness auto

termination block_loop
proof (relation "measure (\<lambda>(sp, ep, k). ep - k)")
  fix sp ep k :: nat assume "sp + 2 ^ k \<le> ep \<and> sp AND (2 ^ k - 1) = 0"
  moreover have "k < 2 ^ k" by simp
  ultimately have "k < ep" by linarith
  then show "((sp, ep, Suc k), (sp, ep, k)) \<in> measure (\<lambda>(sp, ep, k). ep - k)" by simp
qed simp

declare block_loop.simps [simp del]

definition block_mask :: "nat \<Rightarrow> 32 word" where
  "block_mask k = ucast (NOT (push_bit k 1 - 1 :: 64 word))"

function block_list :: "nat \<Rightarrow> nat \<Rightarrow> (32 word \<times> 32 word) list" where
  "block_list sp ep =
     (if sp < ep then
        let k = block_loop sp ep 0 - 1 in (of_nat sp, block_mask k) # block_list (sp + 2 ^ k) ep
      else [])"
  by pat_completeness auto

termination block_list
  by (relation "measure (\<lambda>(sp, ep). ep - sp)") (auto intro: diff_less_mono2)

declare block_list.simps [simp del]

definition ToMaskMatches :: "IPV4AddrRange \<Rightarrow> (32 word \<times> 32 word) list" where
  "ToMaskMatches ar =
     (let s = ar_start ar; e = ar_end ar in
      if s = e then [(s, NOT 0)] else block_list (unat s) (unat e + 1))"

definition word_byte :: "32 word \<Rightarrow> nat \<Rightarrow> byte" where
  "word_byte w n = ucast (drop_bit n w AND 0xff)"

definition ToIPNets :: "IPV4AddrRange \<Rightarrow> IPNet list" where
  "ToIPNets ar =
     map (\<lambda>(a, m). \<lparr>IP = net_IPv4 (word_byte a 24) (word_byte a 16) (word_byte a 8) (word_byte a 0),
                    Mask = [word_byte m 24, word_byte m 16, word_byte m 8, word_byte m 0]\<rparr>)
       (ToMaskMatches ar)"

definition Substract :: "IPV4AddrRange \<Rightarrow> IPV4AddrRange \<Rightarrow> IPV4AddrRange list \<times> IPV4AddrRange option" where
  "Substract ar ar2 =
     (if ar_end ar < ar_start ar2 \<or> ar_start ar > ar_end ar2 then ([ar], None)
      else if ContainsRange ar ar2 then
        (map (\<lambda>(a, b). NewIPV4AddrRange (word_of_int a) (word_of_int b))
           (filter (\<lambda>(a, b). a \<le> b)
              [(uint (ar_start ar), uint (ar_start ar2) - 1), (uint (ar_end ar2) + 1, uint (ar_end ar))]),
         Some ar2)
      else if ContainsRange ar2 ar then ([], Some ar)
      else if ar_start ar < ar_start ar2 \<and> ar_end ar \<ge> ar_start ar2 then
        ([NewIPV4AddrRange (ar_start ar) (ar_start ar2 - 1)], Some (NewIPV4AddrRange (ar_start ar2) (ar_end ar)))
      else if ar_start ar \<le> ar_end ar2 \<and> ar_end ar > ar_end ar2 then
        ([NewIPV4AddrRange (ar_end ar2 + 1) (ar_end ar)], Some (NewIPV4AddrRange (ar_start ar) (ar_end ar2)))
      else ([], None))"

definition range_equals :: "IPV4AddrRange \<Rightarrow> IPV4AddrRange \<Rightarrow> bool" where
  "range_equals ar ar2 \<longleftrightarrow> ar_start ar = ar_start ar2 \<and> ar_end ar = ar_end ar2"

section \<open>Prefixes\<close>

record IPV4Prefix =
  Address :: IPV4Addr
  MaskLen :: int

definition prefix_String :: "IPV4Prefix \<Rightarrow> string" where
  "prefix_String pref = Number2IP (NetAddr (Address pref) (MaskLen pref)) @ ''/'' @ dec_int (MaskLen pref)"

text \<open>At 32 the shift amount is a huge unsigned number, the tested bit is 0 and the loop ends.\<close>

function mask2len_loop :: "IPV4Addr \<Rightarrow> nat \<Rightarrow> nat" where
  "mask2len_loop m maskLen =
     (if m AND (if maskLen \<le> 31 then push_bit (31 - maskLen) 1 else 0) = 0 then maskLen
      else mask2len_loop m (maskLen + 1))"
  by pat_completeness auto

termination mask2len_loop
  by (relation "measure (\<lambda>(m, maskLen). 32 - maskLen)") (auto split: if_splits)

declare mask2len_loop.simps [simp del]

definition Mask2Len :: "IPV4Addr \<Rightarrow> int" where
  "Mask2Len m = int (mask2len_loop m 0)"

definition MatchIP4Addr :: "string \<Rightarrow> bool" where
  "MatchIP4Addr str \<longleftrightarrow> net_ParseIP str \<noteq> [] \<and> CHR '':'' \<notin> set str"

definition ParsePrefix :: "string \<Rightarrow> (IPV4Addr \<times> int) option" where
  "ParsePrefix prefix =
     (let before = takeWhile (\<lambda>c. c \<noteq> CHR ''/'') prefix; after = tl (dropWhile (\<lambda>c. c \<noteq> CHR ''/'') prefix) in
      if CHR ''/'' \<in> set prefix \<and> before \<noteq> [] then
        do {
          addr \<leftarrow> NewIPV4Addr before;
          if MatchIP4Addr after then
            do {
              mask \<leftarrow> NewIPV4Addr after;
              let maskLen = Mask2Len mask;
              Some (NetAddr addr maskLen, maskLen)
            }
          else (case strconv_ParseInt after 10 of
              (maskLen, False) \<Rightarrow> None
            | (maskLen, True) \<Rightarrow> if maskLen < 0 \<or> maskLen > 32 then None else Some (NetAddr addr maskLen, maskLen))
        }
      else do { addr \<leftarrow> NewIPV4Addr prefix; Some (addr, 32) })"

definition NewIPV4Prefix :: "string \<Rightarrow> IPV4Prefix option" where
  "NewIPV4Prefix prefix = do { (addr, maskLen) \<leftarrow> ParsePrefix prefix; Some \<lparr>Address = addr, MaskLen = maskLen\<rparr> }"

definition ToIPRange :: "IPV4Prefix \<Rightarrow> IPV4AddrRange" where
  "ToIPRange prefix =
     \<lparr>ar_start = NetAddr (Address prefix) (MaskLen prefix), ar_end = BroadcastAddr (Address prefix) (MaskLen prefix)\<rparr>"

text \<open>Panics on a network that is not an IPv4 network.\<close>

definition NewIPV4AddrRangeFromIPNet :: "IPNet \<Rightarrow> IPV4AddrRange option" where
  "NewIPV4AddrRangeFromIPNet n = map_option ToIPRange (NewIPV4Prefix (IPNet_String n))"

section \<open>Special ranges\<close>

text \<open>The ranges computed when the package is initialised.\<close>

definition prefix_range :: "string \<Rightarrow> IPV4AddrRange" where
  "prefix_range p = ToIPRange (case NewIPV4Prefix p of Some pref \<Rightarrow> pref | None \<Rightarrow> \<lparr>Address = 0, MaskLen = 0\<rparr>)"

definition privatePrefixes :: "string list" where
  "privatePrefixes = [''10.0.0.0/8'', ''172.16.0.0/12'', ''192.168.0.0/16'']"

definition IsPrivate :: "IPV4Addr \<Rightarrow> bool" where
  "IsPrivate addr \<longleftrightarrow> list_ex (\<lambda>ipRange. Contains ipRange addr) (map prefix_range privatePrefixes)"

definition IsHostLocal :: "IPV4Addr \<Rightarrow> bool" where
  "IsHostLocal addr \<longleftrightarrow> Contains (prefix_range ''127.0.0.0/8'') addr"

definition IsLinkLocal :: "IPV4Addr \<Rightarrow> bool" where
  "IsLinkLocal addr \<longleftrightarrow> Contains (prefix_range ''169.254.0.0/16'') addr"

definition IsMulticast :: "IPV4Addr \<Rightarrow> bool" where
  "IsMulticast addr \<longleftrightarrow> Contains (prefix_range ''224.0.0.0/4'') addr"

definition IsExitAddress :: "IPV4Addr \<Rightarrow> bool" where
  "IsExitAddress addr \<longleftrightarrow> \<not> IsPrivate addr \<and> \<not> IsHostLocal addr \<and> \<not> IsLinkLocal addr \<and> \<not> IsMulticast addr"

section \<open>Masks\<close>

lemma uminus_push_drop: "w - push_bit n (drop_bit n w) = take_bit n w" for w :: "'a::len word"
  using bits_ident [of n w] by (metis add_diff_cancel_left')

lemma Number2Bytes_be32: "Number2Bytes num = be32 num"
proof -
  have "ucast (drop_bit 16 (take_bit 24 num)) = (ucast (drop_bit 16 num) :: byte)"
    "ucast (drop_bit 8 (take_bit 16 (take_bit 24 num))) = (ucast (drop_bit 8 num) :: byte)"
    "ucast (take_bit 8 (take_bit 16 (take_bit 24 num))) = (ucast num :: byte)"
    by (rule bit_word_eqI, auto simp: bit_simps)+
  then show ?thesis by (simp only: Number2Bytes_def Let_def uminus_push_drop be32_def)
qed

lemma Masklen2Mask_bit: "n \<le> 32 \<Longrightarrow> bit (Masklen2Mask (int n)) j \<longleftrightarrow> j < 32 \<and> 32 \<le> j + n"
proof (induction n)
  case (Suc n)
  have "Masklen2Mask (int (Suc n)) = Masklen2Mask (int n) OR push_bit (31 - n) 1"
    using Suc.prems by (simp add: Masklen2Mask_def nat_add_distrib)
  then have "bit (Masklen2Mask (int (Suc n))) j \<longleftrightarrow> bit (Masklen2Mask (int n)) j \<or> j < 32 \<and> 31 - n = j"
    by (simp add: bit_simps) auto
  then show ?case using Suc by auto
qed (simp add: Masklen2Mask_def)

lemma Masklen2Mask_eq: "n \<le> 32 \<Longrightarrow> Masklen2Mask (int n) = NOT (mask (32 - n))"
  by (rule bit_word_eqI) (auto simp: Masklen2Mask_bit bit_simps)

lemma block_mask_eq: "k \<le> 32 \<Longrightarrow> block_mask k = NOT (mask k)"
proof -
  assume "k \<le> 32"
  have "(push_bit k 1 - 1 :: 64 word) = mask k" by (simp add: mask_eq_exp_minus_1 push_bit_eq_mult)
  then show ?thesis unfolding block_mask_def by (intro bit_word_eqI) (auto simp: bit_simps)
qed

lemma unat_and_not_mask: "unat (x AND NOT (mask k)) = unat x div 2 ^ k * 2 ^ k" for x :: "'a::len word"
proof -
  have "x AND NOT (mask k) = push_bit k (drop_bit k x)" by (rule bit_word_eqI) (auto simp: bit_simps)
  moreover have "unat (push_bit k (drop_bit k x)) = unat x - unat x mod 2 ^ k"
  proof -
    have "push_bit k (drop_bit k x) = x - take_bit k x" using bits_ident [of k x] by (metis add_diff_cancel_right')
    moreover have "unat (take_bit k x) = unat x mod 2 ^ k" unfolding unsigned_take_bit_eq by (simp add: take_bit_eq_mod)
    ultimately show ?thesis
      by (metis mod_less_eq_dividend unat_sub word_le_nat_alt)
  qed
  ultimately show ?thesis by (simp add: minus_mod_eq_div_mult)
qed

lemma or_mask_eq: "x OR mask k = (x AND NOT (mask k)) + mask k" for x :: "'a::len word"
proof -
  have "(x AND NOT (mask k)) AND mask k = 0" by (rule bit_word_eqI) (auto simp: bit_simps)
  then have "(x AND NOT (mask k)) + mask k = (x AND NOT (mask k)) OR mask k" by (simp add: disjunctive_add_eq_or)
  also have "\<dots> = x OR mask k" by (rule bit_word_eqI) (auto simp: bit_simps)
  finally show ?thesis by simp
qed

text \<open>The addresses between the first and the last of a block are those that agree with it outside the mask.\<close>

lemma block_interval:
  fixes a :: "32 word"
  assumes "k \<le> 32"
  shows "a AND NOT (mask k) \<le> x \<and> x \<le> a OR mask k \<longleftrightarrow> x AND NOT (mask k) = a AND NOT (mask k)" (is "?l \<longleftrightarrow> ?r")
proof -
  let ?q = "unat a div 2 ^ k" and ?p = "(2::nat) ^ k"
  have p: "0 < ?p" by simp
  have q: "?q * ?p + ?p \<le> 2 ^ 32"
  proof -
    have "unat a < 2 ^ (32 - k) * ?p" using assms unsigned_less [of a] by (simp add: power_add [symmetric])
    then have "?q < 2 ^ (32 - k)" by (simp add: div_less_iff_less_mult)
    then have "Suc ?q * ?p \<le> 2 ^ (32 - k) * ?p" by (intro mult_le_mono1) simp
    then show ?thesis using assms by (simp add: power_add [symmetric] add.commute)
  qed
  have m: "unat (mask k :: 32 word) = ?p - 1" using assms by (simp add: unat_eq_nat_uint uint_mask_eq mask_int_def min_def nat_diff_distrib nat_power_eq)
  have e: "unat (a OR mask k) = ?q * ?p + (?p - 1)"
    unfolding or_mask_eq using q p by (simp add: unat_word_ariths unat_and_not_mask m)
  have "?l \<longleftrightarrow> ?q * ?p \<le> unat x \<and> unat x < ?q * ?p + ?p"
    unfolding word_le_nat_alt e unat_and_not_mask using p by linarith
  also have "\<dots> \<longleftrightarrow> unat x div ?p = ?q"
    using p by (metis (no_types, lifting) div_nat_eqI add.commute mult.commute mult_Suc_right
        div_times_less_eq_dividend dividend_less_div_times)
  also have "\<dots> \<longleftrightarrow> ?r" unfolding word_unat_eq_iff unat_and_not_mask by simp
  finally show ?thesis .
qed

section \<open>Ranges and networks\<close>

lemma and_pow2_dvd: "sp AND (2 ^ k - 1) = 0 \<longleftrightarrow> 2 ^ k dvd sp" for sp :: nat
  unfolding mask_eq_exp_minus_1 [symmetric] take_bit_eq_mask [symmetric] take_bit_eq_mod by (simp add: dvd_eq_mod_eq_0)

lemma block_loop_fits:
  "(\<forall>j < k. sp + 2 ^ j \<le> ep \<and> 2 ^ j dvd sp) \<Longrightarrow> j < block_loop sp ep k \<Longrightarrow> sp + 2 ^ j \<le> ep \<and> 2 ^ j dvd sp"
proof (induction sp ep k rule: block_loop.induct)
  case (1 sp ep k)
  show ?case
  proof (cases "sp + 2 ^ k \<le> ep \<and> sp AND (2 ^ k - 1) = 0")
    case True
    then have "\<forall>j < Suc k. sp + 2 ^ j \<le> ep \<and> 2 ^ j dvd sp" using 1(2) and_pow2_dvd less_Suc_eq by auto
    moreover have "j < block_loop sp ep (Suc k)" using 1(3) True by (subst (asm) block_loop.simps) simp
    ultimately show ?thesis using 1(1) True by blast
  next
    case False
    then have "block_loop sp ep k = k" by (subst block_loop.simps) (rule if_not_P)
    then show ?thesis using 1 by simp
  qed
qed

lemma block_loop_pos: "sp < ep \<Longrightarrow> 0 < block_loop sp ep 0"
proof -
  have "k \<le> block_loop sp ep k" for k
    by (induction sp ep k rule: block_loop.induct) (subst block_loop.simps, auto)
  from this [of 1] show "sp < ep \<Longrightarrow> ?thesis" by (subst block_loop.simps) simp
qed

text \<open>The first block of the decomposition of a non-empty range is aligned and lies inside.\<close>

lemma first_block:
  assumes "sp < ep"
  shows "sp + 2 ^ (block_loop sp ep 0 - 1) \<le> ep" and "2 ^ (block_loop sp ep 0 - 1) dvd sp"
  using block_loop_fits [of 0 sp ep "block_loop sp ep 0 - 1"] block_loop_pos [OF assms] by simp_all

lemma pow2_le_imp_le: "2 ^ k \<le> (2::nat) ^ n \<Longrightarrow> k \<le> n"
  by simp

lemma block_match:
  assumes "2 ^ k dvd sp" and "sp + 2 ^ k \<le> 2 ^ 32"
  shows "x AND block_mask k = of_nat sp \<longleftrightarrow> sp \<le> unat x \<and> unat x < sp + 2 ^ k"
proof -
  have "(2::nat) ^ k \<le> 2 ^ 32" using assms(2) by linarith
  then have k: "k \<le> 32" by (rule pow2_le_imp_le)
  have "sp < 2 ^ 32" using assms(2) by (metis add_lessD1 le_neq_implies_less less_add_same_cancel1 nat_zero_less_power_iff zero_less_numeral)
  then have sp: "unat (of_nat sp :: 32 word) = sp" by (simp add: unat_of_nat)
  obtain q where q: "sp = 2 ^ k * q" using assms(1) by blast
  have "x AND block_mask k = of_nat sp \<longleftrightarrow> unat x div 2 ^ k * 2 ^ k = sp"
    unfolding block_mask_eq [OF k] word_unat_eq_iff unat_and_not_mask sp ..
  also have "\<dots> \<longleftrightarrow> unat x div 2 ^ k = q" unfolding q by (simp add: mult.commute)
  also have "\<dots> \<longleftrightarrow> sp \<le> unat x \<and> unat x < sp + 2 ^ k"
    unfolding q by (metis div_nat_eqI add.commute mult.commute mult_Suc_right
        div_times_less_eq_dividend dividend_less_div_times zero_less_power zero_less_numeral)
  finally show ?thesis .
qed

lemma block_list_partition:
  "ep \<le> 2 ^ 32 \<Longrightarrow>
   length (filter (\<lambda>(a, m). x AND m = a) (block_list sp ep)) = (if sp \<le> unat x \<and> unat x < ep then 1 else 0)"
proof (induction sp ep rule: block_list.induct)
  case (1 sp ep)
  show ?case
  proof (cases "sp < ep")
    case True
    let ?k = "block_loop sp ep 0 - 1"
    note b = first_block [OF True]
    have "x AND block_mask ?k = of_nat sp \<longleftrightarrow> sp \<le> unat x \<and> unat x < sp + 2 ^ ?k"
      using b 1(2) by (intro block_match) simp_all
    moreover have "length (filter (\<lambda>(a, m). x AND m = a) (block_list (sp + 2 ^ ?k) ep)) =
        (if sp + 2 ^ ?k \<le> unat x \<and> unat x < ep then 1 else 0)"
      using 1(1) [OF True refl] 1(2) by simp
    ultimately show ?thesis using True b(1)
      by (subst block_list.simps) (auto simp: Let_def simp flip: length_0_conv)
  qed (subst block_list.simps, simp)
qed

lemma block_list_shape:
  "ep \<le> 2 ^ 32 \<Longrightarrow> (a, m) \<in> set (block_list sp ep) \<Longrightarrow> \<exists>k \<le> 32. m = NOT (mask k) \<and> a AND m = a"
proof (induction sp ep rule: block_list.induct)
  case (1 sp ep)
  show ?case
  proof (cases "sp < ep")
    case True
    let ?k = "block_loop sp ep 0 - 1"
    note b = first_block [OF True]
    have "2 ^ ?k \<le> (2::nat) ^ 32" using b(1) 1(2) by linarith
    then have k: "?k \<le> 32" by (rule pow2_le_imp_le)
    consider "a = of_nat sp" "m = block_mask ?k" | "(a, m) \<in> set (block_list (sp + 2 ^ ?k) ep)"
      using 1(3) True by (subst (asm) block_list.simps) (auto simp: Let_def)
    then show ?thesis
    proof cases
      case 1
      have "sp < 2 ^ 32" using True \<open>ep \<le> 2 ^ 32\<close> by simp
      then have "a AND block_mask ?k = of_nat sp"
        using block_match [OF b(2), of a] b(1) \<open>ep \<le> 2 ^ 32\<close> 1 by (simp add: unat_of_nat)
      then show ?thesis using 1 k block_mask_eq [OF k] by auto
    next
      case 2
      then show ?thesis using 1(1) [OF True refl] 1(2) by simp
    qed
  qed (use 1(3) in \<open>subst (asm) block_list.simps, simp\<close>)
qed

section \<open>Texts of addresses\<close>

lemma ParseInt_dec_nat: "int n < 2 ^ 63 \<Longrightarrow> strconv_ParseInt (dec_nat n) 10 = (int n, True)"
  using ParseInt_dec_int [of "int n"] by (simp add: dec_int_def in_int64_def)

lemma byte_text_chars: "c \<in> set (byte_text b) \<Longrightarrow> is_digit c"
  by (auto simp: byte_text_def dest: dec_nat_digits)

lemma not_digit_punct: "\<not> is_digit (CHR ''.'')" "\<not> is_digit (CHR ''/'')" "\<not> is_digit (CHR '':'')"
  by code_simp+

lemma dotted_split: "strings_Split (CHR ''.'') (dotted [a, b, c, d]) = map byte_text [a, b, c, d]"
  unfolding dotted_def using byte_text_chars not_digit_punct(1) by (intro strings_Split_Join) auto

lemma ParseInt_byte: "strconv_ParseInt (byte_text b) 10 = (uint b, True)"
proof -
  have "uint b < 256" using uint_lt2p [of b] by simp
  then have "int (unat b) < 2 ^ 63" by simp
  from ParseInt_dec_nat [OF this] show ?thesis by (simp add: byte_text_def)
qed

lemma IP2Number_dotted: "IP2Number (dotted [a, b, c, d]) = Some (be32_get [a, b, c, d])"
proof -
  have u: "word_of_int (uint b) = (ucast b :: 32 word)" for b :: byte by simp
  show ?thesis
    unfolding IP2Number_def dotted_split Let_def
    by (simp add: ParseInt_byte u be32_get_def or.assoc)
qed

lemma Number2IP_dotted: "Number2IP a = dotted (be32 a)"
  by (simp add: Number2IP_def Number2Bytes_be32 dotted_def be32_def)

lemma dotted_not_Nil: "dotted [a, b, c, d] \<noteq> []"
  by (simp add: dotted_def byte_text_def)

lemma dotted_chars: "x \<in> set (dotted [a, b, c, d]) \<Longrightarrow> is_digit x \<or> x = CHR ''.''"
  by (auto simp: dotted_def dest: byte_text_chars)

lemma NewIPV4Addr_dotted: "NewIPV4Addr (dotted [a, b, c, d]) = Some (be32_get [a, b, c, d])"
  by (simp add: NewIPV4Addr_def IP2Number_dotted dotted_not_Nil)

lemma MatchIP4Addr_dec: "\<not> MatchIP4Addr (dec_nat l)"
proof -
  have "find (\<lambda>c. c = CHR ''.'' \<or> c = CHR '':'') (dec_nat l) = None"
    using dec_nat_digits not_digit_punct by (auto simp: find_None_iff)
  then show ?thesis by (simp add: MatchIP4Addr_def net_ParseIP_def)
qed

lemma ParsePrefix_text:
  assumes "l \<le> 32"
  shows "ParsePrefix (dotted [a, b, c, d] @ ''/'' @ dec_nat l) =
    Some (NetAddr (be32_get [a, b, c, d]) (int l), int l)"
proof -
  have ns: "\<forall>x \<in> set (dotted [a, b, c, d]). x \<noteq> CHR ''/''" using dotted_chars not_digit_punct by blast
  then have "takeWhile (\<lambda>c. c \<noteq> CHR ''/'') (dotted [a, b, c, d] @ CHR ''/'' # t) = dotted [a, b, c, d]"
    "dropWhile (\<lambda>c. c \<noteq> CHR ''/'') (dotted [a, b, c, d] @ CHR ''/'' # t) = CHR ''/'' # t" for t
    by (simp_all add: takeWhile_append dropWhile_append)
  moreover have "strconv_ParseInt (dec_nat l) 10 = (int l, True)" using assms by (intro ParseInt_dec_nat) simp
  ultimately show ?thesis
    using assms by (simp add: ParsePrefix_def dotted_not_Nil NewIPV4Addr_dotted MatchIP4Addr_dec)
qed

section \<open>Networks as ranges\<close>

text \<open>An IPv4 network with a canonical mask, its address and its prefix length.\<close>

definition v4net :: "IPNet \<Rightarrow> bool" where
  "v4net n \<longleftrightarrow> To4 (IP n) \<noteq> [] \<and> length (Mask n) = 4 \<and> simpleMaskLength (Mask n) \<noteq> None"

definition net_addr :: "IPNet \<Rightarrow> 32 word" where
  "net_addr n = be32_get (To4 (IP n))"

definition net_len :: "IPNet \<Rightarrow> nat" where
  "net_len n = the (simpleMaskLength (Mask n))"

lemma byte_ones_le: "byte_ones v = Some n \<Longrightarrow> n \<le> 8"
  by (auto simp: byte_ones_def find_Some_iff)

lemma simpleMaskLength_le: "simpleMaskLength m = Some n \<Longrightarrow> n \<le> 8 * length m"
  by (induction m arbitrary: n) (auto dest: byte_ones_le split: if_splits)

lemma net_len_le: "v4net n \<Longrightarrow> net_len n \<le> 32"
  using simpleMaskLength_le [of "Mask n"] by (auto simp: v4net_def net_len_def)

lemma four_bytes: "length xs = 4 \<Longrightarrow> \<exists>a b c d. xs = [a, b, c, d]"
  by (auto simp: length_Suc_conv numeral_eq_Suc)

lemma IPNet_String_v4:
  assumes "v4net n"
  shows "\<exists>a b c d. To4 (IP n) = [a, b, c, d] \<and> IPNet_String n = dotted [a, b, c, d] @ ''/'' @ dec_nat (net_len n)"
proof -
  have len: "length (To4 (IP n)) = 4" using To4_length [of "IP n"] assms by (auto simp: v4net_def)
  then obtain a b c d where ip: "To4 (IP n) = [a, b, c, d]" using four_bytes by blast
  moreover have "To4 [a, b, c, d] = [a, b, c, d]" by (simp add: To4_def)
  then have "IP_String [a, b, c, d] = dotted [a, b, c, d]" by (rule IP_String_v4)
  moreover obtain l where "simpleMaskLength (Mask n) = Some l" using assms by (auto simp: v4net_def)
  ultimately show ?thesis using assms by (simp add: IPNet_String_def networkNumberAndMask_def v4net_def net_len_def)
qed

lemma range_of_net:
  assumes "v4net n"
  shows "NewIPV4AddrRangeFromIPNet n =
    Some (ToIPRange \<lparr>Address = NetAddr (net_addr n) (int (net_len n)), MaskLen = int (net_len n)\<rparr>)"
proof -
  from IPNet_String_v4 [OF assms] obtain a b c d where "To4 (IP n) = [a, b, c, d]"
    "IPNet_String n = dotted [a, b, c, d] @ ''/'' @ dec_nat (net_len n)" by blast
  with ParsePrefix_text [OF net_len_le [OF assms], of a b c d] show ?thesis
    by (simp only: NewIPV4AddrRangeFromIPNet_def NewIPV4Prefix_def net_addr_def) simp
qed

definition net_contains :: "IPNet \<Rightarrow> IPV4Addr \<Rightarrow> bool" where
  "net_contains n x \<longleftrightarrow> x AND Masklen2Mask (int (net_len n)) = net_addr n AND Masklen2Mask (int (net_len n))"

lemma ToIPRange_contains:
  assumes "l \<le> 32"
  shows "Contains (ToIPRange \<lparr>Address = a, MaskLen = int l\<rparr>) x \<longleftrightarrow> x AND Masklen2Mask (int l) = a AND Masklen2Mask (int l)"
proof -
  have "(0xffffffff :: 32 word) = - 1" by simp
  then have m: "0xffffffff - NOT (mask (32 - l)) = (mask (32 - l) :: 32 word)"
    by (simp only: not_eq_complement) simp
  show ?thesis
    using block_interval [of "32 - l" a x]
    by (simp add: Contains_def ToIPRange_def NetAddr_def BroadcastAddr_def Masklen2Mask_eq [OF assms] m and.commute)
qed

lemma net_range_contains:
  assumes "v4net n" and "NewIPV4AddrRangeFromIPNet n = Some ar"
  shows "Contains ar x \<longleftrightarrow> net_contains n x" and "ar_start ar \<le> ar_end ar"
proof -
  let ?l = "int (net_len n)"
  note l = net_len_le [OF assms(1)]
  have ar: "ar = ToIPRange \<lparr>Address = NetAddr (net_addr n) ?l, MaskLen = ?l\<rparr>"
    using range_of_net [OF assms(1)] assms(2) by simp
  show c: "Contains ar x \<longleftrightarrow> net_contains n x" for x
    unfolding ar ToIPRange_contains [OF l] net_contains_def NetAddr_def
    by (simp add: and.commute and.left_commute)
  have "net_contains n (net_addr n)" by (simp add: net_contains_def)
  then have "Contains ar (net_addr n)" using c by simp
  then show "ar_start ar \<le> ar_end ar" by (auto simp: Contains_def)
qed

lemma word_bytes: "[word_byte w 24, word_byte w 16, word_byte w 8, word_byte w 0] = be32 w"
proof -
  have m: "(0xff :: 32 word) = mask 8" by (simp add: mask_eq_exp_minus_1)
  have "word_byte w n = ucast (drop_bit n w)" for n
    unfolding word_byte_def m by (rule bit_word_eqI) (auto simp: bit_simps)
  then show ?thesis by (simp add: be32_def)
qed

lemma mask_bytes: "k \<le> 32 \<Longrightarrow> simpleMaskLength (be32 (NOT (mask k))) = Some (32 - k)"
proof -
  have "list_all (\<lambda>k. simpleMaskLength (be32 (NOT (mask k))) = Some (32 - k)) [0..<33]" by code_simp
  then show "k \<le> 32 \<Longrightarrow> ?thesis" by (simp add: list_all_iff)
qed

lemma unat32_Suc: "unat (w :: 32 word) + 1 \<le> 2 ^ 32"
proof -
  have "unat w < 2 ^ 32" using unsigned_less [of w] by simp
  then show ?thesis by simp
qed

lemma ToMaskMatches_shape:
  assumes "(a, m) \<in> set (ToMaskMatches ar)"
  shows "\<exists>k \<le> 32. m = NOT (mask k) \<and> a AND m = a"
proof (cases "ar_start ar = ar_end ar")
  case True
  then show ?thesis using assms by (auto simp: ToMaskMatches_def Let_def intro!: exI [of _ 0])
next
  case False
  have "unat (ar_end ar) + 1 \<le> 2 ^ 32" by (rule unat32_Suc)
  then show ?thesis using assms False block_list_shape [of "unat (ar_end ar) + 1" a m "unat (ar_start ar)"] by (simp add: ToMaskMatches_def Let_def)
qed

lemma ToMaskMatches_partition:
  assumes "ar_start ar \<le> ar_end ar"
  shows "length (filter (\<lambda>(a, m). x AND m = a) (ToMaskMatches ar)) = (if Contains ar x then 1 else 0)"
proof (cases "ar_start ar = ar_end ar")
  case True
  then show ?thesis by (auto simp: ToMaskMatches_def Contains_def)
next
  case False
  have "unat (ar_end ar) + 1 \<le> 2 ^ 32" by (rule unat32_Suc)
  from block_list_partition [OF this, of x "unat (ar_start ar)"] False show ?thesis
    by (simp add: ToMaskMatches_def Let_def Contains_def word_le_nat_alt less_Suc_eq_le)
qed

definition block_net :: "32 word \<times> 32 word \<Rightarrow> IPNet" where
  "block_net am = \<lparr>IP = ip4_bytes (fst am), Mask = be32 (snd am)\<rparr>"

lemma ToIPNets_blocks: "ToIPNets ar = map block_net (ToMaskMatches ar)"
proof -
  have "net_IPv4 (word_byte a 24) (word_byte a 16) (word_byte a 8) (word_byte a 0) = ip4_bytes a" for a
    using word_bytes [of a] by (simp add: ip4_bytes_def net_IPv4_def be32_def)
  then show ?thesis unfolding ToIPNets_def word_bytes by (simp add: block_net_def case_prod_beta)
qed

lemma block_net_contains:
  assumes "k \<le> 32" and "a AND NOT (mask k) = a"
  shows "v4net (block_net (a, NOT (mask k)))" and "net_contains (block_net (a, NOT (mask k))) x \<longleftrightarrow> x AND NOT (mask k) = a"
proof -
  have "be32 a \<noteq> []" by (simp add: be32_def)
  then show "v4net (block_net (a, NOT (mask k)))"
    using mask_bytes [OF assms(1)] by (simp add: v4net_def block_net_def)
  have "32 - (32 - k) = k" using assms(1) by simp
  then have "Masklen2Mask (int (net_len (block_net (a, NOT (mask k))))) = NOT (mask k)"
    using mask_bytes [OF assms(1)] by (simp only: net_len_def block_net_def IPNet.simps snd_conv option.sel Masklen2Mask_eq diff_le_self)
  moreover have "net_addr (block_net (a, NOT (mask k))) = a" by (simp add: net_addr_def block_net_def)
  ultimately show "net_contains (block_net (a, NOT (mask k))) x \<longleftrightarrow> x AND NOT (mask k) = a"
    using assms(2) by (simp add: net_contains_def)
qed

text \<open>The networks of a range are IPv4 networks, and together contain exactly the addresses of the range.\<close>

lemma ToIPNets_v4: "n \<in> set (ToIPNets ar) \<Longrightarrow> v4net n"
  unfolding ToIPNets_blocks using ToMaskMatches_shape [of _ _ ar] block_net_contains(1) by fastforce

lemma filter_one_ex: "length (filter P xs) = (if b then 1 else 0) \<Longrightarrow> list_ex P xs \<longleftrightarrow> b"
  by (cases "filter P xs = []") (auto simp: list_ex_iff filter_empty_conv split: if_splits)

lemma ToIPNets_contains:
  assumes "ar_start ar \<le> ar_end ar"
  shows "(\<exists>n \<in> set (ToIPNets ar). net_contains n x) \<longleftrightarrow> Contains ar x"
proof -
  have "net_contains (block_net am) x \<longleftrightarrow> x AND snd am = fst am" if "am \<in> set (ToMaskMatches ar)" for am
    using ToMaskMatches_shape [of "fst am" "snd am" ar] block_net_contains(2) that by (cases am) auto
  then have "(\<exists>n \<in> set (ToIPNets ar). net_contains n x) \<longleftrightarrow> list_ex (\<lambda>(a, m). x AND m = a) (ToMaskMatches ar)"
    unfolding ToIPNets_blocks by (simp add: list_ex_iff case_prod_beta)
  then show ?thesis using filter_one_ex [OF ToMaskMatches_partition [OF assms]] by simp
qed

section \<open>Difference of ranges\<close>

lemma NewIPV4AddrRange_contains:
  assumes "0 \<le> a" "a \<le> b" "b < 2 ^ 32"
  shows "Contains (NewIPV4AddrRange (word_of_int a) (word_of_int b)) x \<longleftrightarrow> a \<le> uint x \<and> uint x \<le> b"
proof -
  have "uint (word_of_int a :: 32 word) = a" "uint (word_of_int b :: 32 word) = b"
    using assms by (simp_all add: uint_word_of_int)
  then show ?thesis using assms by (auto simp: NewIPV4AddrRange_def Contains_def word_le_def word_less_def)
qed

lemma NewIPV4AddrRange_valid: "ar_start (NewIPV4AddrRange a b) \<le> ar_end (NewIPV4AddrRange a b)"
  by (auto simp: NewIPV4AddrRange_def)

lemma Contains_uint: "Contains ar x \<longleftrightarrow> uint (ar_start ar) \<le> uint x \<and> uint x \<le> uint (ar_end ar)"
  by (auto simp: Contains_def word_le_def)

lemma Substract_contains:
  assumes "ar_start ar \<le> ar_end ar" and "ar_start ar2 \<le> ar_end ar2" and "Substract ar ar2 = (lefts, sub)"
  shows "(\<exists>l \<in> set lefts. Contains l x) \<longleftrightarrow> Contains ar x \<and> \<not> Contains ar2 x"
    and "(\<exists>s. sub = Some s \<and> Contains s x) \<longleftrightarrow> Contains ar x \<and> Contains ar2 x"
proof -
  define s e s2 e2 where d: "s = uint (ar_start ar)" "e = uint (ar_end ar)" "s2 = uint (ar_start ar2)" "e2 = uint (ar_end ar2)"
  have b: "0 \<le> s" "s \<le> e" "e < 2 ^ 32" "0 \<le> s2" "s2 \<le> e2" "e2 < 2 ^ 32"
    using assms(1,2) uint_lt2p [of "ar_end ar"] uint_lt2p [of "ar_end ar2"] by (simp_all add: d word_le_def)
  note c = Contains_uint [of ar, folded d] Contains_uint [of ar2, folded d]
  have w: "ar_start ar = word_of_int s" "ar_end ar = word_of_int e" "ar_start ar2 = word_of_int s2" "ar_end ar2 = word_of_int e2"
    by (simp_all add: d)
  have p: "ar_start ar2 - 1 = word_of_int (s2 - 1)" "ar_end ar2 + 1 = word_of_int (e2 + 1)" by (simp_all add: w)
  note S = assms(3) [unfolded Substract_def ContainsRange_def word_le_def word_less_def, folded d, unfolded p, unfolded w, symmetric]
  have r1: "0 \<le> a \<Longrightarrow> a < b \<Longrightarrow> b < 2 ^ 32 \<Longrightarrow>
      Contains (NewIPV4AddrRange (word_of_int a) (word_of_int b - 1)) x \<longleftrightarrow> a \<le> uint x \<and> uint x < b" for a b
    using NewIPV4AddrRange_contains [of a "b - 1" x] by simp
  have r2: "0 \<le> a \<Longrightarrow> a < b \<Longrightarrow> b < 2 ^ 32 \<Longrightarrow>
      Contains (NewIPV4AddrRange (word_of_int a + 1) (word_of_int b)) x \<longleftrightarrow> a < uint x \<and> uint x \<le> b" for a b
    using NewIPV4AddrRange_contains [of "a + 1" b x] by auto
  note R = NewIPV4AddrRange_contains r1 r2
  have "((\<exists>l \<in> set lefts. Contains l x) \<longleftrightarrow> Contains ar x \<and> \<not> Contains ar2 x) \<and>
      ((\<exists>s. sub = Some s \<and> Contains s x) \<longleftrightarrow> Contains ar x \<and> Contains ar2 x)"
  proof -
    consider (no) "e < s2 \<or> s > e2" | (outer) "s \<le> s2" "e2 \<le> e" | (inner) "\<not> (s \<le> s2 \<and> e2 \<le> e)" "s2 \<le> s" "e \<le> e2" "s \<le> e2" "s2 \<le> e"
      | (left) "s < s2" "s2 \<le> e" "e < e2" | (right) "s2 < s" "s \<le> e2" "e2 < e" by linarith
    then show ?thesis
    proof cases
      case no
      then show ?thesis using S b c by auto
    next
      case outer
      then show ?thesis using S b c by (cases "s \<le> s2 - 1"; cases "e2 + 1 \<le> e") (auto simp: R)
    next
      case inner
      then show ?thesis using S b c by auto
    next
      case left
      then show ?thesis using S b c by (auto simp: R)
    next
      case right
      then show ?thesis using S b c by (auto simp: R)
    qed
  qed
  then show "(\<exists>l \<in> set lefts. Contains l x) \<longleftrightarrow> Contains ar x \<and> \<not> Contains ar2 x"
    "(\<exists>s. sub = Some s \<and> Contains s x) \<longleftrightarrow> Contains ar x \<and> Contains ar2 x" by blast+
qed

lemma Substract_valid:
  assumes "ar_start ar \<le> ar_end ar" and "ar_start ar2 \<le> ar_end ar2" and "Substract ar ar2 = (lefts, sub)"
  shows "l \<in> set lefts \<Longrightarrow> ar_start l \<le> ar_end l" and "sub = Some r \<Longrightarrow> ar_start r \<le> ar_end r"
  using assms by (auto simp: Substract_def NewIPV4AddrRange_valid split: if_splits)

section \<open>Properties\<close>

text \<open>
  C10. A range of addresses is decomposed into networks that do not overlap and together are the
  range: reading the networks back as ranges, every address of the range is in exactly one
  of them, and no other address is in any. The loops of the decomposition end.
\<close>

theorem ToIPNets_partitions_range:
  assumes "ar_start ar \<le> ar_end ar"
  shows "\<exists>rs. map NewIPV4AddrRangeFromIPNet (ToIPNets ar) = map Some rs \<and>
     (\<forall>x. length (filter (\<lambda>r. Contains r x) rs) = (if Contains ar x then 1 else 0))"
proof -
  define r where "r n = the (NewIPV4AddrRangeFromIPNet n)" for n
  have r: "NewIPV4AddrRangeFromIPNet n = Some (r n)" if "n \<in> set (ToIPNets ar)" for n
    using range_of_net [OF ToIPNets_v4 [OF that]] by (simp add: r_def)
  have c: "Contains (r (block_net (a, m))) x \<longleftrightarrow> x AND m = a" if am: "(a, m) \<in> set (ToMaskMatches ar)" for a m x
  proof -
    have n: "block_net (a, m) \<in> set (ToIPNets ar)" using am by (simp add: ToIPNets_blocks)
    obtain k where "k \<le> 32" "m = NOT (mask k)" "a AND m = a" using ToMaskMatches_shape [OF am] by blast
    then show ?thesis
      using net_range_contains(1) [OF ToIPNets_v4 [OF n] r [OF n]] block_net_contains(2) by simp
  qed
  have "filter (\<lambda>r. Contains r x) (map (r \<circ> block_net) (ToMaskMatches ar)) =
      map (r \<circ> block_net) (filter (\<lambda>(a, m). x AND m = a) (ToMaskMatches ar))" for x
    unfolding filter_map using c by (auto intro!: arg_cong [where f = "map (r \<circ> block_net)"] filter_cong)
  then have "length (filter (\<lambda>r. Contains r x) (map (r \<circ> block_net) (ToMaskMatches ar))) = (if Contains ar x then 1 else 0)" for x
    using ToMaskMatches_partition [OF assms] by simp
  moreover have "map NewIPV4AddrRangeFromIPNet (ToIPNets ar) = map Some (map (r \<circ> block_net) (ToMaskMatches ar))"
    using r by (simp add: ToIPNets_blocks)
  ultimately show ?thesis by blast
qed

lemma ToIPNets_partitions_range_witness:
  "\<exists>rs. map NewIPV4AddrRangeFromIPNet (ToIPNets \<lparr>ar_start = 1, ar_end = 0xfffffffe\<rparr>) = map Some rs \<and>
     (\<forall>x. length (filter (\<lambda>r. Contains r x) rs) = (if Contains \<lparr>ar_start = 1, ar_end = 0xfffffffe\<rparr> x then 1 else 0))"
  by (rule ToIPNets_partitions_range) simp

text \<open>
  C14. The difference of two ranges: an address is in one of the remaining ranges exactly when
  it is in the first range and not in the second, and in the part taken away exactly when it
  is in both. All resulting ranges are ordered.
\<close>

theorem Substract_correct:
  assumes "ar_start ar \<le> ar_end ar" and "ar_start ar2 \<le> ar_end ar2"
  shows "case Substract ar ar2 of (lefts, sub) \<Rightarrow>
     (\<forall>x. (\<exists>l. l \<in> set lefts \<and> Contains l x) = (Contains ar x \<and> \<not> Contains ar2 x)) \<and>
     (\<forall>x. (\<exists>s. sub = Some s \<and> Contains s x) = (Contains ar x \<and> Contains ar2 x)) \<and>
     list_all (\<lambda>r. ar_start r \<le> ar_end r) (lefts @ (case sub of None \<Rightarrow> [] | Some s \<Rightarrow> [s]))"
proof -
  obtain lefts sub where S: "Substract ar ar2 = (lefts, sub)" by fastforce
  then show ?thesis
    using Substract_contains [OF assms S] Substract_valid [OF assms S]
    by (auto simp: list_all_iff Bex_def split: option.split)
qed

lemma Substract_correct_witness:
  "case Substract \<lparr>ar_start = 10, ar_end = 20\<rparr> \<lparr>ar_start = 15, ar_end = 30\<rparr> of (lefts, sub) \<Rightarrow>
     (\<forall>x. (\<exists>l. l \<in> set lefts \<and> Contains l x) = (Contains \<lparr>ar_start = 10, ar_end = 20\<rparr> x \<and> \<not> Contains \<lparr>ar_start = 15, ar_end = 30\<rparr> x)) \<and>
     (\<forall>x. (\<exists>s. sub = Some s \<and> Contains s x) = (Contains \<lparr>ar_start = 10, ar_end = 20\<rparr> x \<and> Contains \<lparr>ar_start = 15, ar_end = 30\<rparr> x)) \<and>
     list_all (\<lambda>r. ar_start r \<le> ar_end r) (lefts @ (case sub of None \<Rightarrow> [] | Some s \<Rightarrow> [s]))"
  by (rule Substract_correct) simp_all

text \<open>
  C15. Addresses and prefixes are read back from their texts: the dotted form of every address
  gives the address, and the text of a prefix with a length up to 32 gives its network
  address and its length.
\<close>

theorem address_text_roundtrip:
  "IP2Number (Number2IP a) = Some a \<and>
   (0 \<le> l \<and> l \<le> 32 \<longrightarrow> NewIPV4Prefix (prefix_String \<lparr>Address = a, MaskLen = l\<rparr>) = Some \<lparr>Address = NetAddr a l, MaskLen = l\<rparr>)"
proof -
  have n: "IP2Number (Number2IP a) = Some a" for a
    unfolding Number2IP_dotted using IP2Number_dotted be32_get_be32 [of a] by (simp add: be32_def)
  moreover have "NewIPV4Prefix (prefix_String \<lparr>Address = a, MaskLen = l\<rparr>) = Some \<lparr>Address = NetAddr a l, MaskLen = l\<rparr>"
    if l: "0 \<le> l" "l \<le> 32"
  proof -
    have t: "prefix_String \<lparr>Address = a, MaskLen = l\<rparr> = dotted (be32 (NetAddr a l)) @ ''/'' @ dec_nat (nat l)"
      using l by (simp add: prefix_String_def Number2IP_dotted dec_int_def)
    have "NetAddr (NetAddr a l) l = NetAddr a l" by (simp add: NetAddr_def)
    moreover have "ParsePrefix (dotted (be32 v) @ ''/'' @ dec_nat (nat l)) = Some (NetAddr v l, l)" for v
      using ParsePrefix_text [of "nat l" "be32 v ! 0" "be32 v ! 1" "be32 v ! 2" "be32 v ! 3"] l
      by (simp add: be32_nths)
    ultimately show ?thesis unfolding t by (simp add: NewIPV4Prefix_def)
  qed
  ultimately show ?thesis by blast
qed

lemma address_text_roundtrip_witness:
  "NewIPV4Prefix (prefix_String \<lparr>Address = 0x0a010203, MaskLen = 8\<rparr>) = Some \<lparr>Address = NetAddr 0x0a010203 8, MaskLen = 8\<rparr>"
  using address_text_roundtrip [of "0x0a010203" 8] by simp

text \<open>
  The address count of a range is the number of its addresses modulo \<open>2\<^sup>3\<^sup>2\<close>: the range of
  all addresses is counted as empty, every other range correctly.
\<close>

theorem AddressCount_counts:
  assumes "ar_start ar \<le> ar_end ar"
  shows "AddressCount ar = card {x. Contains ar x} mod 2 ^ 32"
proof -
  have "unat ` {x. Contains ar x} = {unat (ar_start ar)..unat (ar_end ar)}"
  proof
    show "{unat (ar_start ar)..unat (ar_end ar)} \<subseteq> unat ` {x. Contains ar x}"
    proof
      fix n assume n: "n \<in> {unat (ar_start ar)..unat (ar_end ar)}"
      then have "n < 2 ^ 32" using unat32_Suc [of "ar_end ar"] by simp
      then have "unat (of_nat n :: 32 word) = n" by (simp add: unat_of_nat)
      then show "n \<in> unat ` {x. Contains ar x}"
        using n by (intro image_eqI [of _ _ "of_nat n"]) (simp_all add: Contains_def word_le_nat_alt)
    qed
  qed (auto simp: Contains_def word_le_nat_alt)
  moreover have "inj_on unat {x. Contains ar x}" by (simp add: inj_on_def word_unat_eq_iff)
  ultimately have "card {x. Contains ar x} = unat (ar_end ar) + 1 - unat (ar_start ar)"
    by (metis card_image card_atLeastAtMost Suc_eq_plus1)
  moreover have "unat (ar_end ar - ar_start ar + 1) = (unat (ar_end ar) - unat (ar_start ar) + 1) mod 2 ^ 32"
    using assms by (simp add: unat_word_ariths(1) unat_sub)
  moreover have "unat (ar_start ar) \<le> unat (ar_end ar)" using assms by (simp add: word_le_nat_alt)
  ultimately show ?thesis by (simp add: AddressCount_def Suc_diff_le)
qed

lemma AddressCount_counts_witness:
  "AddressCount \<lparr>ar_start = 0, ar_end = 0xffffffff\<rparr> = 0 \<and>
   AddressCount \<lparr>ar_start = 0, ar_end = 0xffffffff\<rparr> = card {x. Contains \<lparr>ar_start = 0, ar_end = 0xffffffff\<rparr> x} mod 2 ^ 32"
proof
  show "AddressCount \<lparr>ar_start = 0, ar_end = 0xffffffff\<rparr> = 0" by (simp add: AddressCount_def)
qed (rule AddressCount_counts, simp)

end
