(* ===== verification/Sec_Rules.thy ===== *)
theory Sec_Rules
  imports Netutils
begin

text \<open>
  Security rules, \<^verbatim>\<open>vendor/yunion.io/x/pkg/util/secrules\<close>: the textual form of a rule, the
  translation of an ordered list of allow and deny rules into a list of allow rules by
  cutting every denied part out of the later rules, and the rule sets compared when security
  groups are synchronised. \<^verbatim>\<open>SecurityRuleSetToAllowSet\<close> of \<^verbatim>\<open>pkg/util/aws\<close> and
  \<^verbatim>\<open>pkg/util/huawei\<close> applies it to the rules of a security group.

  The network of a rule is a pointer that every rule sets; a rule without a network is not
  represented. \<^verbatim>\<open>sort.Sort\<close> and \<^verbatim>\<open>sort.Slice\<close> leave the order of equal elements open and are
  the argument \<open>srt\<close>.
\<close>

unbundle bit_operations_syntax

section \<open>Ports\<close>

type_synonym ports = "16 word list"

definition newPortsFromInts :: "int list \<Rightarrow> ports" where
  "newPortsFromInts ints = map word_of_int ints"

definition IntSlice :: "ports \<Rightarrow> int list" where
  "IntSlice ps = map uint ps"

definition ports_contains :: "ports \<Rightarrow> 16 word \<Rightarrow> bool" where
  "ports_contains ps p \<longleftrightarrow> list_ex (\<lambda>p0. p0 = p) ps"

definition containsPorts :: "ports \<Rightarrow> ports \<Rightarrow> bool" where
  "containsPorts ps ps1 \<longleftrightarrow> list_all (ports_contains ps) ps1"

fun dedup_loop :: "nat \<Rightarrow> ports \<Rightarrow> ports" where
  "dedup_loop 0 ps1 = ps1"
| "dedup_loop (Suc i) ps1 =
     dedup_loop i (if ps1 ! Suc i = ps1 ! i then take (Suc i) ps1 @ drop (Suc i + 1) ps1 else ps1)"

definition dedup :: "ports \<Rightarrow> ports" where
  "dedup ps = dedup_loop (length ps - 1) (sort ps)"

definition sameAs :: "ports \<Rightarrow> ports \<Rightarrow> bool" where
  "sameAs ps ps1 \<longleftrightarrow> length ps = length ps1 \<and> list_all (\<lambda>i. ps ! i = ps1 ! i) [0..<length ps]"

record portRange =
  pr_start :: "16 word"
  pr_end :: "16 word"

definition pr_equals :: "portRange \<Rightarrow> portRange \<Rightarrow> bool" where
  "pr_equals pr pr1 \<longleftrightarrow> pr_start pr = pr_start pr1 \<and> pr_end pr = pr_end pr1"

definition pr_contains :: "portRange \<Rightarrow> 16 word \<Rightarrow> bool" where
  "pr_contains pr p \<longleftrightarrow> p \<ge> pr_start pr \<and> p \<le> pr_end pr"

definition containsRange :: "portRange \<Rightarrow> portRange \<Rightarrow> bool" where
  "containsRange pr pr1 \<longleftrightarrow> pr_start pr \<le> pr_start pr1 \<and> pr_end pr \<ge> pr_end pr1"

definition pr_count :: "portRange \<Rightarrow> 16 word" where
  "pr_count pr = pr_end pr - pr_start pr + 1"

definition ports_substractPortRange :: "ports \<Rightarrow> portRange \<Rightarrow> ports \<times> ports" where
  "ports_substractPortRange ps pr = (filter (\<lambda>p. \<not> pr_contains pr p) ps, filter (pr_contains pr) ps)"

definition ports_substractPorts :: "ports \<Rightarrow> ports \<Rightarrow> ports \<times> ports" where
  "ports_substractPorts ps ps1 = (filter (\<lambda>p. \<not> ports_contains ps1 p) ps, filter (ports_contains ps1) ps)"

definition substractPortRange :: "portRange \<Rightarrow> portRange \<Rightarrow> portRange list \<times> portRange option" where
  "substractPortRange pr pr1 =
     (if pr_end pr < pr_start pr1 \<or> pr_start pr > pr_end pr1 then ([pr], None)
      else if containsRange pr pr1 then
        (map (\<lambda>(a, b). \<lparr>pr_start = word_of_int a, pr_end = word_of_int b\<rparr>)
           (filter (\<lambda>(a, b). a \<le> b)
              [(uint (pr_start pr), uint (pr_start pr1) - 1), (uint (pr_end pr1) + 1, uint (pr_end pr))]),
         Some pr1)
      else if containsRange pr1 pr then ([], Some pr)
      else if pr_start pr < pr_start pr1 \<and> pr_end pr \<ge> pr_start pr1 then
        ([\<lparr>pr_start = pr_start pr, pr_end = pr_start pr1 - 1\<rparr>], Some \<lparr>pr_start = pr_start pr1, pr_end = pr_end pr\<rparr>)
      else if pr_start pr \<le> pr_end pr1 \<and> pr_end pr > pr_end pr1 then
        ([\<lparr>pr_start = pr_end pr1 + 1, pr_end = pr_end pr\<rparr>], Some \<lparr>pr_start = pr_start pr, pr_end = pr_end pr1\<rparr>)
      else ([], None))"

fun sub_ports_loop :: "portRange \<Rightarrow> ports \<Rightarrow> 16 word \<Rightarrow> portRange list \<times> ports \<Rightarrow> 16 word \<times> portRange list \<times> ports" where
  "sub_ports_loop pr [] s acc = (s, acc)"
| "sub_ports_loop pr (p # ps) s (lefts, subs) =
     (if pr_contains pr p then
        sub_ports_loop pr ps (p + 1)
          (if p > s then lefts @ [\<lparr>pr_start = s, pr_end = p - 1\<rparr>] else lefts, subs @ [p])
      else sub_ports_loop pr ps s (lefts, subs))"

definition substractPorts :: "portRange \<Rightarrow> ports \<Rightarrow> portRange list \<times> ports" where
  "substractPorts pr ps1 =
     (case sub_ports_loop pr (sort ps1) (pr_start pr) ([], []) of
        (s, lefts, subs) \<Rightarrow>
          (if s \<noteq> 0 \<and> s \<le> pr_end pr then lefts @ [\<lparr>pr_start = s, pr_end = pr_end pr\<rparr>] else lefts, subs))"

section \<open>Rules\<close>

definition SecurityRuleIngress :: string where "SecurityRuleIngress = ''in''"
definition SecurityRuleEgress :: string where "SecurityRuleEgress = ''out''"
definition SecurityRuleAllow :: string where "SecurityRuleAllow = ''allow''"
definition SecurityRuleDeny :: string where "SecurityRuleDeny = ''deny''"
definition PROTO_ANY :: string where "PROTO_ANY = ''any''"
definition PROTO_TCP :: string where "PROTO_TCP = ''tcp''"
definition PROTO_UDP :: string where "PROTO_UDP = ''udp''"
definition PROTO_ICMP :: string where "PROTO_ICMP = ''icmp''"

definition protocolsSupported :: "string list" where
  "protocolsSupported = [PROTO_TCP, PROTO_UDP, PROTO_ICMP]"

datatype sr_error =
    ErrInvalidProtocolAny | ErrInvalidProtocolICMP | ErrInvalidPriority | ErrInvalidDirection | ErrInvalidAction
  | ErrInvalidNet | ErrInvalidIPAddr | ErrInvalidProtocol | ErrInvalidPortRange | ErrInvalidPort

datatype Relation =
    RELATION_INDEPENDENT | RELATION_IDENTICAL | RELATION_SUBSET | RELATION_SUPERSET
  | RELATION_NEXT_AHEAD | RELATION_NEXT_AFTER | RELATION_OVERLAP

record SecurityRule =
  Priority :: int
  Action :: string
  Net :: IPNet
  Protocol :: string
  Direction :: string
  PortStart :: int
  PortEnd :: int
  Ports :: "int list"
  Description :: string

type_synonym SecurityRuleSet = "SecurityRule list"

subsection \<open>Parsing and printing\<close>

text \<open>\<^verbatim>\<open>strconv.ParseUint(s, 10, 16)\<close>: no sign, and an error above 65535.\<close>

definition parsePortString :: "string \<Rightarrow> sr_error + int" where
  "parsePortString ps =
     (case parse_digits 10 ps of
        Some p \<Rightarrow> if int p > 65535 \<or> p = 0 then Inl ErrInvalidPort else Inr (int p)
      | None \<Rightarrow> Inl ErrInvalidPort)"

fun parse_ports :: "string list \<Rightarrow> int list \<Rightarrow> sr_error + int list" where
  "parse_ports [] ports = Inr ports"
| "parse_ports (seg # segs) ports =
     (case parsePortString seg of Inl err \<Rightarrow> Inl err | Inr p \<Rightarrow> parse_ports segs (ports @ [p]))"

definition ParsePorts :: "SecurityRule \<Rightarrow> string \<Rightarrow> sr_error + SecurityRule" where
  "ParsePorts rule seg =
     (if seg = [] then Inr (rule\<lparr>Ports := [], PortStart := - 1, PortEnd := - 1\<rparr>)
      else if CHR ''-'' \<in> set seg then
        (case (parsePortString (takeWhile (\<lambda>c. c \<noteq> CHR ''-'') seg),
               parsePortString (tl (dropWhile (\<lambda>c. c \<noteq> CHR ''-'') seg))) of
           (Inr ps, Inr pe) \<Rightarrow>
             if ps > pe then Inr (rule\<lparr>PortStart := pe, PortEnd := ps\<rparr>)
             else Inr (rule\<lparr>PortStart := ps, PortEnd := pe\<rparr>)
         | _ \<Rightarrow> Inl ErrInvalidPortRange)
      else if CHR '','' \<in> set seg then
        (case parse_ports (strings_Split (CHR '','') seg) [] of
           Inl err \<Rightarrow> Inl err
         | Inr ports \<Rightarrow> Inr (rule\<lparr>Ports := ports\<rparr>))
      else (case parsePortString seg of
           Inl err \<Rightarrow> Inl err
         | Inr p \<Rightarrow> Inr (rule\<lparr>PortStart := p, PortEnd := p\<rparr>)))"

text \<open>\<^verbatim>\<open>strings.Replace(s, old, "", -1)\<close> for a non-empty \<open>old\<close>.\<close>

function remove_all :: "string \<Rightarrow> string \<Rightarrow> string" where
  "remove_all old s =
     (if s = [] \<or> old = [] then s
      else if take (length old) s = old then remove_all old (drop (length old) s)
      else hd s # remove_all old (tl s))"
  by pat_completeness auto

termination remove_all
  by (relation "measure (\<lambda>(old, s). length s)") (auto simp: neq_Nil_conv)

declare remove_all.simps [simp del]

definition MatchCIDR :: "string \<Rightarrow> bool" where
  "MatchCIDR str \<longleftrightarrow> net_ParseCIDR str \<noteq> None \<and> CHR '':'' \<notin> set str"

definition MatchIPAddr :: "string \<Rightarrow> bool" where
  "MatchIPAddr str \<longleftrightarrow> net_ParseIP str \<noteq> []"

definition TrimSpace :: "string \<Rightarrow> string" where
  "TrimSpace s = strings_Trim [CHR 9, CHR 10, CHR 11, CHR 12, CHR 13, CHR '' ''] s"

text \<open>The direction and the pattern without it.\<close>

definition parse_direction :: "string \<Rightarrow> (string \<times> string) option" where
  "parse_direction pattern =
     (case find (\<lambda>d. length pattern > length d + 1 \<and> take (length d + 1) pattern = d @ '':'')
        [SecurityRuleIngress, SecurityRuleEgress] of
        Some d \<Rightarrow> Some (d, remove_all (d @ '':'') pattern)
      | None \<Rightarrow> None)"

definition next_seg :: "string list \<Rightarrow> nat \<Rightarrow> string \<times> nat" where
  "next_seg data index = (if length data \<ge> index + 1 then (data ! index, index + 1) else ([], index))"

definition parse_net :: "string \<Rightarrow> IPNet option" where
  "parse_net seg =
     (if MatchCIDR seg then map_option snd (net_ParseCIDR seg)
      else if MatchIPAddr seg then Some \<lparr>IP = net_ParseIP seg, Mask = net_CIDRMask 32 32\<rparr>
      else None)"

definition empty_rule :: SecurityRule where
  "empty_rule = \<lparr>Priority = 0, Action = [], Net = \<lparr>IP = [], Mask = []\<rparr>, Protocol = [], Direction = [],
     PortStart = 0, PortEnd = 0, Ports = [], Description = []\<rparr>"

definition ParseSecurityRule :: "string \<Rightarrow> sr_error + SecurityRule" where
  "ParseSecurityRule pattern =
     (case parse_direction pattern of
        None \<Rightarrow> Inl ErrInvalidDirection
      | Some (direction, pattern) \<Rightarrow>
          let rule = empty_rule\<lparr>Direction := direction\<rparr>;
              data = strings_Split (CHR '' '') (TrimSpace pattern);
              (seg, index) = next_seg data 0 in
          if seg \<noteq> SecurityRuleAllow \<and> seg \<noteq> SecurityRuleDeny then Inl ErrInvalidAction
          else
            let rule = rule\<lparr>Action := seg\<rparr>;
                (seg, index) = next_seg data index;
                (rule, index) = (case parse_net seg of
                    Some n \<Rightarrow> (rule\<lparr>Net := n\<rparr>, index)
                  | None \<Rightarrow> (rule\<lparr>Net := \<lparr>IP = IPv4zero, Mask = net_CIDRMask 0 32\<rparr>\<rparr>, index - 1));
                (seg, index) = next_seg data index in
            if seg = PROTO_ANY \<or> seg = PROTO_ICMP then Inr (rule\<lparr>Protocol := seg\<rparr>)
            else if seg = PROTO_TCP \<or> seg = PROTO_UDP then
              ParsePorts (rule\<lparr>Protocol := seg\<rparr>) (fst (next_seg data index))
            else Inl ErrInvalidProtocol)"

definition MustParseSecurityRule :: "string \<Rightarrow> SecurityRule option" where
  "MustParseSecurityRule s = (case ParseSecurityRule s of Inl _ \<Rightarrow> None | Inr r \<Rightarrow> Some r)"

definition getPort :: "SecurityRule \<Rightarrow> string" where
  "getPort rule =
     (if PortStart rule > 0 \<and> PortEnd rule > 0 then
        if PortStart rule < PortEnd rule then dec_int (PortStart rule) @ ''-'' @ dec_int (PortEnd rule)
        else if PortStart rule = PortEnd rule then dec_int (PortStart rule)
        else []
      else if length (Ports rule) > 0 then strings_Join '','' (map dec_int (Ports rule))
      else [])"

definition rule_String :: "SecurityRule \<Rightarrow> string" where
  "rule_String rule =
     (let s = [Direction rule @ '':'' @ Action rule];
          cidr = IPNet_String (Net rule);
          s = (if cidr \<noteq> ''0.0.0.0/0'' then
                 if fst (Mask_Size (Mask (Net rule))) < 32 then s @ [cidr] else s @ [IP_String (IP (Net rule))]
               else s);
          s = s @ [Protocol rule];
          s = (if (Protocol rule = PROTO_TCP \<or> Protocol rule = PROTO_UDP) \<and> getPort rule \<noteq> []
               then s @ [getPort rule] else s) in
      strings_Join '' '' s)"

definition rule_equals :: "SecurityRule \<Rightarrow> SecurityRule \<Rightarrow> bool" where
  "rule_equals rule r \<longleftrightarrow> rule_String rule = rule_String r"

definition netEquals :: "SecurityRule \<Rightarrow> SecurityRule \<Rightarrow> bool" where
  "netEquals rule r \<longleftrightarrow> IPNet_String (Net rule) = IPNet_String (Net r)"

definition IsWildMatch :: "SecurityRule \<Rightarrow> bool" where
  "IsWildMatch rule \<longleftrightarrow>
     IPNet_String (Net rule) = ''0.0.0.0/0'' \<and> Protocol rule = PROTO_ANY \<and> length (Ports rule) = 0 \<and>
     (PortStart rule \<le> 0 \<and> PortEnd rule \<le> 0 \<or> PortStart rule = 1 \<and> PortEnd rule = 65535)"

definition ValidateRule :: "SecurityRule \<Rightarrow> sr_error option" where
  "ValidateRule rule =
     (if Direction rule \<notin> {''in'', ''out''} then Some ErrInvalidDirection
      else if Action rule \<notin> {SecurityRuleAllow, SecurityRuleDeny} then Some ErrInvalidAction
      else if Protocol rule \<notin> {PROTO_ANY, PROTO_ICMP, PROTO_TCP, PROTO_UDP} then Some ErrInvalidProtocol
      else if Protocol rule = PROTO_ICMP \<and> (length (Ports rule) > 0 \<or> PortStart rule > 0 \<or> PortEnd rule > 0)
      then Some ErrInvalidProtocolICMP
      else if Protocol rule = PROTO_ANY \<and> (length (Ports rule) > 0 \<or> PortStart rule > 0 \<or> PortEnd rule > 0)
      then Some ErrInvalidProtocolAny
      else if list_ex (\<lambda>p. p < 1 \<or> p > 65535) (Ports rule) then Some ErrInvalidPort
      else if (PortStart rule > 0 \<or> PortEnd rule > 0) \<and>
        (PortStart rule < 1 \<or> PortStart rule > PortEnd rule \<or> PortStart rule > 65535 \<or> PortEnd rule > 65535)
      then Some ErrInvalidPortRange
      else if Priority rule < 1 \<or> Priority rule > 100 then Some ErrInvalidPriority
      else None)"

subsection \<open>Cutting one rule out of another\<close>

record securityRuleCut =
  cr :: SecurityRule
  protocolCut :: bool
  netCut :: bool
  portCut :: bool

definition isCut :: "securityRuleCut \<Rightarrow> bool" where
  "isCut src \<longleftrightarrow> protocolCut src \<and> netCut src \<and> portCut src"

definition new_cut :: "SecurityRule \<Rightarrow> securityRuleCut" where
  "new_cut r = \<lparr>cr = r, protocolCut = False, netCut = False, portCut = False\<rparr>"

definition newSecurityRuleSetCuts :: "SecurityRuleSet \<Rightarrow> securityRuleCut list" where
  "newSecurityRuleSetCuts srs = map new_cut srs"

definition securityRuleSet :: "securityRuleCut list \<Rightarrow> SecurityRuleSet" where
  "securityRuleSet srcs = map cr (filter (\<lambda>src. \<not> isCut src) srcs)"

definition cutOutProtocol :: "securityRuleCut list \<Rightarrow> string \<Rightarrow> securityRuleCut list" where
  "cutOutProtocol srcs protocol =
     concat (map (\<lambda>src.
       let sr = cr src in
       if Protocol sr = protocol then [src\<lparr>protocolCut := True\<rparr>]
       else if Protocol sr = PROTO_ANY then
         map (\<lambda>p. let src' = src\<lparr>cr := sr\<lparr>Protocol := p\<rparr>\<rparr> in
                  if p = protocol then src'\<lparr>protocolCut := True\<rparr> else src') protocolsSupported
       else if protocol = PROTO_ANY then [src\<lparr>protocolCut := True\<rparr>]
       else [src]) srcs)"

definition cut_net :: "securityRuleCut \<Rightarrow> IPV4AddrRange \<Rightarrow> securityRuleCut list option" where
  "cut_net src ar2 =
     do {
       ar \<leftarrow> NewIPV4AddrRangeFromIPNet (Net (cr src));
       let (left, subs) = Substract ar ar2;
       Some (map (\<lambda>n. src\<lparr>cr := (cr src)\<lparr>Net := n\<rparr>\<rparr>) (concat (map ToIPNets left)) @
         (case subs of
            None \<Rightarrow> []
          | Some sub \<Rightarrow> map (\<lambda>n. src\<lparr>cr := (cr src)\<lparr>Net := n\<rparr>, netCut := True\<rparr>) (ToIPNets sub)))
     }"

fun cut_nets :: "securityRuleCut list \<Rightarrow> IPV4AddrRange \<Rightarrow> securityRuleCut list option" where
  "cut_nets [] ar2 = Some []"
| "cut_nets (src # srcs) ar2 = do { r \<leftarrow> cut_net src ar2; rs \<leftarrow> cut_nets srcs ar2; Some (r @ rs) }"

definition cutOutIPNet :: "securityRuleCut list \<Rightarrow> IPNet \<Rightarrow> securityRuleCut list option" where
  "cutOutIPNet srcs n = do { ar2 \<leftarrow> NewIPV4AddrRangeFromIPNet n; cut_nets srcs ar2 }"

definition set_range :: "securityRuleCut \<Rightarrow> int \<Rightarrow> int \<Rightarrow> securityRuleCut" where
  "set_range src s e = src\<lparr>cr := (cr src)\<lparr>PortStart := s, PortEnd := e\<rparr>\<rparr>"

definition cut_port_range :: "portRange \<Rightarrow> securityRuleCut \<Rightarrow> securityRuleCut list" where
  "cut_port_range pr1 src =
     (let sr = cr src in
      if length (Ports sr) > 0 then
        let (left, sub) = ports_substractPortRange (newPortsFromInts (Ports sr)) pr1 in
        (if length left > 0 then [src\<lparr>cr := sr\<lparr>Ports := IntSlice left\<rparr>\<rparr>] else []) @
        (if length sub > 0 then [src\<lparr>cr := sr\<lparr>Ports := IntSlice left\<rparr>, portCut := True\<rparr>] else [])
      else if PortStart sr > 0 \<and> PortEnd sr > 0 then
        let pr = \<lparr>pr_start = word_of_int (PortStart sr), pr_end = word_of_int (PortEnd sr)\<rparr>;
            (left, sub) = substractPortRange pr pr1 in
        map (\<lambda>l. set_range src (uint (pr_start l)) (uint (pr_end l))) left @
        (case sub of
           None \<Rightarrow> []
         | Some s \<Rightarrow> if pr_count s > 0 then [(set_range src (uint (pr_start s)) (uint (pr_end s)))\<lparr>portCut := True\<rparr>] else [])
      else
        map (\<lambda>(a, b). set_range src a b)
          (filter (\<lambda>(a, b). a \<le> b) [(1, uint (pr_start pr1) - 1), (uint (pr_end pr1) + 1, 65535)]) @
        [(set_range src (uint (pr_start pr1)) (uint (pr_end pr1)))\<lparr>portCut := True\<rparr>])"

definition cutOutPortRange :: "securityRuleCut list \<Rightarrow> 16 word \<Rightarrow> 16 word \<Rightarrow> securityRuleCut list" where
  "cutOutPortRange srcs portStart portEnd =
     concat (map (cut_port_range \<lparr>pr_start = portStart, pr_end = portEnd\<rparr>) srcs)"

fun gap_loop :: "securityRuleCut \<Rightarrow> ports \<Rightarrow> 16 word \<Rightarrow> securityRuleCut list \<Rightarrow> 16 word \<times> securityRuleCut list" where
  "gap_loop src [] s r = (s, r)"
| "gap_loop src (p # ps) s r =
     (if s \<le> p - 1 then gap_loop src ps (p + 1) (r @ [set_range src (uint s) (uint (p - 1))])
      else gap_loop src ps s r)"

definition cut_ports :: "ports \<Rightarrow> securityRuleCut \<Rightarrow> securityRuleCut list" where
  "cut_ports ps1 src =
     (let sr = cr src in
      if length (Ports sr) > 0 then
        let (left, sub) = ports_substractPorts (newPortsFromInts (Ports sr)) ps1 in
        (if length left > 0 then [src\<lparr>cr := sr\<lparr>Ports := IntSlice left\<rparr>\<rparr>] else []) @
        (if length sub > 0 then [src\<lparr>cr := sr\<lparr>Ports := IntSlice sub\<rparr>, portCut := True\<rparr>] else [])
      else if PortStart sr > 0 \<and> PortEnd sr > 0 then
        let pr = \<lparr>pr_start = word_of_int (PortStart sr), pr_end = word_of_int (PortEnd sr)\<rparr>;
            (left, sub) = substractPorts pr ps1 in
        map (\<lambda>l. set_range src (uint (pr_start l)) (uint (pr_end l))) left @
        (if length sub > 0
         then [src\<lparr>cr := sr\<lparr>Ports := IntSlice sub, PortStart := 0, PortEnd := 0\<rparr>, portCut := True\<rparr>] else [])
      else
        let (s, r) = gap_loop src (sort ps1) 1 [] in
        r @ (if s \<noteq> 0 then [set_range src (uint s) 65535] else []) @
        [src\<lparr>cr := sr\<lparr>Ports := IntSlice (sort ps1)\<rparr>, portCut := True\<rparr>])"

definition cutOutPorts :: "securityRuleCut list \<Rightarrow> ports \<Rightarrow> securityRuleCut list" where
  "cutOutPorts srcs ps1 = concat (map (cut_ports ps1) srcs)"

definition cutOutPortsAll :: "securityRuleCut list \<Rightarrow> securityRuleCut list" where
  "cutOutPortsAll srcs = map (\<lambda>src. src\<lparr>portCut := True\<rparr>) srcs"

definition cutOut :: "SecurityRule \<Rightarrow> SecurityRule \<Rightarrow> SecurityRuleSet option" where
  "cutOut rule r =
     do {
       let srcs = [new_cut rule];
       let srcs = cutOutProtocol srcs (Protocol r);
       srcs \<leftarrow> cutOutIPNet srcs (Net r);
       let srcs = (if length (Ports r) > 0 then cutOutPorts srcs (newPortsFromInts (Ports r))
                   else if PortStart r > 0 \<and> PortEnd r > 0
                   then cutOutPortRange srcs (word_of_int (PortStart r)) (word_of_int (PortEnd r))
                   else cutOutPortsAll srcs);
       Some (securityRuleSet srcs)
     }"

section \<open>Lists of rules\<close>

definition set_Less :: "SecurityRule \<Rightarrow> SecurityRule \<Rightarrow> bool" where
  "set_Less a b =
     (if Priority a > Priority b then True
      else if Priority a = Priority b then rule_String a < rule_String b
      else False)"

definition set_String :: "SecurityRuleSet \<Rightarrow> string" where
  "set_String srs = concat (map (\<lambda>r. rule_String r @ '';'') srs)"

definition set_equals :: "SecurityRuleSet \<Rightarrow> SecurityRuleSet \<Rightarrow> bool" where
  "set_equals srs srs1 \<longleftrightarrow> length srs = length srs1 \<and> list_all (\<lambda>(a, b). rule_equals a b) (zip srs srs1)"

fun cut_rest :: "SecurityRule \<Rightarrow> SecurityRuleSet \<Rightarrow> SecurityRuleSet option" where
  "cut_rest sr [] = Some []"
| "cut_rest sr (sr' # srs') =
     (if Action sr = Action sr' then do { r \<leftarrow> cut_rest sr srs'; Some (sr' # r) }
      else do { cut \<leftarrow> cutOut sr' sr; r \<leftarrow> cut_rest sr srs'; Some (cut @ r) })"

definition cutOutFirst :: "SecurityRuleSet \<Rightarrow> SecurityRuleSet option" where
  "cutOutFirst srs = (case srs of [] \<Rightarrow> Some [] | sr # srs' \<Rightarrow> cut_rest sr srs')"

text \<open>The order of two rules in \<^verbatim>\<open>collapse\<close>.\<close>

definition has_range :: "SecurityRule \<Rightarrow> bool" where
  "has_range r \<longleftrightarrow> PortStart r > 0 \<and> PortEnd r > 0"

fun ports_less :: "int list \<Rightarrow> int list \<Rightarrow> bool" where
  "ports_less (a # as) (b # bs) = (if a \<noteq> b then a < b else ports_less as bs)"
| "ports_less as bs = (length as < length bs)"

definition collapse_less :: "SecurityRule \<Rightarrow> SecurityRule \<Rightarrow> bool" where
  "collapse_less sr0 sr1 =
     (if Protocol sr0 \<noteq> Protocol sr1 then Protocol sr0 < Protocol sr1
      else if IPNet_String (Net sr0) \<noteq> IPNet_String (Net sr1) then IPNet_String (Net sr0) < IPNet_String (Net sr1)
      else if has_range sr0 then (if has_range sr1 then PortStart sr0 < PortStart sr1 else True)
      else if length (Ports sr0) > 0 \<and> has_range sr1 then False
      else if length (Ports sr0) > 0 \<and> length (Ports sr1) > 0 then ports_less (Ports sr0) (Ports sr1)
      else Priority sr0 < Priority sr1)"

text \<open>The two rules at \<open>i - 1\<close> and \<open>i\<close> as one, when they are merged.\<close>

definition merge_ports :: "SecurityRule \<Rightarrow> SecurityRule \<Rightarrow> SecurityRule option" where
  "merge_ports sr0 sr1 =
     (if Protocol sr0 \<noteq> Protocol sr1 then None
      else if \<not> netEquals sr0 sr1 then None
      else if length (Ports sr0) > 0 \<and> length (Ports sr1) > 0 then
        Some (sr0\<lparr>Ports := IntSlice (dedup (newPortsFromInts (Ports sr0) @ newPortsFromInts (Ports sr1)))\<rparr>)
      else if PortStart sr0 > 0 \<and> PortStart sr1 > 0 \<and> PortEnd sr0 > 0 \<and> PortEnd sr1 > 0 then
        if PortEnd sr0 = PortStart sr1 - 1 then Some (sr0\<lparr>PortEnd := PortEnd sr1\<rparr>)
        else if PortStart sr0 - 1 = PortEnd sr1 then Some (sr0\<lparr>PortStart := PortStart sr1\<rparr>)
        else if PortStart sr0 = PortStart sr1 \<and> PortEnd sr0 = PortEnd sr1 then Some sr0
        else None
      else None)"

fun merge_loop :: "nat \<Rightarrow> SecurityRuleSet \<Rightarrow> SecurityRuleSet" where
  "merge_loop 0 srs1 = srs1"
| "merge_loop (Suc i) srs1 =
     merge_loop i
       (case merge_ports (srs1 ! i) (srs1 ! Suc i) of
          None \<Rightarrow> srs1
        | Some sr \<Rightarrow> take i srs1 @ sr # drop (Suc i + 1) srs1)"

definition collapse :: "((SecurityRule \<Rightarrow> SecurityRule \<Rightarrow> bool) \<Rightarrow> SecurityRuleSet \<Rightarrow> SecurityRuleSet) \<Rightarrow>
    SecurityRuleSet \<Rightarrow> SecurityRuleSet" where
  "collapse srt srs =
     (let srs1 = map (\<lambda>sr. if length (Ports sr) > 0 then sr\<lparr>Ports := sort (Ports sr)\<rparr> else sr) srs;
          srs1 = srt collapse_less srs1 in
      merge_loop (length srs1 - 1) srs1)"

text \<open>The loop of \<^verbatim>\<open>AllowList\<close>; the inner \<^term>\<open>None\<close> is a panic.\<close>

partial_function (option) allow_list_loop :: "SecurityRuleSet \<Rightarrow> SecurityRuleSet \<Rightarrow> SecurityRuleSet option option" where
  "allow_list_loop r wq =
     (case wq of
        [] \<Rightarrow> Some (Some r)
      | sr # wq' \<Rightarrow>
          if Action sr = SecurityRuleAllow then allow_list_loop (r @ [sr]) wq'
          else (case cutOutFirst wq of None \<Rightarrow> Some None | Some wq'' \<Rightarrow> allow_list_loop r wq''))"

definition AllowList :: "((SecurityRule \<Rightarrow> SecurityRule \<Rightarrow> bool) \<Rightarrow> SecurityRuleSet \<Rightarrow> SecurityRuleSet) \<Rightarrow>
    SecurityRuleSet \<Rightarrow> SecurityRuleSet option option" where
  "AllowList srt srs = map_option (map_option (collapse srt)) (allow_list_loop [] srs)"

definition SecurityRuleSetToAllowSet :: "((SecurityRule \<Rightarrow> SecurityRule \<Rightarrow> bool) \<Rightarrow> SecurityRuleSet \<Rightarrow> SecurityRuleSet) \<Rightarrow>
    SecurityRuleSet \<Rightarrow> SecurityRuleSet option option" where
  "SecurityRuleSetToAllowSet srt srs =
     (let inRuleSet = filter (\<lambda>rule. Direction rule = SecurityRuleIngress) srs;
          outRuleSet = filter (\<lambda>rule. Direction rule = SecurityRuleEgress) srs in
      case AllowList srt (srt set_Less inRuleSet) of
        None \<Rightarrow> None
      | Some None \<Rightarrow> Some None
      | Some (Some ins) \<Rightarrow> map_option (map_option (\<lambda>outs. ins @ outs)) (AllowList srt (srt set_Less outRuleSet)))"

section \<open>What rules match\<close>

text \<open>
  A packet has one of the three protocols, an address and, unless it is ICMP, a port from 1
  to 65535. Ports of a rule restrict TCP and UDP packets only.
\<close>

record packet =
  pproto :: string
  paddr :: "32 word"
  pport :: int

definition packet_ok :: "packet \<Rightarrow> bool" where
  "packet_ok p \<longleftrightarrow> pproto p \<in> set protocolsSupported \<and> 1 \<le> pport p \<and> pport p \<le> 65535"

definition proto_match :: "SecurityRule \<Rightarrow> packet \<Rightarrow> bool" where
  "proto_match r p \<longleftrightarrow> Protocol r = PROTO_ANY \<or> Protocol r = pproto p"

definition port_match :: "SecurityRule \<Rightarrow> packet \<Rightarrow> bool" where
  "port_match r p \<longleftrightarrow> pproto p = PROTO_ICMP \<or>
     (if Ports r \<noteq> [] then pport p \<in> set (Ports r)
      else has_range r \<longrightarrow> PortStart r \<le> pport p \<and> pport p \<le> PortEnd r)"

definition matches :: "SecurityRule \<Rightarrow> packet \<Rightarrow> bool" where
  "matches r p \<longleftrightarrow> proto_match r p \<and> net_contains (Net r) (paddr p) \<and> port_match r p"

text \<open>The decision of an ordered list of rules: the first rule that matches.\<close>

definition allowed :: "SecurityRuleSet \<Rightarrow> packet \<Rightarrow> bool" where
  "allowed srs p \<longleftrightarrow> (case find (\<lambda>r. matches r p) srs of Some r \<Rightarrow> Action r = SecurityRuleAllow | None \<Rightarrow> False)"

definition port_cond_ok :: "SecurityRule \<Rightarrow> bool" where
  "port_cond_ok r \<longleftrightarrow> (\<forall>p \<in> set (Ports r). 1 \<le> p \<and> p \<le> 65535) \<and>
     (has_range r \<longrightarrow> 1 \<le> PortStart r \<and> PortStart r \<le> PortEnd r \<and> PortEnd r \<le> 65535 \<and> Ports r = [])"

text \<open>Rules as users write them, and the pieces into which they are cut.\<close>

definition rule_ok :: "SecurityRule \<Rightarrow> bool" where
  "rule_ok r \<longleftrightarrow> ValidateRule r = None \<and> v4net (Net r) \<and> (has_range r \<longrightarrow> Ports r = [])"

definition piece_ok :: "SecurityRule \<Rightarrow> bool" where
  "piece_ok r \<longleftrightarrow> v4net (Net r) \<and> Protocol r \<in> {PROTO_ANY, PROTO_ICMP, PROTO_TCP, PROTO_UDP} \<and> port_cond_ok r"

text \<open>A denied part without a port list, and with no ports at all when the rule to cut lists ports.\<close>

definition ports_compatible :: "SecurityRule \<Rightarrow> SecurityRule \<Rightarrow> bool" where
  "ports_compatible d a \<longleftrightarrow> Ports d = [] \<and> (Ports a = [] \<or> \<not> has_range d)"

lemmas proto_defs = PROTO_ANY_def PROTO_ICMP_def PROTO_TCP_def PROTO_UDP_def

lemma if_Some_None: "(if c then Some x else t) = None \<longleftrightarrow> \<not> c \<and> t = None"
  by simp

lemma rule_ok_piece:
  assumes "rule_ok r"
  shows "piece_ok r"
proof -
  have v: "ValidateRule r = None" using assms by (simp add: rule_ok_def)
  then have "Protocol r \<in> {PROTO_ANY, PROTO_ICMP, PROTO_TCP, PROTO_UDP}"
    "\<not> list_ex (\<lambda>p. p < 1 \<or> p > 65535) (Ports r)"
    "\<not> ((PortStart r > 0 \<or> PortEnd r > 0) \<and>
        (PortStart r < 1 \<or> PortStart r > PortEnd r \<or> PortStart r > 65535 \<or> PortEnd r > 65535))"
    unfolding ValidateRule_def if_Some_None by blast+
  then show ?thesis using assms unfolding rule_ok_def piece_ok_def port_cond_ok_def has_range_def list_ex_iff
    by (simp add: not_less not_le) auto
qed

lemma rule_ok_ports:
  assumes "rule_ok r" and "has_range r \<or> Ports r \<noteq> []"
  shows "Protocol r = PROTO_TCP \<or> Protocol r = PROTO_UDP"
proof -
  have "ValidateRule r = None" using assms by (simp add: rule_ok_def)
  then have "Protocol r \<in> {PROTO_ANY, PROTO_ICMP, PROTO_TCP, PROTO_UDP}"
    "\<not> (Protocol r = PROTO_ICMP \<and> (length (Ports r) > 0 \<or> PortStart r > 0 \<or> PortEnd r > 0))"
    "\<not> (Protocol r = PROTO_ANY \<and> (length (Ports r) > 0 \<or> PortStart r > 0 \<or> PortEnd r > 0))"
    unfolding ValidateRule_def if_Some_None by blast+
  then show ?thesis using assms(2) by (auto simp: has_range_def)
qed

section \<open>Cutting is exact\<close>

text \<open>
  The pieces that match a packet belong to the rule that was cut, and at least one piece
  matches when the rule does. The flags of a matching piece say in which respects the
  denied rule matches the packet.
\<close>

definition cut_state :: "SecurityRule \<Rightarrow> packet \<Rightarrow> securityRuleCut list \<Rightarrow> (securityRuleCut \<Rightarrow> bool) \<Rightarrow> bool" where
  "cut_state a p srcs Q \<longleftrightarrow>
     (\<forall>c \<in> set srcs. matches (cr c) p \<longrightarrow> matches a p \<and> Q c) \<and>
     (matches a p \<longrightarrow> (\<exists>c \<in> set srcs. matches (cr c) p)) \<and>
     (\<forall>c \<in> set srcs. piece_ok (cr c) \<and> Action (cr c) = Action a \<and> Direction (cr c) = Direction a \<and> Ports (cr c) = Ports a)"

text \<open>An operation that works rule by rule keeps the state when it does so on each rule.\<close>

lemma cut_state_concat:
  assumes "cut_state a p srcs Q"
    and "\<And>c. c \<in> set srcs \<Longrightarrow> cut_state (cr c) p (f c) (\<lambda>c'. Q c \<longrightarrow> Q' c')"
  shows "cut_state a p (concat (map f srcs)) Q'"
proof -
  note s = assms(1) [unfolded cut_state_def]
  note f = assms(2) [unfolded cut_state_def]
  have "matches a p \<and> Q' c'" if "c' \<in> set (f c)" "c \<in> set srcs" "matches (cr c') p" for c c'
    using s f [OF that(2)] that by blast
  moreover have "\<exists>c' \<in> set (concat (map f srcs)). matches (cr c') p" if m: "matches a p"
  proof -
    obtain c where c: "c \<in> set srcs" "matches (cr c) p" using s m by blast
    then obtain c' where "c' \<in> set (f c)" "matches (cr c') p" using f by blast
    then show ?thesis using c by auto
  qed
  moreover have "piece_ok (cr c') \<and> Action (cr c') = Action a \<and> Direction (cr c') = Direction a \<and> Ports (cr c') = Ports a"
    if "c' \<in> set (f c)" "c \<in> set srcs" for c c' using s f [OF that(2)] that by metis
  ultimately show ?thesis unfolding cut_state_def by auto
qed

lemma cut_protocol_state:
  assumes "piece_ok r" and "packet_ok p" and "Protocol d \<in> {PROTO_ANY, PROTO_ICMP, PROTO_TCP, PROTO_UDP}"
  shows "cut_state r p (cutOutProtocol [new_cut r] (Protocol d)) (\<lambda>c. (protocolCut c \<longleftrightarrow> proto_match d p) \<and> \<not> netCut c \<and> \<not> portCut c)"
proof -
  have m: "matches (r\<lparr>Protocol := q\<rparr>) p \<longleftrightarrow> (q = PROTO_ANY \<or> q = pproto p) \<and> net_contains (Net r) (paddr p) \<and> port_match r p" for q
    by (simp add: matches_def proto_match_def port_match_def has_range_def)
  have k: "piece_ok (r\<lparr>Protocol := q\<rparr>)" if "Protocol r = PROTO_ANY" "q \<in> set protocolsSupported" for q
    using assms(1) that by (auto simp: piece_ok_def port_cond_ok_def has_range_def protocolsSupported_def)
  have p: "pproto p \<in> set protocolsSupported" "PROTO_ANY \<notin> set protocolsSupported"
    using assms(2) by (auto simp: packet_ok_def protocolsSupported_def proto_defs)
  consider (same) "Protocol r = Protocol d" | (any) "Protocol r = PROTO_ANY" "Protocol d \<noteq> PROTO_ANY"
    | (all) "Protocol d = PROTO_ANY" "Protocol r \<noteq> PROTO_ANY" | (other) "Protocol r \<noteq> Protocol d" "Protocol r \<noteq> PROTO_ANY" "Protocol d \<noteq> PROTO_ANY"
    by metis
  then show ?thesis
  proof cases
    case any
    let ?c = "\<lambda>q. \<lparr>cr = r\<lparr>Protocol := q\<rparr>, protocolCut = (q = Protocol d), netCut = False, portCut = False\<rparr>"
    have "cutOutProtocol [new_cut r] (Protocol d) = map ?c protocolsSupported"
      using any by (auto simp: cutOutProtocol_def new_cut_def Let_def)
    moreover have "matches r p \<longleftrightarrow> net_contains (Net r) (paddr p) \<and> port_match r p" using any by (simp add: matches_def proto_match_def)
    ultimately show ?thesis using p k any by (auto simp: cut_state_def m proto_match_def)
  qed (use assms(1) in \<open>auto simp: cut_state_def cutOutProtocol_def new_cut_def proto_match_def matches_def\<close>)
qed

lemma cut_net_state:
  assumes "v4net (Net (cr c))" "piece_ok (cr c)" and d: "v4net n" "NewIPV4AddrRangeFromIPNet n = Some ar2"
    and "cut_net c ar2 = Some cs"
  shows "cut_state (cr c) p cs (\<lambda>c'. protocolCut c' = protocolCut c \<and> (netCut c' \<longleftrightarrow> netCut c \<or> net_contains n (paddr p)) \<and> portCut c' = portCut c)"
proof -
  let ?r = "cr c"
  obtain ar where ar: "NewIPV4AddrRangeFromIPNet (Net ?r) = Some ar" using range_of_net [OF assms(1)] by blast
  obtain left subs where S: "Substract ar ar2 = (left, subs)" by fastforce
  note ra = net_range_contains [OF assms(1) ar] and rd = net_range_contains [OF d]
  note sc = Substract_contains [OF ra(2) rd(2) S, unfolded ra(1) rd(1)]
  note sv = Substract_valid [OF ra(2) rd(2) S]
  define L where "L = concat (map ToIPNets left)"
  define U where "U = (case subs of None \<Rightarrow> [] | Some sub \<Rightarrow> ToIPNets sub)"
  have cs: "cs = map (\<lambda>n. c\<lparr>cr := ?r\<lparr>Net := n\<rparr>\<rparr>) L @ map (\<lambda>n. c\<lparr>cr := ?r\<lparr>Net := n\<rparr>, netCut := True\<rparr>) U"
    using assms(5) ar S by (auto simp: cut_net_def L_def U_def split: option.splits)
  have L: "(\<exists>n \<in> set L. net_contains n x) \<longleftrightarrow> net_contains (Net ?r) x \<and> \<not> net_contains n x" for x
    using sc(1) [of x] ToIPNets_contains [OF sv(1)] unfolding L_def by auto
  have U: "(\<exists>n \<in> set U. net_contains n x) \<longleftrightarrow> net_contains (Net ?r) x \<and> net_contains n x" for x
    using sc(2) [of x] sv(2) ToIPNets_contains unfolding U_def by (cases subs) auto
  have v: "\<forall>n \<in> set L \<union> set U. v4net n" unfolding L_def U_def by (auto intro: ToIPNets_v4 split: option.splits)
  have m: "matches (?r\<lparr>Net := n'\<rparr>) p \<longleftrightarrow> proto_match ?r p \<and> net_contains n' (paddr p) \<and> port_match ?r p" for n'
    by (simp add: matches_def proto_match_def port_match_def has_range_def)
  have k: "piece_ok (?r\<lparr>Net := n'\<rparr>)" if "v4net n'" for n'
    using assms(2) that by (simp add: piece_ok_def port_cond_ok_def has_range_def)
  show ?thesis
    unfolding cut_state_def cs using L [of "paddr p"] U [of "paddr p"] v k
    by (simp add: m ball_Un bex_Un) (auto simp: matches_def)
qed
subsection \<open>Port ranges\<close>

definition pr_valid :: "portRange \<Rightarrow> bool" where
  "pr_valid pr \<longleftrightarrow> 1 \<le> uint (pr_start pr) \<and> uint (pr_start pr) \<le> uint (pr_end pr)"

lemma pr_contains_uint: "pr_contains pr x \<longleftrightarrow> uint (pr_start pr) \<le> uint x \<and> uint x \<le> uint (pr_end pr)"
  by (simp add: pr_contains_def word_le_def)

lemma uint16_of_int: "0 \<le> a \<Longrightarrow> a \<le> 65535 \<Longrightarrow> uint (word_of_int a :: 16 word) = a"
  by (simp add: uint_word_of_int)

lemma uint16_bound: "uint (w :: 16 word) \<le> 65535"
  using uint_lt2p [of w] by simp

lemma uint16_minus1: "1 \<le> uint w \<Longrightarrow> uint (w - 1 :: 16 word) = uint w - 1"
  using uint_lt2p [of w] by (simp add: uint_word_ariths(2))

lemma uint16_plus1: "uint w < 65535 \<Longrightarrow> uint (w + 1 :: 16 word) = uint w + 1"
  using uint_ge_0 [of w] by (simp add: uint_word_ariths(1))

lemma substractPortRange_parts:
  assumes "pr_valid pr" and "pr_valid pr1" and "substractPortRange pr pr1 = (left, sub)"
  shows "(\<exists>l \<in> set left. uint (pr_start l) \<le> x \<and> x \<le> uint (pr_end l)) \<longleftrightarrow>
      (uint (pr_start pr) \<le> x \<and> x \<le> uint (pr_end pr)) \<and> \<not> (uint (pr_start pr1) \<le> x \<and> x \<le> uint (pr_end pr1))" (is ?L)
    and "(\<exists>s. sub = Some s \<and> uint (pr_start s) \<le> x \<and> x \<le> uint (pr_end s)) \<longleftrightarrow>
      (uint (pr_start pr) \<le> x \<and> x \<le> uint (pr_end pr)) \<and> (uint (pr_start pr1) \<le> x \<and> x \<le> uint (pr_end pr1))" (is ?S)
    and "l \<in> set left \<Longrightarrow> pr_valid l" and "sub = Some s \<Longrightarrow> pr_valid s"
proof -
  define s e s1 e1 where d: "s = uint (pr_start pr)" "e = uint (pr_end pr)" "s1 = uint (pr_start pr1)" "e1 = uint (pr_end pr1)"
  have b: "1 \<le> s" "s \<le> e" "e \<le> 65535" "1 \<le> s1" "s1 \<le> e1" "e1 \<le> 65535"
    using assms(1,2) uint16_bound by (auto simp: pr_valid_def d)
  have m: "uint (pr_start pr1 - 1) = s1 - 1" using b by (simp add: d uint16_minus1)
  have q: "e1 < 65535 \<Longrightarrow> uint (pr_end pr1 + 1) = e1 + 1" by (simp add: d uint16_plus1)
  note S = assms(3) [unfolded substractPortRange_def containsRange_def word_le_def word_less_def, folded d, symmetric]
  have u: "0 \<le> a \<Longrightarrow> a \<le> 65535 \<Longrightarrow> uint (word_of_int a :: 16 word) = a" for a by (rule uint16_of_int)
  have u1: "1 \<le> a \<Longrightarrow> a \<le> 65535 \<Longrightarrow> uint (word_of_int a - 1 :: 16 word) = a - 1" for a using u [of "a - 1"] by simp
  have u2: "0 \<le> a \<Longrightarrow> a < 65535 \<Longrightarrow> uint (word_of_int a + 1 :: 16 word) = a + 1" for a using u [of "a + 1"] by simp
  have "(?L \<and> ?S) \<and> (\<forall>l \<in> set left. pr_valid l) \<and> (\<forall>s. sub = Some s \<longrightarrow> pr_valid s)"
  proof -
    consider (no) "e < s1 \<or> s > e1" | (outer) "s \<le> s1" "e1 \<le> e" | (inner) "\<not> (s \<le> s1 \<and> e1 \<le> e)" "s1 \<le> s" "e \<le> e1" "s \<le> e1" "s1 \<le> e"
      | (left) "s < s1" "s1 \<le> e" "e < e1" | (right) "s1 < s" "s \<le> e1" "e1 < e" by linarith
    then show ?thesis
    proof cases
      case no
      then show ?thesis using S b assms(1) by (auto simp: d [symmetric])
    next
      case outer
      then show ?thesis using S b assms(2)
        by (cases "s \<le> s1 - 1"; cases "e1 + 1 \<le> e") (auto simp: d [symmetric] u u1 u2 pr_valid_def)
    next
      case inner
      then show ?thesis using S b assms(1) by (auto simp: d [symmetric])
    next
      case left
      then show ?thesis using S b m by (auto simp: d [symmetric] pr_valid_def)
    next
      case right
      then show ?thesis using S b q by (auto simp: d [symmetric] pr_valid_def)
    qed
  qed
  then show ?L ?S "l \<in> set left \<Longrightarrow> pr_valid l" "sub = Some s' \<Longrightarrow> pr_valid s'" for s' by blast+
qed

subsection \<open>Cutting ports\<close>

lemma set_range_simps [simp]:
  "protocolCut (set_range c s e) = protocolCut c" "netCut (set_range c s e) = netCut c" "portCut (set_range c s e) = portCut c"
  "Action (cr (set_range c s e)) = Action (cr c)" "Direction (cr (set_range c s e)) = Direction (cr c)"
  "Ports (cr (set_range c s e)) = Ports (cr c)" "Net (cr (set_range c s e)) = Net (cr c)"
  by (simp_all add: set_range_def)

abbreviation in_ports :: "packet \<Rightarrow> int \<Rightarrow> int \<Rightarrow> bool" where
  "in_ports p s e \<equiv> s \<le> pport p \<and> pport p \<le> e"

lemma set_range_matches:
  assumes "Ports (cr c) = []" and "1 \<le> s" "s \<le> e"
  shows "matches (cr (set_range c s e)) p \<longleftrightarrow>
    proto_match (cr c) p \<and> net_contains (Net (cr c)) (paddr p) \<and> (pproto p = PROTO_ICMP \<or> in_ports p s e)"
  using assms by (auto simp: set_range_def matches_def proto_match_def port_match_def has_range_def)

lemma set_range_ok:
  assumes "piece_ok (cr c)" and "Ports (cr c) = []" and "1 \<le> s" "s \<le> e" "e \<le> 65535"
  shows "piece_ok (cr (set_range c s e))"
  using assms by (auto simp: set_range_def piece_ok_def port_cond_ok_def has_range_def)

definition range_flags :: "packet \<Rightarrow> portRange \<Rightarrow> securityRuleCut \<Rightarrow> securityRuleCut \<Rightarrow> bool" where
  "range_flags p pr1 c c' \<longleftrightarrow> protocolCut c' = protocolCut c \<and> netCut c' = netCut c \<and>
     (pproto p \<noteq> PROTO_ICMP \<longrightarrow> (portCut c' \<longleftrightarrow> portCut c \<or> in_ports p (uint (pr_start pr1)) (uint (pr_end pr1))))"

lemma cut_port_range_none:
  assumes "piece_ok (cr c)" and "Ports (cr c) = []" and "\<not> has_range (cr c)" and "pr_valid pr1" and "packet_ok p"
  shows "cut_state (cr c) p (cut_port_range pr1 c) (range_flags p pr1 c)"
proof -
  define s1 e1 where d: "s1 = uint (pr_start pr1)" "e1 = uint (pr_end pr1)"
  have b1: "1 \<le> s1" "s1 \<le> e1" "e1 \<le> 65535" using assms(4) uint16_bound by (auto simp: d pr_valid_def)
  have r: "matches (cr c) p \<longleftrightarrow> proto_match (cr c) p \<and> net_contains (Net (cr c)) (paddr p)"
    using assms(2,3) by (simp add: matches_def port_match_def)
  have p: "1 \<le> pport p" "pport p \<le> 65535" using assms(5) by (simp_all add: packet_ok_def)
  have "cut_port_range pr1 c = map (\<lambda>(a, b). set_range c a b) (filter (\<lambda>(a, b). a \<le> b) [(1, s1 - 1), (e1 + 1, 65535)]) @
      [(set_range c s1 e1)\<lparr>portCut := True\<rparr>]"
    using assms(2,3) by (auto simp: cut_port_range_def has_range_def d Let_def)
  then show ?thesis
    using b1 p assms(1,2)
    by (cases "1 \<le> s1 - 1"; cases "e1 + 1 \<le> 65535")
      (auto simp: cut_state_def range_flags_def set_range_matches set_range_ok r d [symmetric])
qed

lemma pr_valid_count: "pr_valid s \<Longrightarrow> pr_count s > 0"
proof -
  assume "pr_valid s"
  then have "uint (pr_end s) + 1 - uint (pr_start s) \<noteq> 0" "uint (pr_end s) + 1 - uint (pr_start s) < 65536"
    "0 \<le> uint (pr_end s) + 1 - uint (pr_start s)"
    using uint16_bound [of "pr_end s"] by (auto simp: pr_valid_def)
  moreover have "pr_count s = word_of_int (uint (pr_end s) + 1 - uint (pr_start s))" by (simp add: pr_count_def)
  ultimately have "uint (pr_count s) \<noteq> 0" by (simp only: uint_word_of_int) simp
  then show "pr_count s > 0" by (metis unsigned_0 word_gt_0)
qed

lemma cut_port_range_some:
  assumes "piece_ok (cr c)" and "Ports (cr c) = []" and "has_range (cr c)" and "pr_valid pr1"
  shows "cut_state (cr c) p (cut_port_range pr1 c) (range_flags p pr1 c)"
proof -
  let ?r = "cr c" and ?set = "\<lambda>l. set_range c (uint (pr_start l)) (uint (pr_end l))"
  let ?pr = "\<lparr>pr_start = word_of_int (PortStart ?r), pr_end = word_of_int (PortEnd ?r)\<rparr> :: portRange"
  have o: "1 \<le> PortStart ?r" "PortStart ?r \<le> PortEnd ?r" "PortEnd ?r \<le> 65535"
    using assms(1,3) by (auto simp: piece_ok_def port_cond_ok_def)
  then have u: "uint (pr_start ?pr) = PortStart ?r" "uint (pr_end ?pr) = PortEnd ?r" by (simp_all add: uint16_of_int)
  then have v: "pr_valid ?pr" using o by (simp only: pr_valid_def)
  obtain left sub where S: "substractPortRange ?pr pr1 = (left, sub)" by fastforce
  note parts = substractPortRange_parts [OF v assms(4) S, unfolded u]
  define subs where "subs = (case sub of None \<Rightarrow> [] | Some s \<Rightarrow> [s])"
  have e: "cut_port_range pr1 c = map ?set left @ map (\<lambda>s. (?set s)\<lparr>portCut := True\<rparr>) subs"
    using assms(2,3) S pr_valid_count [OF parts(4)]
    by (auto simp: cut_port_range_def has_range_def Let_def subs_def split: option.splits)
  have r: "matches ?r p \<longleftrightarrow> proto_match ?r p \<and> net_contains (Net ?r) (paddr p) \<and> (pproto p = PROTO_ICMP \<or> in_ports p (PortStart ?r) (PortEnd ?r))"
    using assms(2,3) by (auto simp: matches_def port_match_def)
  have ne: "left \<noteq> [] \<or> subs \<noteq> []"
    using parts(1,2) [of "PortStart ?r"] o by (auto simp: subs_def)
  have vm: "matches (cr (?set l)) p \<longleftrightarrow>
      proto_match ?r p \<and> net_contains (Net ?r) (paddr p) \<and> (pproto p = PROTO_ICMP \<or> in_ports p (uint (pr_start l)) (uint (pr_end l)))"
    "piece_ok (cr (?set l))" if "pr_valid l" for l
    using that uint16_bound [of "pr_end l"] assms(1,2) by (auto simp: pr_valid_def set_range_matches intro!: set_range_ok)
  have v: "\<forall>l \<in> set left \<union> set subs. pr_valid l" using parts(3,4) by (auto simp: subs_def split: option.splits)
  have L: "(\<exists>l \<in> set left. in_ports p (uint (pr_start l)) (uint (pr_end l))) \<longleftrightarrow>
      in_ports p (PortStart ?r) (PortEnd ?r) \<and> \<not> in_ports p (uint (pr_start pr1)) (uint (pr_end pr1))" by (rule parts(1))
  have U: "(\<exists>l \<in> set subs. in_ports p (uint (pr_start l)) (uint (pr_end l))) \<longleftrightarrow>
      in_ports p (PortStart ?r) (PortEnd ?r) \<and> in_ports p (uint (pr_start pr1)) (uint (pr_end pr1))"
    using parts(2) [of "pport p"] by (cases sub) (auto simp: subs_def)
  have N: "\<exists>c' \<in> set (cut_port_range pr1 c). matches (cr c') p" if "matches ?r p"
  proof (cases "pproto p = PROTO_ICMP")
    case True
    then show ?thesis using ne v vm(1) that unfolding e r by (cases left; cases subs) auto
  next
    case False
    then show ?thesis using L U v vm(1) that unfolding e r by (simp add: bex_Un)
  qed
  show ?thesis
    unfolding cut_state_def using N L U v vm r unfolding e
    by (simp add: ball_Un range_flags_def) blast
qed

lemma cut_port_range_state:
  assumes "piece_ok (cr c)" and "Ports (cr c) = []" and "pr_valid pr1" and "packet_ok p"
  shows "cut_state (cr c) p (cut_port_range pr1 c) (range_flags p pr1 c)"
  using assms cut_port_range_none cut_port_range_some by blast
subsection \<open>Cutting a denied rule out\<close>

lemma cut_nets_concat:
  "\<forall>c \<in> set srcs. v4net (Net (cr c)) \<Longrightarrow> cut_nets srcs ar2 = Some (concat (map (\<lambda>c. the (cut_net c ar2)) srcs))"
proof (induction srcs)
  case (Cons c srcs)
  then have "\<exists>cs. cut_net c ar2 = Some cs" using range_of_net [of "Net (cr c)"] by (auto simp: cut_net_def split: prod.splits)
  then show ?case using Cons by auto
qed simp

lemma cut_net_Some:
  assumes "v4net (Net (cr c))"
  shows "cut_net c ar2 = Some (the (cut_net c ar2))"
  using range_of_net [OF assms] by (auto simp: cut_net_def split: prod.splits)

lemma cut_state_mono: "cut_state a p srcs Q \<Longrightarrow> (\<And>c. c \<in> set srcs \<Longrightarrow> Q c \<Longrightarrow> Q' c) \<Longrightarrow> cut_state a p srcs Q'"
  by (auto simp: cut_state_def)

definition dimensions :: "SecurityRule \<Rightarrow> packet \<Rightarrow> securityRuleCut \<Rightarrow> bool" where
  "dimensions d p c \<longleftrightarrow> (protocolCut c \<longleftrightarrow> proto_match d p) \<and> (netCut c \<longleftrightarrow> net_contains (Net d) (paddr p))"

lemma cut_two_dimensions:
  assumes "piece_ok a" and "rule_ok d" and "packet_ok p"
  shows "\<exists>srcs. cutOutIPNet (cutOutProtocol [new_cut a] (Protocol d)) (Net d) = Some srcs \<and>
     cut_state a p srcs (\<lambda>c. dimensions d p c \<and> \<not> portCut c)"
proof -
  let ?s = "cutOutProtocol [new_cut a] (Protocol d)"
  have d: "piece_ok d" "v4net (Net d)" using assms(2) rule_ok_piece by (auto simp: rule_ok_def)
  have s: "cut_state a p ?s (\<lambda>c. (protocolCut c \<longleftrightarrow> proto_match d p) \<and> \<not> netCut c \<and> \<not> portCut c)"
    using assms d by (intro cut_protocol_state) (simp_all add: piece_ok_def)
  obtain ar2 where ar2: "NewIPV4AddrRangeFromIPNet (Net d) = Some ar2" using range_of_net [OF d(2)] by blast
  have ok: "piece_ok (cr c)" "v4net (Net (cr c))" if "c \<in> set ?s" for c using s that by (auto simp: cut_state_def piece_ok_def)
  have "cut_state a p (concat (map (\<lambda>c. the (cut_net c ar2)) ?s)) (\<lambda>c. dimensions d p c \<and> \<not> portCut c)"
  proof (rule cut_state_concat [OF s])
    fix c assume c: "c \<in> set ?s"
    show "cut_state (cr c) p (the (cut_net c ar2))
        (\<lambda>c'. (protocolCut c \<longleftrightarrow> proto_match d p) \<and> \<not> netCut c \<and> \<not> portCut c \<longrightarrow> dimensions d p c' \<and> \<not> portCut c')"
      by (rule cut_state_mono [OF cut_net_state [OF ok(2) [OF c] ok(1) [OF c] d(2) ar2 cut_net_Some [OF ok(2) [OF c]]]])
        (auto simp: dimensions_def)
  qed
  then show ?thesis using cut_nets_concat [of ?s ar2] ok(2) ar2 by (auto simp: cutOutIPNet_def)
qed

lemma cut_three_dimensions:
  assumes "piece_ok a" and "rule_ok d" and "packet_ok p" and "ports_compatible d a"
  shows "\<exists>srcs. cutOut a d = Some (securityRuleSet srcs) \<and> cut_state a p srcs (\<lambda>c. isCut c \<longleftrightarrow> matches d p)"
proof -
  obtain srcs where S: "cutOutIPNet (cutOutProtocol [new_cut a] (Protocol d)) (Net d) = Some srcs"
    and s: "cut_state a p srcs (\<lambda>c. dimensions d p c \<and> \<not> portCut c)" using cut_two_dimensions [OF assms(1-3)] by blast
  have D: "Ports d = []" using assms(4) by (simp add: ports_compatible_def)
  show ?thesis
  proof (cases "has_range d")
    case False
    have "cut_state a p (concat (map (\<lambda>c. [c\<lparr>portCut := True\<rparr>]) srcs)) (\<lambda>c. isCut c \<longleftrightarrow> matches d p)"
      by (rule cut_state_concat [OF s])
        (use s False D in \<open>auto simp: cut_state_def dimensions_def isCut_def matches_def port_match_def\<close>)
    moreover have "cutOut a d = Some (securityRuleSet (cutOutPortsAll srcs))"
      using S D False by (auto simp: cutOut_def has_range_def)
    ultimately show ?thesis by (auto simp: cutOutPortsAll_def)
  next
    case True
    let ?pr = "\<lparr>pr_start = word_of_int (PortStart d), pr_end = word_of_int (PortEnd d)\<rparr> :: portRange"
    have a: "Ports a = []" using assms(4) True by (simp add: ports_compatible_def)
    have "piece_ok d" using assms(2) by (rule rule_ok_piece)
    then have o: "1 \<le> PortStart d" "PortStart d \<le> PortEnd d" "PortEnd d \<le> 65535" using True by (auto simp: piece_ok_def port_cond_ok_def)
    then have u: "uint (pr_start ?pr) = PortStart d" "uint (pr_end ?pr) = PortEnd d" by (simp_all add: uint16_of_int)
    then have v: "pr_valid ?pr" using o by (simp only: pr_valid_def)
    have tcp: "Protocol d = PROTO_TCP \<or> Protocol d = PROTO_UDP" using rule_ok_ports [OF assms(2)] True by simp
    have "cut_state a p (concat (map (cut_port_range ?pr) srcs)) (\<lambda>c. isCut c \<longleftrightarrow> matches d p)"
    proof (rule cut_state_concat [OF s])
      fix c assume "c \<in> set srcs"
      then have c: "piece_ok (cr c)" "Ports (cr c) = []" using s a by (auto simp: cut_state_def)
      show "cut_state (cr c) p (cut_port_range ?pr c) (\<lambda>c'. dimensions d p c \<and> \<not> portCut c \<longrightarrow> isCut c' \<longleftrightarrow> matches d p)"
        by (rule cut_state_mono [OF cut_port_range_state [OF c v assms(3)]])
          (use tcp True D o in \<open>auto simp: range_flags_def uint16_of_int dimensions_def isCut_def matches_def port_match_def proto_match_def proto_defs\<close>)
    qed
    moreover have "cutOut a d = Some (securityRuleSet (cutOutPortRange srcs (word_of_int (PortStart d)) (word_of_int (PortEnd d))))"
      using S D True by (simp add: cutOut_def has_range_def)
    ultimately show ?thesis by (auto simp: cutOutPortRange_def)
  qed
qed

text \<open>What is left of a rule matches the packets the rule matches and the denied rule does not.\<close>

lemma cutOut_exact:
  assumes "piece_ok a" and "rule_ok d" and "ports_compatible d a"
  shows "\<exists>ps. cutOut a d = Some ps \<and>
     (\<forall>q \<in> set ps. piece_ok q \<and> Action q = Action a \<and> Direction q = Direction a \<and> Ports q = Ports a) \<and>
     (\<forall>p. packet_ok p \<longrightarrow> ((\<exists>q \<in> set ps. matches q p) \<longleftrightarrow> matches a p \<and> \<not> matches d p))"
proof -
  define p0 where "p0 = \<lparr>pproto = PROTO_TCP, paddr = 0, pport = 1\<rparr>"
  have "packet_ok p0" by (simp add: p0_def packet_ok_def protocolsSupported_def)
  from cut_three_dimensions [OF assms(1,2) this assms(3)] obtain srcs where S: "cutOut a d = Some (securityRuleSet srcs)"
    and s: "\<forall>c \<in> set srcs. piece_ok (cr c) \<and> Action (cr c) = Action a \<and> Direction (cr c) = Direction a \<and> Ports (cr c) = Ports a"
    by (auto simp: cut_state_def)
  have "(\<exists>q \<in> set (securityRuleSet srcs). matches q p) \<longleftrightarrow> matches a p \<and> \<not> matches d p" if "packet_ok p" for p
  proof -
    from cut_three_dimensions [OF assms(1,2) that assms(3)] obtain srcs' where S': "cutOut a d = Some (securityRuleSet srcs')"
      and s': "cut_state a p srcs' (\<lambda>c. isCut c \<longleftrightarrow> matches d p)" by blast
    have e: "securityRuleSet srcs = securityRuleSet srcs'" using S S' by simp
    show ?thesis unfolding e using s' by (auto simp: securityRuleSet_def cut_state_def)
  qed
  moreover have "\<forall>q \<in> set (securityRuleSet srcs). piece_ok q \<and> Action q = Action a \<and> Direction q = Direction a \<and> Ports q = Ports a"
    using s by (auto simp: securityRuleSet_def)
  ultimately show ?thesis using S by blast
qed
section \<open>The loop over the rules\<close>

text \<open>A list with valid deny rules whose ports can be cut out of the allow rules and their pieces.\<close>

definition queue_ok :: "SecurityRuleSet \<Rightarrow> bool" where
  "queue_ok wq \<longleftrightarrow>
     (\<forall>r \<in> set wq. Action r = SecurityRuleAllow \<and> piece_ok r \<or> Action r = SecurityRuleDeny \<and> rule_ok r) \<and>
     (\<forall>d \<in> set wq. \<forall>a \<in> set wq. Action d = SecurityRuleDeny \<longrightarrow> Action a = SecurityRuleAllow \<longrightarrow> ports_compatible d a)"

lemma action_ne: "SecurityRuleAllow \<noteq> SecurityRuleDeny"
  by (simp add: SecurityRuleAllow_def SecurityRuleDeny_def)

lemma allowed_Cons:
  "allowed (r # srs) p \<longleftrightarrow> (if matches r p then Action r = SecurityRuleAllow else allowed srs p)"
  by (simp add: allowed_def)

lemma allowed_allow_append:
  "\<forall>q \<in> set ps. Action q = SecurityRuleAllow \<Longrightarrow> allowed (ps @ srs) p \<longleftrightarrow> (\<exists>q \<in> set ps. matches q p) \<or> allowed srs p"
  by (induction ps) (auto simp: allowed_Cons)

lemma cut_rest_correct:
  assumes "queue_ok (d # wq)" and "Action d = SecurityRuleDeny"
  shows "\<exists>wq'. cut_rest d wq = Some wq' \<and> queue_ok wq' \<and>
     filter (\<lambda>r. Action r = SecurityRuleDeny) wq' = filter (\<lambda>r. Action r = SecurityRuleDeny) wq \<and>
     Ports ` set (filter (\<lambda>r. Action r = SecurityRuleAllow) wq') \<subseteq> Ports ` set (filter (\<lambda>r. Action r = SecurityRuleAllow) wq) \<and>
     (\<forall>r \<in> set wq'. \<exists>r0 \<in> set wq. Direction r = Direction r0) \<and>
     (\<forall>p. packet_ok p \<longrightarrow> (allowed wq' p \<longleftrightarrow> \<not> matches d p \<and> allowed wq p))"
  using assms(1)
proof (induction wq)
  case Nil
  then show ?case by (simp add: queue_ok_def allowed_def)
next
  case (Cons r wq)
  have "queue_ok (d # wq)" using Cons.prems by (auto simp: queue_ok_def)
  then obtain wq' where w: "cut_rest d wq = Some wq'" "queue_ok wq'"
    "filter (\<lambda>r. Action r = SecurityRuleDeny) wq' = filter (\<lambda>r. Action r = SecurityRuleDeny) wq"
    "Ports ` set (filter (\<lambda>r. Action r = SecurityRuleAllow) wq') \<subseteq> Ports ` set (filter (\<lambda>r. Action r = SecurityRuleAllow) wq)"
    "\<forall>r \<in> set wq'. \<exists>r0 \<in> set wq. Direction r = Direction r0"
    "\<forall>p. packet_ok p \<longrightarrow> (allowed wq' p \<longleftrightarrow> \<not> matches d p \<and> allowed wq p)" using Cons.IH by blast
  show ?case
  proof (cases "Action r = SecurityRuleDeny")
    case True
    have "ports_compatible r a" if "a \<in> set wq'" "Action a = SecurityRuleAllow" for a
    proof -
      have "Ports a \<in> Ports ` set (filter (\<lambda>r. Action r = SecurityRuleAllow) wq)" using w(4) that by auto
      then obtain a0 where "a0 \<in> set wq" "Action a0 = SecurityRuleAllow" "Ports a0 = Ports a" by auto
      then show ?thesis using Cons.prems True by (force simp: queue_ok_def ports_compatible_def)
    qed
    then have "queue_ok (r # wq')" using w(2) Cons.prems True action_ne by (auto simp: queue_ok_def)
    then show ?thesis using w True assms(2) action_ne by (auto simp: allowed_Cons)
  next
    case False
    then have r: "Action r = SecurityRuleAllow" "piece_ok r" using Cons.prems by (auto simp: queue_ok_def)
    have "rule_ok d" "ports_compatible d r" using Cons.prems assms(2) r action_ne by (auto simp: queue_ok_def)
    from cutOut_exact [OF r(2) this] obtain ps where ps: "cutOut r d = Some ps"
      "\<forall>q \<in> set ps. piece_ok q \<and> Action q = Action r \<and> Direction q = Direction r \<and> Ports q = Ports r"
      "\<forall>p. packet_ok p \<longrightarrow> ((\<exists>q \<in> set ps. matches q p) \<longleftrightarrow> matches r p \<and> \<not> matches d p)" by blast
    have pa: "\<forall>q \<in> set ps. Action q = SecurityRuleAllow" using ps(2) r by simp
    have "ports_compatible d' q" if "q \<in> set ps" "d' \<in> set wq'" "Action d' = SecurityRuleDeny" for d' q
    proof -
      have "d' \<in> set (filter (\<lambda>r. Action r = SecurityRuleDeny) wq)" unfolding w(3) [symmetric] using that by simp
      then show ?thesis using Cons.prems r that ps(2) by (force simp: queue_ok_def ports_compatible_def)
    qed
    then have "queue_ok (ps @ wq')" using w(2) ps(2) pa action_ne by (auto simp: queue_ok_def)
    moreover have "filter (\<lambda>r. Action r = SecurityRuleDeny) ps = []" using pa action_ne by (simp add: filter_empty_conv)
    moreover have "Ports ` set (filter (\<lambda>r. Action r = SecurityRuleAllow) (ps @ wq')) \<subseteq> insert (Ports r) (Ports ` set (filter (\<lambda>r. Action r = SecurityRuleAllow) wq))"
      using w(4) ps(2) by auto
    ultimately show ?thesis
      using w ps r assms(2) action_ne by (auto simp: allowed_Cons allowed_allow_append [OF pa])
  qed
qed

text \<open>
  The loop ends without a panic. Its result has allow rules only and matches what the
  list allows, besides what was collected before.
\<close>

lemma allow_list_loop_correct:
  assumes "queue_ok wq" and "\<forall>q \<in> set r. piece_ok q \<and> Action q = SecurityRuleAllow"
  shows "\<exists>res. allow_list_loop r wq = Some (Some res) \<and> (\<forall>q \<in> set res. piece_ok q \<and> Action q = SecurityRuleAllow) \<and>
     (\<forall>q \<in> set res. \<exists>q0 \<in> set r \<union> set wq. Direction q = Direction q0) \<and>
     (\<forall>p. packet_ok p \<longrightarrow> ((\<exists>q \<in> set res. matches q p) \<longleftrightarrow> (\<exists>q \<in> set r. matches q p) \<or> allowed wq p))"
  using assms
proof (induction "(length (filter (\<lambda>r. Action r = SecurityRuleDeny) wq), length wq)" arbitrary: r wq
    rule: wf_induct_rule [OF wf_lex_prod [OF wf_less_than wf_less_than]])
  case (1 wq r)
  show ?case
  proof (cases wq)
    case Nil
    then show ?thesis using 1(3) by (subst allow_list_loop.simps) (auto simp: allowed_def)
  next
    case (Cons sr wq')
    show ?thesis
    proof (cases "Action sr = SecurityRuleAllow")
      case True
      have ok: "queue_ok wq'" "piece_ok sr" using 1(2) Cons True action_ne by (auto simp: queue_ok_def)
      have "\<forall>q \<in> set (r @ [sr]). piece_ok q \<and> Action q = SecurityRuleAllow" using 1(3) ok True by auto
      from 1(1) [OF _ ok(1) this] obtain res where "allow_list_loop (r @ [sr]) wq' = Some (Some res)"
        "\<forall>q \<in> set res. piece_ok q \<and> Action q = SecurityRuleAllow"
        "\<forall>q \<in> set res. \<exists>q0 \<in> set (r @ [sr]) \<union> set wq'. Direction q = Direction q0"
        "\<forall>p. packet_ok p \<longrightarrow> ((\<exists>q \<in> set res. matches q p) \<longleftrightarrow> (\<exists>q \<in> set (r @ [sr]). matches q p) \<or> allowed wq' p)"
        using Cons True action_ne by auto
      then show ?thesis using Cons True by (subst allow_list_loop.simps) (auto simp: allowed_Cons)
    next
      case False
      then have d: "Action sr = SecurityRuleDeny" using 1(2) Cons by (auto simp: queue_ok_def)
      from cut_rest_correct [OF 1(2) [unfolded Cons] d] obtain wq2 where w: "cut_rest sr wq' = Some wq2" "queue_ok wq2"
        "filter (\<lambda>r. Action r = SecurityRuleDeny) wq2 = filter (\<lambda>r. Action r = SecurityRuleDeny) wq'"
        "\<forall>r \<in> set wq2. \<exists>r0 \<in> set wq'. Direction r = Direction r0"
        "\<forall>p. packet_ok p \<longrightarrow> (allowed wq2 p \<longleftrightarrow> \<not> matches sr p \<and> allowed wq' p)" by blast
      from 1(1) [OF _ w(2) 1(3)] obtain res where "allow_list_loop r wq2 = Some (Some res)"
        "\<forall>q \<in> set res. piece_ok q \<and> Action q = SecurityRuleAllow"
        "\<forall>q \<in> set res. \<exists>q0 \<in> set r \<union> set wq2. Direction q = Direction q0"
        "\<forall>p. packet_ok p \<longrightarrow> ((\<exists>q \<in> set res. matches q p) \<longleftrightarrow> (\<exists>q \<in> set r. matches q p) \<or> allowed wq2 p)"
        using Cons d w(3) by auto
      then show ?thesis using Cons d w(1,4,5) action_ne
        by (subst allow_list_loop.simps) (auto simp: allowed_Cons cutOutFirst_def, metis Un_iff)
    qed
  qed
qed

section \<open>Collapsing the allow list\<close>

lemma dedup_loop_set: "i < length ps \<Longrightarrow> set (dedup_loop i ps) = set ps"
proof (induction i ps rule: dedup_loop.induct)
  case (2 i ps)
  show ?case
  proof (cases "ps ! Suc i = ps ! i")
    case True
    have "ps = take (Suc i) ps @ ps ! Suc i # drop (Suc i + 1) ps" using 2(2) by (simp add: id_take_nth_drop)
    then have "set ps = insert (ps ! Suc i) (set (take (Suc i) ps @ drop (Suc i + 1) ps))"
      by (metis list.simps(15) set_append Un_insert_right)
    moreover have "ps ! i \<in> set (take (Suc i) ps)" using 2(2) by (auto simp: in_set_conv_nth intro!: exI [of _ i])
    ultimately have "set ps = set (take (Suc i) ps @ drop (Suc i + 1) ps)" using True by auto
    then show ?thesis using 2 True by simp
  qed (use 2 in simp)
qed simp

lemma dedup_set: "set (dedup ps) = set ps"
  unfolding dedup_def by (cases "ps = []") (simp_all add: dedup_loop_set)

lemma ports_roundtrip: "\<forall>p \<in> set ps. 1 \<le> p \<and> p \<le> 65535 \<Longrightarrow> IntSlice (newPortsFromInts ps) = ps"
  by (induction ps) (simp_all add: IntSlice_def newPortsFromInts_def uint16_of_int)

lemma set_IntSlice_dedup:
  assumes "\<forall>p \<in> set ps \<union> set qs. 1 \<le> p \<and> p \<le> 65535"
  shows "set (IntSlice (dedup (newPortsFromInts ps @ newPortsFromInts qs))) = set ps \<union> set qs"
proof -
  have "set (IntSlice (dedup (newPortsFromInts ps @ newPortsFromInts qs))) =
      set (IntSlice (newPortsFromInts ps)) \<union> set (IntSlice (newPortsFromInts qs))"
    by (simp add: IntSlice_def dedup_set image_Un)
  then show ?thesis using assms ports_roundtrip [of ps] ports_roundtrip [of qs] by auto
qed

lemma netEquals_contains: "v4net (Net a) \<Longrightarrow> v4net (Net b) \<Longrightarrow> netEquals a b \<Longrightarrow> net_contains (Net a) x \<longleftrightarrow> net_contains (Net b) x"
proof -
  assume v: "v4net (Net a)" "v4net (Net b)" and "netEquals a b"
  then have "NewIPV4AddrRangeFromIPNet (Net a) = NewIPV4AddrRangeFromIPNet (Net b)"
    by (simp add: netEquals_def NewIPV4AddrRangeFromIPNet_def)
  moreover obtain ar where "NewIPV4AddrRangeFromIPNet (Net a) = Some ar" using range_of_net [OF v(1)] by blast
  ultimately show ?thesis using net_range_contains(1) [OF v(1), of ar x] net_range_contains(1) [OF v(2), of ar x] by simp
qed

lemma merge_ports_lists:
  assumes a: "piece_ok a" "Ports a \<noteq> []" and b: "piece_ok b" "Ports b \<noteq> []" and "Protocol a = Protocol b" "netEquals a b"
    and c: "c = a\<lparr>Ports := IntSlice (dedup (newPortsFromInts (Ports a) @ newPortsFromInts (Ports b)))\<rparr>"
  shows "piece_ok c \<and> (matches c p \<longleftrightarrow> matches a p \<or> matches b p)"
proof -
  have "\<forall>p \<in> set (Ports a) \<union> set (Ports b). 1 \<le> p \<and> p \<le> 65535" using a b by (auto simp: piece_ok_def port_cond_ok_def)
  then have s: "set (Ports c) = set (Ports a) \<union> set (Ports b)" unfolding c by (simp add: set_IntSlice_dedup)
  then have "Ports c \<noteq> []" using a(2) by auto
  moreover have "\<not> has_range c" using a by (auto simp: c has_range_def piece_ok_def port_cond_ok_def)
  moreover have n: "net_contains (Net a) (paddr p) \<longleftrightarrow> net_contains (Net b) (paddr p)"
    using netEquals_contains assms by (simp add: piece_ok_def)
  have e: "Protocol c = Protocol a" "Net c = Net a" by (simp_all add: c)
  ultimately show ?thesis
    using s n a b assms(5) by (auto simp: matches_def proto_match_def port_match_def piece_ok_def port_cond_ok_def e)
qed

lemma merge_ports_ranges:
  assumes a: "piece_ok a" "has_range a" and b: "piece_ok b" "has_range b" and "Protocol a = Protocol b" "netEquals a b"
    and c: "c = a\<lparr>PortStart := s, PortEnd := e\<rparr>" and se: "\<And>x. (s \<le> x \<and> x \<le> e) \<longleftrightarrow> (PortStart a \<le> x \<and> x \<le> PortEnd a) \<or> (PortStart b \<le> x \<and> x \<le> PortEnd b)"
  shows "piece_ok c \<and> (matches c p \<longleftrightarrow> matches a p \<or> matches b p)"
proof -
  have o: "1 \<le> PortStart a" "PortStart a \<le> PortEnd a" "PortEnd a \<le> 65535" "1 \<le> PortStart b" "PortStart b \<le> PortEnd b" "PortEnd b \<le> 65535"
    "Ports a = []" "Ports b = []" using a b by (auto simp: piece_ok_def port_cond_ok_def)
  then have "s \<le> PortStart a \<and> PortStart a \<le> e" using se [of "PortStart a"] by simp
  then have r: "1 \<le> s" "s \<le> e" "e \<le> 65535" using se [of s] se [of e] o by auto
  have n: "net_contains (Net a) (paddr p) \<longleftrightarrow> net_contains (Net b) (paddr p)"
    using netEquals_contains assms by (simp add: piece_ok_def)
  have "port_match c p \<longleftrightarrow> port_match a p \<or> port_match b p"
    using r o a(2) b(2) se [of "pport p"] by (auto simp: port_match_def c has_range_def)
  moreover have "proto_match c p \<longleftrightarrow> proto_match a p" "proto_match b p \<longleftrightarrow> proto_match a p" "Net c = Net a"
    using assms(5) by (simp_all add: c proto_match_def)
  moreover have "piece_ok c" using a r o by (simp add: c piece_ok_def port_cond_ok_def has_range_def)
  ultimately show ?thesis using n by (auto simp: matches_def)
qed

lemma merge_ports_union:
  assumes "piece_ok a" "piece_ok b" "merge_ports a b = Some c"
  shows "piece_ok c \<and> (matches c p \<longleftrightarrow> matches a p \<or> matches b p) \<and> Action c = Action a \<and> Direction c = Direction a"
proof -
  have pn: "Protocol a = Protocol b" "netEquals a b" using assms(3) by (auto simp: merge_ports_def split: if_splits)
  have o: "has_range x \<Longrightarrow> 1 \<le> PortStart x \<and> PortStart x \<le> PortEnd x \<and> PortEnd x \<le> 65535 \<and> Ports x = []" if "piece_ok x" for x
    using that by (auto simp: piece_ok_def port_cond_ok_def)
  show ?thesis
  proof (cases "length (Ports a) > 0 \<and> length (Ports b) > 0")
    case True
    then have c: "c = a\<lparr>Ports := IntSlice (dedup (newPortsFromInts (Ports a) @ newPortsFromInts (Ports b)))\<rparr>"
      using assms(3) pn by (simp add: merge_ports_def)
    then show ?thesis using merge_ports_lists [OF assms(1) _ assms(2) _ pn c] True by auto
  next
    case False
    then have r: "has_range a" "has_range b" using assms(3) pn by (auto simp: merge_ports_def has_range_def split: if_splits)
    note M = merge_ports_ranges [OF assms(1) r(1) assms(2) r(2) pn] and ab = o [OF assms(1) r(1)] o [OF assms(2) r(2)]
    from assms(3) pn r False consider "PortEnd a = PortStart b - 1" "c = a\<lparr>PortStart := PortStart a, PortEnd := PortEnd b\<rparr>"
      | "PortStart a - 1 = PortEnd b" "c = a\<lparr>PortStart := PortStart b, PortEnd := PortEnd a\<rparr>"
      | "PortStart a = PortStart b" "PortEnd a = PortEnd b" "c = a\<lparr>PortStart := PortStart a, PortEnd := PortEnd a\<rparr>"
      by (auto simp: merge_ports_def has_range_def split: if_splits)
    then show ?thesis
    proof cases
      case 1
      have "(PortStart a \<le> x \<and> x \<le> PortEnd b) \<longleftrightarrow> (PortStart a \<le> x \<and> x \<le> PortEnd a) \<or> (PortStart b \<le> x \<and> x \<le> PortEnd b)" for x
        using 1(1) ab by linarith
      then show ?thesis using M [OF 1(2)] 1(2) by simp
    next
      case 2
      have "(PortStart b \<le> x \<and> x \<le> PortEnd a) \<longleftrightarrow> (PortStart a \<le> x \<and> x \<le> PortEnd a) \<or> (PortStart b \<le> x \<and> x \<le> PortEnd b)" for x
        using 2(1) ab by linarith
      then show ?thesis using M [OF 2(2)] 2(2) by simp
    next
      case 3
      then show ?thesis using M [OF 3(3)] by simp
    qed
  qed
qed

lemma two_at: "Suc i < length xs \<Longrightarrow> xs = take i xs @ xs ! i # xs ! Suc i # drop (Suc i + 1) xs"
  by (metis Cons_nth_drop_Suc Suc_eq_plus1 Suc_lessD append_take_drop_id)

text \<open>What the rules match, their well-formedness and their actions and directions survive the merging.\<close>

definition same_rules :: "SecurityRuleSet \<Rightarrow> SecurityRuleSet \<Rightarrow> bool" where
  "same_rules xs ys \<longleftrightarrow>
     (\<forall>q \<in> set ys. piece_ok q \<and> (\<exists>q0 \<in> set xs. Action q = Action q0 \<and> Direction q = Direction q0)) \<and>
     (\<forall>p. (\<exists>q \<in> set ys. matches q p) \<longleftrightarrow> (\<exists>q \<in> set xs. matches q p))"

lemma same_rules_trans: "same_rules xs ys \<Longrightarrow> same_rules ys zs \<Longrightarrow> same_rules xs zs"
  unfolding same_rules_def by (elim conjE, intro conjI ballI allI) (blast, metis, simp)

lemma merge_loop_same:
  "i < length xs \<Longrightarrow> \<forall>q \<in> set xs. piece_ok q \<Longrightarrow> same_rules xs (merge_loop i xs)"
proof (induction i xs rule: merge_loop.induct)
  case (1 xs)
  then show ?case by (auto simp: same_rules_def)
next
  case (2 i xs)
  show ?case
  proof (cases "merge_ports (xs ! i) (xs ! Suc i)")
    case None
    then show ?thesis using 2 by simp
  next
    case (Some c)
    let ?ys = "take i xs @ c # drop (Suc i + 1) xs"
    have x: "xs = take i xs @ xs ! i # xs ! Suc i # drop (Suc i + 1) xs" using 2(2) by (rule two_at)
    have ok: "piece_ok (xs ! i)" "piece_ok (xs ! Suc i)" using 2(2,3) by auto
    have c: "piece_ok c" "matches c p \<longleftrightarrow> matches (xs ! i) p \<or> matches (xs ! Suc i) p" "Action c = Action (xs ! i)" "Direction c = Direction (xs ! i)" for p
      using merge_ports_union [OF ok Some] by auto
    have sx: "set xs = set (take i xs) \<union> {xs ! i, xs ! Suc i} \<union> set (drop (Suc i + 1) xs)"
      by (subst x) auto
    have "same_rules xs ?ys" unfolding same_rules_def sx using c 2(3) sx by auto
    moreover have "same_rules ?ys (merge_loop i ?ys)"
      using 2(1) Some 2(2,3) c(1) sx by simp
    ultimately show ?thesis using Some by (simp add: same_rules_trans)
  qed
qed

text \<open>A sorting procedure returns its argument in another order.\<close>

definition permutes :: "((SecurityRule \<Rightarrow> SecurityRule \<Rightarrow> bool) \<Rightarrow> SecurityRuleSet \<Rightarrow> SecurityRuleSet) \<Rightarrow> bool" where
  "permutes srt \<longleftrightarrow> (\<forall>less xs. mset (srt less xs) = mset xs)"

lemma collapse_same:
  assumes "permutes srt" and "\<forall>q \<in> set srs. piece_ok q"
  shows "same_rules srs (collapse srt srs)"
proof -
  define f :: "SecurityRule \<Rightarrow> SecurityRule" where "f sr = (if length (Ports sr) > 0 then sr\<lparr>Ports := sort (Ports sr)\<rparr> else sr)" for sr
  have "sort xs = [] \<longleftrightarrow> xs = []" for xs :: "int list" by (metis set_sort set_empty)
  then have f: "matches (f r) p \<longleftrightarrow> matches r p" "piece_ok r \<Longrightarrow> piece_ok (f r)" "Action (f r) = Action r" "Direction (f r) = Direction r" for r p
    by (auto simp: f_def matches_def proto_match_def port_match_def has_range_def piece_ok_def port_cond_ok_def)
  let ?ys = "srt collapse_less (map f srs)"
  have "mset ?ys = mset (map f srs)" using assms(1) by (simp add: permutes_def)
  then have s: "set ?ys = f ` set srs" by (metis list.set_map mset_eq_setD)
  have "same_rules srs ?ys" using assms(2) f by (auto simp: same_rules_def s)
  moreover have "same_rules ?ys (merge_loop (length ?ys - 1) ?ys)"
  proof (cases "?ys = []")
    case True
    then show ?thesis by (simp add: same_rules_def)
  next
    case False
    then show ?thesis using assms(2) f(2) by (intro merge_loop_same) (auto simp: s)
  qed
  ultimately show ?thesis by (simp add: collapse_def f_def [abs_def] Let_def same_rules_trans)
qed

section \<open>The order of rules\<close>

text \<open>What the library promises of its sorting procedures: an ordering of the argument, for a strict weak order.\<close>

definition sorts :: "((SecurityRule \<Rightarrow> SecurityRule \<Rightarrow> bool) \<Rightarrow> SecurityRuleSet \<Rightarrow> SecurityRuleSet) \<Rightarrow> bool" where
  "sorts srt \<longleftrightarrow> permutes srt \<and>
     (\<forall>lt xs. (\<forall>a b. lt a b \<longrightarrow> \<not> lt b a) \<longrightarrow> (\<forall>a b c. lt a c \<longrightarrow> lt a b \<or> lt b c) \<longrightarrow>
        sorted_wrt (\<lambda>a b. \<not> lt b a) (srt lt xs))"

fun insert_by :: "('a \<Rightarrow> 'a \<Rightarrow> bool) \<Rightarrow> 'a \<Rightarrow> 'a list \<Rightarrow> 'a list" where
  "insert_by lt x [] = [x]"
| "insert_by lt x (y # ys) = (if lt y x then y # insert_by lt x ys else x # y # ys)"

definition insertion_sort :: "('a \<Rightarrow> 'a \<Rightarrow> bool) \<Rightarrow> 'a list \<Rightarrow> 'a list" where
  "insertion_sort lt xs = foldr (insert_by lt) xs []"

lemma mset_insert_by: "mset (insert_by lt x ys) = add_mset x (mset ys)"
  by (induction ys) auto

lemma set_insert_by: "set (insert_by lt x ys) = insert x (set ys)"
  by (induction ys) auto

lemma insertion_sort_sorts: "sorts insertion_sort"
proof -
  have "mset (insertion_sort lt xs) = mset xs" for lt :: "SecurityRule \<Rightarrow> SecurityRule \<Rightarrow> bool" and xs
    by (induction xs) (simp_all add: insertion_sort_def mset_insert_by)
  moreover have "sorted_wrt (\<lambda>a b. \<not> lt b a) (insertion_sort lt xs)"
    if asym: "\<forall>a b. lt a b \<longrightarrow> \<not> lt b a" and neg: "\<forall>a b c. lt a c \<longrightarrow> lt a b \<or> lt b c"
    for lt :: "SecurityRule \<Rightarrow> SecurityRule \<Rightarrow> bool" and xs
  proof -
    have n: "lt z x \<Longrightarrow> \<not> lt a x \<Longrightarrow> lt z a" for z a x using neg by blast
    have "sorted_wrt (\<lambda>a b. \<not> lt b a) (insert_by lt x ys)" if "sorted_wrt (\<lambda>a b. \<not> lt b a) ys" for x ys
      using that by (induction ys) (use asym in \<open>auto simp: set_insert_by dest: n\<close>)
    then show ?thesis by (induction xs) (simp_all add: insertion_sort_def)
  qed
  ultimately show ?thesis by (auto simp: sorts_def permutes_def)
qed

lemma set_Less_order: "set_Less a b \<Longrightarrow> \<not> set_Less b a" "set_Less a c \<Longrightarrow> set_Less a b \<or> set_Less b c"
  by (auto simp: set_Less_def split: if_splits)

lemma sorted_by_Less: "sorts srt \<Longrightarrow> sorted_wrt (\<lambda>a b. \<not> set_Less b a) (srt set_Less xs)"
  using set_Less_order unfolding sorts_def by blast

lemma append_less: "xs @ ys < xs @ zs \<longleftrightarrow> ys < (zs :: string)"
  by (induction xs) auto

lemma rule_String_prefix: "\<exists>t. rule_String r = Direction r @ '':'' @ Action r @ '' '' @ t"
  by (auto simp: rule_String_def Let_def)

lemma allow_before_deny:
  assumes "Direction a = Direction d" and "Action a = SecurityRuleAllow" and "Action d = SecurityRuleDeny"
  shows "rule_String a < rule_String d"
proof -
  obtain s t where "rule_String a = (Direction d @ '':'') @ (''allow'' @ '' '' @ s)"
    "rule_String d = (Direction d @ '':'') @ (''deny'' @ '' '' @ t)"
    using rule_String_prefix [of a] rule_String_prefix [of d] assms
    by (auto simp: SecurityRuleAllow_def SecurityRuleDeny_def)
  moreover have "''allow'' @ '' '' @ s < ''deny'' @ '' '' @ t" by (simp add: less_char_def)
  ultimately show ?thesis by (simp only: append_less)
qed

text \<open>In the order of \<^verbatim>\<open>Less\<close> the first match allows a packet iff no matching deny rule has a higher priority than every matching allow rule.\<close>

lemma allowed_sorted:
  assumes "sorted_wrt (\<lambda>a b. \<not> set_Less b a) srs"
    and "\<forall>r \<in> set srs. Direction r = dir \<and> (Action r = SecurityRuleAllow \<or> Action r = SecurityRuleDeny)"
  shows "allowed srs p \<longleftrightarrow> (\<exists>a \<in> set srs. Action a = SecurityRuleAllow \<and> matches a p \<and>
     (\<forall>d \<in> set srs. Action d = SecurityRuleDeny \<longrightarrow> matches d p \<longrightarrow> Priority d \<le> Priority a))"
  using assms
proof (induction srs)
  case Nil
  then show ?case by (simp add: allowed_def)
next
  case (Cons r srs)
  have IH: "allowed srs p \<longleftrightarrow> (\<exists>a \<in> set srs. Action a = SecurityRuleAllow \<and> matches a p \<and>
     (\<forall>d \<in> set srs. Action d = SecurityRuleDeny \<longrightarrow> matches d p \<longrightarrow> Priority d \<le> Priority a))"
    using Cons by auto
  have after: "\<not> set_Less b r" if "b \<in> set srs" for b using Cons.prems(1) that by simp
  show ?case
  proof (cases "matches r p")
    case False
    then show ?thesis using IH by (auto simp: allowed_Cons)
  next
    case m: True
    show ?thesis
    proof (cases "Action r = SecurityRuleAllow")
      case True
      have "Priority d \<le> Priority r" if "d \<in> set srs" for d using after [OF that] by (auto simp: set_Less_def split: if_splits)
      then show ?thesis using m True action_ne by (auto simp: allowed_Cons)
    next
      case False
      then have d: "Action r = SecurityRuleDeny" using Cons.prems(2) by auto
      have "Priority a < Priority r" if "a \<in> set srs" "Action a = SecurityRuleAllow" for a
        using after [OF that(1)] allow_before_deny [OF _ that(2) d] Cons.prems(2) that by (auto simp: set_Less_def split: if_splits)
      then show ?thesis using m d False by (force simp: allowed_Cons)
    qed
  qed
qed

section \<open>Allow lists\<close>

definition rules_ok :: "SecurityRuleSet \<Rightarrow> bool" where
  "rules_ok srs \<longleftrightarrow> list_all rule_ok srs \<and>
     list_all (\<lambda>d. list_all (\<lambda>a. Action d = SecurityRuleDeny \<longrightarrow> Action a = SecurityRuleAllow \<longrightarrow> ports_compatible d a) srs) srs"

lemma rule_ok_action:
  assumes "rule_ok r"
  shows "Action r = SecurityRuleAllow \<or> Action r = SecurityRuleDeny" and "Direction r = ''in'' \<or> Direction r = ''out''"
proof -
  have "ValidateRule r = None" using assms by (simp add: rule_ok_def)
  then have "\<not> Action r \<notin> {SecurityRuleAllow, SecurityRuleDeny}" "\<not> Direction r \<notin> {''in'', ''out''}"
    unfolding ValidateRule_def if_Some_None by blast+
  then show "Action r = SecurityRuleAllow \<or> Action r = SecurityRuleDeny" "Direction r = ''in'' \<or> Direction r = ''out''" by auto
qed

lemma rules_ok_queue: "rules_ok srs \<Longrightarrow> queue_ok srs"
  unfolding rules_ok_def queue_ok_def list_all_iff by (auto dest: rule_ok_action(1) intro: rule_ok_piece)

lemma AllowList_result:
  assumes "permutes srt" and "queue_ok srs"
  shows "\<exists>res. AllowList srt srs = Some (Some res) \<and> (\<forall>q \<in> set res. Action q = SecurityRuleAllow) \<and>
     (\<forall>q \<in> set res. \<exists>q0 \<in> set srs. Direction q = Direction q0) \<and>
     (\<forall>p. packet_ok p \<longrightarrow> ((\<exists>q \<in> set res. matches q p) \<longleftrightarrow> allowed srs p))"
proof -
  from allow_list_loop_correct [OF assms(2), of "[]"] obtain r where r: "allow_list_loop [] srs = Some (Some r)"
    "\<forall>q \<in> set r. piece_ok q \<and> Action q = SecurityRuleAllow" "\<forall>q \<in> set r. \<exists>q0 \<in> set srs. Direction q = Direction q0"
    "\<forall>p. packet_ok p \<longrightarrow> ((\<exists>q \<in> set r. matches q p) \<longleftrightarrow> allowed srs p)" by auto
  have "same_rules r (collapse srt r)" using assms(1) r(2) by (intro collapse_same) auto
  then have s: "\<forall>q \<in> set (collapse srt r). \<exists>q0 \<in> set r. Action q = Action q0 \<and> Direction q = Direction q0"
    "\<forall>p. (\<exists>q \<in> set (collapse srt r). matches q p) \<longleftrightarrow> (\<exists>q \<in> set r. matches q p)" by (auto simp: same_rules_def)
  have "AllowList srt srs = Some (Some (collapse srt r))" by (simp add: AllowList_def r)
  moreover have "\<forall>q \<in> set (collapse srt r). Action q = SecurityRuleAllow" using s(1) r(2) by fastforce
  moreover have "\<forall>q \<in> set (collapse srt r). \<exists>q0 \<in> set srs. Direction q = Direction q0" using s(1) r(3) by fastforce
  ultimately show ?thesis using s(2) r(4) by simp
qed

lemma queue_ok_subset: "queue_ok xs \<Longrightarrow> set ys \<subseteq> set xs \<Longrightarrow> queue_ok ys"
  unfolding queue_ok_def by (meson subsetD)

lemma allow_set_direction:
  assumes "sorts srt" and "queue_ok srs" and "\<forall>r \<in> set srs. Direction r = dir"
  shows "\<exists>res. AllowList srt (srt set_Less srs) = Some (Some res) \<and> (\<forall>q \<in> set res. Action q = SecurityRuleAllow \<and> Direction q = dir) \<and>
     (\<forall>p. packet_ok p \<longrightarrow> ((\<exists>q \<in> set res. matches q p) \<longleftrightarrow>
        (\<exists>a \<in> set srs. Action a = SecurityRuleAllow \<and> matches a p \<and>
          (\<forall>d \<in> set srs. Action d = SecurityRuleDeny \<longrightarrow> matches d p \<longrightarrow> Priority d \<le> Priority a))))"
proof -
  let ?s = "srt set_Less srs"
  have perm: "permutes srt" using assms(1) by (simp add: sorts_def)
  then have s: "set ?s = set srs" unfolding permutes_def by (metis mset_eq_setD)
  have q: "queue_ok ?s" using assms(2) s queue_ok_subset by blast
  have "\<forall>r \<in> set ?s. Direction r = dir \<and> (Action r = SecurityRuleAllow \<or> Action r = SecurityRuleDeny)"
    using assms(3) q s by (auto simp: queue_ok_def)
  note al = allowed_sorted [OF sorted_by_Less [OF assms(1)] this, unfolded s]
  from AllowList_result [OF perm q] obtain res where "AllowList srt ?s = Some (Some res)" "\<forall>q \<in> set res. Action q = SecurityRuleAllow"
    "\<forall>q \<in> set res. \<exists>q0 \<in> set ?s. Direction q = Direction q0"
    "\<forall>p. packet_ok p \<longrightarrow> ((\<exists>q \<in> set res. matches q p) \<longleftrightarrow> allowed ?s p)" by blast
  then show ?thesis using assms(3) al s by auto
qed

section \<open>Port lists\<close>

lemma cut_net_pieces:
  assumes "cut_net c0 ar2 = Some cs" and "c \<in> set cs"
  shows "\<exists>n. cr c = (cr c0)\<lparr>Net := n\<rparr>"
proof -
  obtain left subs where "cs = map (\<lambda>n. c0\<lparr>cr := (cr c0)\<lparr>Net := n\<rparr>\<rparr>) left @ map (\<lambda>n. c0\<lparr>cr := (cr c0)\<lparr>Net := n\<rparr>, netCut := True\<rparr>) subs"
    using assms(1) by (auto simp: cut_net_def split: option.splits prod.splits bind_splits)
  then obtain n where "c = c0\<lparr>cr := (cr c0)\<lparr>Net := n\<rparr>\<rparr> \<or> c = c0\<lparr>cr := (cr c0)\<lparr>Net := n\<rparr>, netCut := True\<rparr>"
    using assms(2) by auto
  then have "cr c = (cr c0)\<lparr>Net := n\<rparr>" by auto
  then show ?thesis by blast
qed

lemma cut_nets_pieces:
  "cut_nets srcs ar2 = Some cs \<Longrightarrow> c \<in> set cs \<Longrightarrow> \<exists>c0 n. c0 \<in> set srcs \<and> cr c = (cr c0)\<lparr>Net := n\<rparr>"
proof (induction srcs arbitrary: cs)
  case (Cons c0 srcs)
  then obtain r rs where "cut_net c0 ar2 = Some r" "cut_nets srcs ar2 = Some rs" "cs = r @ rs" by (auto split: bind_splits)
  then show ?case using Cons cut_net_pieces by fastforce
qed simp

text \<open>Up to the ports, the pieces of a TCP rule from which a TCP rule is cut have the ports of the rule.\<close>

lemma cut_pieces_ports:
  assumes "Protocol a = Protocol d" and "cutOutIPNet (cutOutProtocol [new_cut a] (Protocol d)) (Net d) = Some srcs" and "c \<in> set srcs"
  shows "\<exists>n. cr c = a\<lparr>Net := n\<rparr>"
  using assms cut_nets_pieces [of "cutOutProtocol [new_cut a] (Protocol d)" _ srcs c]
  by (auto simp: cutOutIPNet_def cutOutProtocol_def new_cut_def split: bind_splits)

lemma allow_list_loop_allows:
  "\<forall>q \<in> set ps. Action q = SecurityRuleAllow \<Longrightarrow> allow_list_loop r ps = Some (Some (r @ ps))"
  by (induction ps arbitrary: r) (subst allow_list_loop.simps, simp)+

lemma AllowList_two:
  assumes "permutes srt" and "Action d = SecurityRuleDeny" and "Action a = SecurityRuleAllow" and "cutOut a d = Some ps"
    and "\<forall>q \<in> set ps. piece_ok q \<and> Action q = SecurityRuleAllow"
  shows "\<exists>res. AllowList srt [d, a] = Some (Some res) \<and> (\<forall>p. (\<exists>r \<in> set res. matches r p) \<longleftrightarrow> (\<exists>q \<in> set ps. matches q p))"
proof -
  have "allow_list_loop [] [d, a] = Some (Some ps)"
    using assms(2-5) action_ne by (subst allow_list_loop.simps) (simp add: cutOutFirst_def allow_list_loop_allows)
  then have "AllowList srt [d, a] = Some (Some (collapse srt ps))" by (simp add: AllowList_def)
  moreover have "same_rules ps (collapse srt ps)" using assms(1,5) by (intro collapse_same) auto
  ultimately show ?thesis by (auto simp: same_rules_def)
qed

lemma piece_ok_ports:
  assumes "rule_ok a" and "v4net n" and "\<not> has_range a" and "\<forall>x \<in> set ps. 1 \<le> x \<and> x \<le> 65535"
  shows "piece_ok (a\<lparr>Net := n, Ports := ps\<rparr>)"
  using rule_ok_piece [OF assms(1)] assms by (auto simp: piece_ok_def port_cond_ok_def has_range_def)

lemma cut_ports_neighbours:
  assumes "2 \<le> q" and "q < 65535" and "Ports (cr c) = []" and "\<not> has_range (cr c)"
  shows "cut_ports (newPortsFromInts [q, q + 1]) c =
    [set_range c 1 (q - 1), set_range c (q + 1) 65535, c\<lparr>cr := (cr c)\<lparr>Ports := [q, q + 1]\<rparr>, portCut := True\<rparr>]"
proof -
  let ?q = "word_of_int q :: 16 word"
  have u: "uint ?q = q" "uint (?q + 1) = q + 1" "uint (?q - 1) = q - 1"
    using assms(1,2) uint16_plus1 [of ?q] uint16_minus1 [of ?q] by (simp_all add: uint16_of_int)
  have w: "newPortsFromInts [q, q + 1] = [?q, ?q + 1]" by (simp add: newPortsFromInts_def)
  have le: "?q \<le> ?q + 1" "1 \<le> ?q - 1" "\<not> ?q + 1 \<le> ?q" unfolding word_le_def using u assms(1,2) by simp_all
  have "?q + 1 \<noteq> 0"
  proof
    assume "?q + 1 = 0"
    then have "uint (?q + 1) = 0" by simp
    then show False using u assms(1) by simp
  qed
  then show ?thesis using assms(3,4) le u unfolding w by (auto simp: cut_ports_def has_range_def IntSlice_def)
qed

section \<open>Properties\<close>

text \<open>
  C8. The allow list of an ordered list of rules allows exactly what the list allows by its
  first matching rule: no denied packet gets through and no allowed packet is lost. The
  loop ends and nothing panics. The rules are valid IPv4 rules, no deny rule lists single
  ports, and deny rules restrict ports only where the allow rules do not list single ports.
\<close>

theorem AllowList_correct:
  assumes "permutes srt" and "rules_ok srs"
  shows "\<exists>res. AllowList srt srs = Some (Some res) \<and> list_all (\<lambda>q. Action q = SecurityRuleAllow) res \<and>
     (\<forall>p. packet_ok p \<longrightarrow> list_ex (\<lambda>q. matches q p) res = allowed srs p)"
  using AllowList_result [OF assms(1) rules_ok_queue [OF assms(2)]] by (auto simp: list_all_iff list_ex_iff)

definition demo_net :: "byte \<Rightarrow> nat \<Rightarrow> IPNet" where
  "demo_net a len = \<lparr>IP = net_IPv4 a 0 0 0, Mask = net_CIDRMask len 32\<rparr>"

definition demo_rules :: SecurityRuleSet where
  "demo_rules =
     [empty_rule\<lparr>Priority := 20, Action := SecurityRuleDeny, Net := demo_net 10 8, Protocol := PROTO_TCP, Direction := ''in'', PortStart := 20, PortEnd := 30\<rparr>,
      empty_rule\<lparr>Priority := 10, Action := SecurityRuleAllow, Net := demo_net 0 0, Protocol := PROTO_ANY, Direction := ''in''\<rparr>,
      empty_rule\<lparr>Priority := 5, Action := SecurityRuleAllow, Net := demo_net 192 8, Protocol := PROTO_UDP, Direction := ''out'', PortStart := 53, PortEnd := 53\<rparr>]"

lemma v4net_demo: "v4net (demo_net 10 8)" "v4net (demo_net 0 0)" "v4net (demo_net 192 8)"
  by code_simp+

lemma rules_ok_demo: "rules_ok demo_rules"
  by (simp add: rules_ok_def rule_ok_def demo_rules_def ValidateRule_def empty_rule_def v4net_demo has_range_def
      ports_compatible_def proto_defs SecurityRuleAllow_def SecurityRuleDeny_def)

lemma AllowList_correct_witness:
  "\<exists>res. AllowList insertion_sort demo_rules = Some (Some res) \<and> list_all (\<lambda>q. Action q = SecurityRuleAllow) res \<and>
     (\<forall>p. packet_ok p \<longrightarrow> list_ex (\<lambda>q. matches q p) res = allowed demo_rules p)"
  using insertion_sort_sorts by (intro AllowList_correct) (simp_all add: sorts_def rules_ok_demo)

text \<open>
  C9. The allow set of a security group, as pushed to a cloud that knows allow rules only: a
  packet of a direction is allowed exactly when an allow rule of that direction matches it
  and no matching deny rule of that direction has a higher priority. Among rules of equal
  priority allow wins. The same conditions on the rules apply as for an allow list.
\<close>

theorem SecurityRuleSetToAllowSet_correct:
  assumes "sorts srt" and "rules_ok srs"
  shows "\<exists>res. SecurityRuleSetToAllowSet srt srs = Some (Some res) \<and> list_all (\<lambda>q. Action q = SecurityRuleAllow) res \<and>
     (\<forall>p dir. packet_ok p \<longrightarrow>
        list_ex (\<lambda>q. Direction q = dir \<and> matches q p) res =
        (\<exists>a. a \<in> set srs \<and> Direction a = dir \<and> Action a = SecurityRuleAllow \<and> matches a p \<and>
          (\<forall>d \<in> set srs. Direction d = dir \<longrightarrow> Action d = SecurityRuleDeny \<longrightarrow> matches d p \<longrightarrow> Priority d \<le> Priority a)))"
proof -
  let ?in = "filter (\<lambda>rule. Direction rule = SecurityRuleIngress) srs" and ?out = "filter (\<lambda>rule. Direction rule = SecurityRuleEgress) srs"
  have q: "queue_ok ?in" "queue_ok ?out" using queue_ok_subset [OF rules_ok_queue [OF assms(2)]] by auto
  note A = allow_set_direction [OF assms(1)]
  from A [OF q(1), of SecurityRuleIngress] obtain i where i: "AllowList srt (srt set_Less ?in) = Some (Some i)"
    "\<forall>q \<in> set i. Action q = SecurityRuleAllow \<and> Direction q = SecurityRuleIngress"
    "\<forall>p. packet_ok p \<longrightarrow> ((\<exists>q \<in> set i. matches q p) \<longleftrightarrow> (\<exists>a \<in> set ?in. Action a = SecurityRuleAllow \<and> matches a p \<and>
        (\<forall>d \<in> set ?in. Action d = SecurityRuleDeny \<longrightarrow> matches d p \<longrightarrow> Priority d \<le> Priority a)))" by auto
  from A [OF q(2), of SecurityRuleEgress] obtain out where out: "AllowList srt (srt set_Less ?out) = Some (Some out)"
    "\<forall>q \<in> set out. Action q = SecurityRuleAllow \<and> Direction q = SecurityRuleEgress"
    "\<forall>p. packet_ok p \<longrightarrow> ((\<exists>q \<in> set out. matches q p) \<longleftrightarrow> (\<exists>a \<in> set ?out. Action a = SecurityRuleAllow \<and> matches a p \<and>
        (\<forall>d \<in> set ?out. Action d = SecurityRuleDeny \<longrightarrow> matches d p \<longrightarrow> Priority d \<le> Priority a)))" by auto
  have ne: "SecurityRuleIngress \<noteq> SecurityRuleEgress" by (simp add: SecurityRuleIngress_def SecurityRuleEgress_def)
  have dirs: "Direction r = SecurityRuleIngress \<or> Direction r = SecurityRuleEgress" if "r \<in> set srs" for r
    using rule_ok_action(2) [of r] assms(2) that by (auto simp: rules_ok_def list_all_iff SecurityRuleIngress_def SecurityRuleEgress_def)
  have "SecurityRuleSetToAllowSet srt srs = Some (Some (i @ out))"
    by (simp add: SecurityRuleSetToAllowSet_def i(1) out(1))
  moreover have "list_all (\<lambda>q. Action q = SecurityRuleAllow) (i @ out)" using i(2) out(2) by (auto simp: list_all_iff)
  moreover have "list_ex (\<lambda>q. Direction q = dir \<and> matches q p) (i @ out) =
      (\<exists>a. a \<in> set srs \<and> Direction a = dir \<and> Action a = SecurityRuleAllow \<and> matches a p \<and>
        (\<forall>d \<in> set srs. Direction d = dir \<longrightarrow> Action d = SecurityRuleDeny \<longrightarrow> matches d p \<longrightarrow> Priority d \<le> Priority a))"
    if p: "packet_ok p" for p dir
  proof -
    consider "dir = SecurityRuleIngress" | "dir = SecurityRuleEgress" | "dir \<noteq> SecurityRuleIngress" "dir \<noteq> SecurityRuleEgress" by blast
    then show ?thesis
    proof cases
      case 1
      then have "list_ex (\<lambda>q. Direction q = dir \<and> matches q p) (i @ out) \<longleftrightarrow> (\<exists>q \<in> set i. matches q p)"
        using i(2) out(2) ne by (auto simp: list_ex_iff)
      then show ?thesis using i(3) p 1 by auto
    next
      case 2
      then have "list_ex (\<lambda>q. Direction q = dir \<and> matches q p) (i @ out) \<longleftrightarrow> (\<exists>q \<in> set out. matches q p)"
        using i(2) out(2) ne by (auto simp: list_ex_iff)
      then show ?thesis using out(3) p 2 by auto
    next
      case 3
      then show ?thesis using i(2) out(2) dirs by (auto simp: list_ex_iff)
    qed
  qed
  ultimately show ?thesis by blast
qed

lemma SecurityRuleSetToAllowSet_correct_witness:
  "\<exists>res. SecurityRuleSetToAllowSet insertion_sort demo_rules = Some (Some res) \<and> list_all (\<lambda>q. Action q = SecurityRuleAllow) res \<and>
     (\<forall>p dir. packet_ok p \<longrightarrow>
        list_ex (\<lambda>q. Direction q = dir \<and> matches q p) res =
        (\<exists>a. a \<in> set demo_rules \<and> Direction a = dir \<and> Action a = SecurityRuleAllow \<and> matches a p \<and>
          (\<forall>d \<in> set demo_rules. Direction d = dir \<longrightarrow> Action d = SecurityRuleDeny \<longrightarrow> matches d p \<longrightarrow> Priority d \<le> Priority a)))"
  by (rule SecurityRuleSetToAllowSet_correct [OF insertion_sort_sorts rules_ok_demo])

text \<open>
  Denying two neighbouring ports leaves the second open: when a deny rule lists the ports
  \<open>q\<close> and \<open>q + 1\<close> and a later rule allows all ports, the allow list lets packets to port
  \<open>q + 1\<close> through that the rules deny.
\<close>

theorem neighbour_port_stays_open:
  assumes "permutes srt" and "rule_ok d" "Action d = SecurityRuleDeny" and "rule_ok a" "Action a = SecurityRuleAllow"
    and "Protocol d = PROTO_TCP" "Protocol a = PROTO_TCP" and "2 \<le> q" "q < 65535" "Ports d = [q, q + 1]"
    and "Ports a = []" "\<not> has_range a" and "net_contains (Net d) x" "net_contains (Net a) x"
  shows "\<exists>res. AllowList srt [d, a] = Some (Some res) \<and>
     list_ex (\<lambda>r. matches r \<lparr>pproto = PROTO_TCP, paddr = x, pport = q + 1\<rparr>) res \<and>
     \<not> allowed [d, a] \<lparr>pproto = PROTO_TCP, paddr = x, pport = q + 1\<rparr>"
proof -
  let ?p = "\<lparr>pproto = PROTO_TCP, paddr = x, pport = q + 1\<rparr>"
  have p: "packet_ok ?p" using assms(8,9) by (simp add: packet_ok_def protocolsSupported_def)
  have pr: "Protocol a = Protocol d" using assms(6,7) by simp
  from cut_two_dimensions [OF rule_ok_piece [OF assms(4)] assms(2) p] obtain srcs where
    S: "cutOutIPNet (cutOutProtocol [new_cut a] (Protocol d)) (Net d) = Some srcs"
    and s: "cut_state a ?p srcs (\<lambda>c. dimensions d ?p c \<and> \<not> portCut c)" by blast
  have c: "Ports (cr c) = []" "\<not> has_range (cr c)" "piece_ok (cr c)" "Action (cr c) = SecurityRuleAllow" if "c \<in> set srcs" for c
    using cut_pieces_ports [OF pr S that] s that assms(5,11,12) by (auto simp: has_range_def cut_state_def)
  let ?cut = "concat (map (cut_ports (newPortsFromInts [q, q + 1])) srcs)"
  have e: "cutOut a d = Some (securityRuleSet ?cut)" using S assms(10) by (simp add: cutOut_def cutOutPorts_def)
  note ne = cut_ports_neighbours [OF assms(8,9)]
  have ok: "piece_ok r \<and> Action r = SecurityRuleAllow" if r: "r \<in> set (securityRuleSet ?cut)" for r
  proof -
    obtain c0 where c0: "c0 \<in> set srcs" "r \<in> cr ` set (cut_ports (newPortsFromInts [q, q + 1]) c0)"
      using r by (auto simp: securityRuleSet_def)
    then consider "r = cr (set_range c0 1 (q - 1))" | "r = cr (set_range c0 (q + 1) 65535)" | "r = (cr c0)\<lparr>Ports := [q, q + 1]\<rparr>"
      unfolding ne [OF c(1,2) [OF c0(1)]] by auto
    moreover have "piece_ok (cr (set_range c0 1 (q - 1)))" "piece_ok (cr (set_range c0 (q + 1) 65535))"
      using c [OF c0(1)] assms(8,9) by (simp_all add: set_range_ok)
    moreover have "piece_ok ((cr c0)\<lparr>Ports := [q, q + 1]\<rparr>)"
      using c [OF c0(1)] assms(8,9) by (simp add: piece_ok_def port_cond_ok_def has_range_def)
    ultimately show ?thesis using c(4) [OF c0(1)] by cases simp_all
  qed
  have "matches a ?p" using assms(7,11,12,14) by (simp add: matches_def proto_match_def port_match_def)
  then obtain c0 where c0: "c0 \<in> set srcs" "matches (cr c0) ?p" "\<not> portCut c0" using s by (auto simp: cut_state_def)
  let ?r = "set_range c0 (q + 1) 65535"
  have "cr ?r \<in> set (securityRuleSet ?cut)"
    using c0 ne [OF c(1,2) [OF c0(1)]] by (force simp: securityRuleSet_def isCut_def)
  moreover have "matches (cr ?r) ?p"
    using set_range_matches [OF c(1) [OF c0(1)], of "q + 1" 65535 ?p] assms(8,9) c0(2) by (simp add: matches_def)
  ultimately have "\<exists>r \<in> set (securityRuleSet ?cut). matches r ?p" by blast
  moreover have "\<not> allowed [d, a] ?p"
    using assms(3,6,10,13) action_ne by (simp add: allowed_def matches_def proto_match_def port_match_def)
  ultimately show ?thesis
    using AllowList_two [OF assms(1,3,5) e] ok by (auto simp: list_ex_iff)
qed

definition demo_deny :: "int list \<Rightarrow> SecurityRule" where
  "demo_deny ps = empty_rule\<lparr>Priority := 2, Action := SecurityRuleDeny, Net := demo_net 0 0, Protocol := PROTO_TCP, Direction := ''in'', Ports := ps\<rparr>"

definition demo_allow :: "int list \<Rightarrow> SecurityRule" where
  "demo_allow ps = empty_rule\<lparr>Priority := 1, Action := SecurityRuleAllow, Net := demo_net 0 0, Protocol := PROTO_TCP, Direction := ''in'', Ports := ps\<rparr>"

lemmas demo_simps = demo_deny_def demo_allow_def empty_rule_def rule_ok_def ValidateRule_def v4net_demo has_range_def proto_defs
  SecurityRuleAllow_def SecurityRuleDeny_def

lemma net_contains_demo: "net_contains (demo_net 0 0) x"
proof -
  have "net_len (demo_net 0 0) = 0" by code_simp
  then show ?thesis by (simp add: net_contains_def Masklen2Mask_def)
qed

lemma neighbour_port_stays_open_witness:
  "\<exists>res. AllowList insertion_sort [demo_deny [80, 81], demo_allow []] = Some (Some res) \<and>
     list_ex (\<lambda>r. matches r \<lparr>pproto = PROTO_TCP, paddr = 7, pport = 80 + 1\<rparr>) res \<and>
     \<not> allowed [demo_deny [80, 81], demo_allow []] \<lparr>pproto = PROTO_TCP, paddr = 7, pport = 80 + 1\<rparr>"
  using insertion_sort_sorts net_contains_demo [of 7]
  by (intro neighbour_port_stays_open) (simp_all add: sorts_def demo_simps)

text \<open>
  Denying a port range on one network opens all ports on the others: when an allow rule
  lists single ports that all lie in the denied range, the allow list lets packets to every
  port through on the addresses outside the network of the deny rule.
\<close>

theorem denied_range_opens_ports:
  assumes "permutes srt" and "rule_ok d" "Action d = SecurityRuleDeny" and "rule_ok a" "Action a = SecurityRuleAllow"
    and "Protocol d = PROTO_TCP" "Protocol a = PROTO_TCP" and "has_range d" and "Ports a \<noteq> []"
    and "\<forall>y \<in> set (Ports a). PortStart d \<le> y \<and> y \<le> PortEnd d"
    and "net_contains (Net a) x" "\<not> net_contains (Net d) x" and "1 \<le> y" "y \<le> 65535"
  shows "\<exists>res. AllowList srt [d, a] = Some (Some res) \<and> list_ex (\<lambda>r. matches r \<lparr>pproto = PROTO_TCP, paddr = x, pport = y\<rparr>) res"
proof -
  let ?pr = "\<lparr>pr_start = word_of_int (PortStart d), pr_end = word_of_int (PortEnd d)\<rparr> :: portRange"
  let ?p = "\<lparr>pproto = PROTO_TCP, paddr = x, pport = hd (Ports a)\<rparr>"
  have o: "\<forall>y \<in> set (Ports a). 1 \<le> y \<and> y \<le> 65535" "\<not> has_range a" "1 \<le> PortStart d" "PortStart d \<le> PortEnd d" "PortEnd d \<le> 65535" "Ports d = []"
    using rule_ok_piece [OF assms(2)] rule_ok_piece [OF assms(4)] assms(8,9) by (auto simp: piece_ok_def port_cond_ok_def)
  have p: "packet_ok ?p" using o(1) assms(9) by (simp add: packet_ok_def protocolsSupported_def)
  have pr: "Protocol a = Protocol d" using assms(6,7) by simp
  from cut_two_dimensions [OF rule_ok_piece [OF assms(4)] assms(2) p] obtain srcs where
    S: "cutOutIPNet (cutOutProtocol [new_cut a] (Protocol d)) (Net d) = Some srcs"
    and s: "cut_state a ?p srcs (\<lambda>c. dimensions d ?p c \<and> \<not> portCut c)" by blast
  have c: "Ports (cr c) = Ports a" "\<not> has_range (cr c)" "piece_ok (cr c)" "Action (cr c) = SecurityRuleAllow" "Protocol (cr c) = PROTO_TCP" if "c \<in> set srcs" for c
    using cut_pieces_ports [OF pr S that] s that assms(5,7) o(2) by (auto simp: has_range_def cut_state_def)
  have "\<forall>w \<in> set (newPortsFromInts (Ports a)). pr_contains ?pr w" "newPortsFromInts (Ports a) \<noteq> []"
    using assms(9,10) o by (auto simp: newPortsFromInts_def pr_contains_uint uint16_of_int)
  then have "filter (\<lambda>w. \<not> pr_contains ?pr w) (newPortsFromInts (Ports a)) = []" "filter (pr_contains ?pr) (newPortsFromInts (Ports a)) \<noteq> []"
    by simp_all
  then have cut: "cut_port_range ?pr c = [c\<lparr>cr := (cr c)\<lparr>Ports := []\<rparr>, portCut := True\<rparr>]" if "c \<in> set srcs" for c
    using c(1) [OF that] assms(9) by (simp add: cut_port_range_def ports_substractPortRange_def IntSlice_def)
  let ?cut = "concat (map (cut_port_range ?pr) srcs)"
  have e: "cutOut a d = Some (securityRuleSet ?cut)"
    using S assms(8) o(6) by (simp add: cutOut_def cutOutPortRange_def has_range_def)
  have ok: "piece_ok r \<and> Action r = SecurityRuleAllow" if r: "r \<in> set (securityRuleSet ?cut)" for r
  proof -
    obtain c0 where c0: "c0 \<in> set srcs" "r = (cr c0)\<lparr>Ports := []\<rparr>" using r by (auto simp: securityRuleSet_def cut)
    then show ?thesis using c [OF c0(1)] by (auto simp: piece_ok_def port_cond_ok_def has_range_def)
  qed
  have "matches a ?p" using assms(7,9,11) by (simp add: matches_def proto_match_def port_match_def)
  then obtain c0 where c0: "c0 \<in> set srcs" "matches (cr c0) ?p" "\<not> netCut c0"
    using s assms(12) by (auto simp: cut_state_def dimensions_def)
  then have "(cr c0)\<lparr>Ports := []\<rparr> \<in> set (securityRuleSet ?cut)"
    by (force simp: securityRuleSet_def isCut_def cut)
  moreover have "matches ((cr c0)\<lparr>Ports := []\<rparr>) \<lparr>pproto = PROTO_TCP, paddr = x, pport = y\<rparr>"
    using c0(2) c [OF c0(1)] by (auto simp: matches_def proto_match_def port_match_def has_range_def)
  ultimately show ?thesis
    using AllowList_two [OF assms(1,3,5) e] ok by (auto simp: list_ex_iff)
qed

lemma denied_range_opens_ports_witness:
  "\<exists>res. AllowList insertion_sort [hd demo_rules\<lparr>PortStart := 80, PortEnd := 90\<rparr>, demo_allow [80, 81]] = Some (Some res) \<and>
     list_ex (\<lambda>r. matches r \<lparr>pproto = PROTO_TCP, paddr = 7, pport = 22\<rparr>) res"
proof -
  have n: "\<not> net_contains (demo_net 10 8) 7" by code_simp
  show ?thesis
    using insertion_sort_sorts net_contains_demo [of 7] n
    by (intro denied_range_opens_ports) (simp_all add: sorts_def demo_simps demo_rules_def)
qed

end
