(* ===== verification/Rule_Text.thy ===== *)
theory Rule_Text
  imports Sec_Rules
begin

text \<open>
  The textual form of security rules, \<^verbatim>\<open>SecurityRule.String\<close> and \<^verbatim>\<open>ParseSecurityRule\<close> of
  \<^verbatim>\<open>vendor/yunion.io/x/pkg/util/secrules/secrules.go\<close>, as the security group rules of the
  compute service are stored: a printed rule is read back as a rule that matches the same
  packets.
\<close>

unbundle bit_operations_syntax

section \<open>Addresses\<close>

lemma digits_value_le: "digits_value b ds a = Some n \<Longrightarrow> 0 < b \<Longrightarrow> a \<le> n"
proof (induction b ds a rule: digits_value.induct)
  case (2 b c cs a)
  then obtain d where "d < b" "digits_value b cs (a * b + d) = Some n" "digit_value c = Some d" by (auto split: option.splits if_splits)
  with 2 have "a * b + d \<le> n" by auto
  moreover have "a \<le> a * b" using 2(3) by simp
  ultimately show ?case by linarith
qed simp

definition stops :: "string \<Rightarrow> bool" where
  "stops rest \<longleftrightarrow> (case rest of [] \<Rightarrow> True | c # _ \<Rightarrow> digit_value c = None)"

lemma toi_loop_digits:
  "digits_value 10 ds a = Some n \<Longrightarrow> n < 0xFFFFFF \<Longrightarrow> stops rest \<Longrightarrow> toi_loop 10 a (ds @ rest) = Some (n, rest)"
proof (induction "10::nat" ds a rule: digits_value.induct)
  case (1 a)
  then show ?case by (cases rest) (auto simp: stops_def)
next
  case (2 c cs a)
  then obtain d where d: "d < 10" "digits_value 10 cs (a * 10 + d) = Some n" "digit_value c = Some d"
    by (auto split: option.splits if_splits)
  then have "a * 10 + d \<le> n" using digits_value_le by auto
  then show ?case using 2 d by simp
qed

lemma toi_dec:
  assumes "n < 0xFFFFFF" and "stops rest"
  shows "toi 10 (dec_nat n @ rest) = Some (n, rest)"
proof -
  have "dec_nat n \<noteq> []" by simp
  then show ?thesis
    unfolding toi_def toi_loop_digits [OF digits_value_dec_nat assms] by simp
qed

lemma stops_punct: "stops []" "stops (CHR ''.'' # s)" "stops (CHR ''/'' # s)"
  by (simp_all add: stops_def digit_value_def)

lemma toi_byte: "stops rest \<Longrightarrow> toi 10 (byte_text b @ rest) = Some (unat b, rest)"
proof -
  have "unat b < 256" using unsigned_less [of b] by simp
  then show "stops rest \<Longrightarrow> ?thesis" unfolding byte_text_def by (intro toi_dec) simp_all
qed

lemma parseIPv4_step:
  assumes "stops rest"
  shows "parseIPv4_loop (Suc i) (byte_text x @ rest) [] = parseIPv4_loop i rest [x]"
    and "p \<noteq> [] \<Longrightarrow> parseIPv4_loop (Suc i) (CHR ''.'' # byte_text x @ rest) p = parseIPv4_loop i rest (p @ [x])"
proof -
  have "unat x < 256" using unsigned_less [of x] by simp
  then have "\<not> unat x > 255" by simp
  then show "parseIPv4_loop (Suc i) (byte_text x @ rest) [] = parseIPv4_loop i rest [x]"
    "p \<noteq> [] \<Longrightarrow> parseIPv4_loop (Suc i) (CHR ''.'' # byte_text x @ rest) p = parseIPv4_loop i rest (p @ [x])"
    using toi_byte [OF assms, of x] by (simp_all add: byte_text_def)
qed

lemma parseIPv4_dotted: "parseIPv4 (dotted [a, b, c, d]) = net_IPv4 a b c d"
proof -
  have h: "dotted [a, b, c, d] = byte_text a @ CHR ''.'' # byte_text b @ CHR ''.'' # byte_text c @ CHR ''.'' # byte_text d @ []"
    by (simp add: dotted_def)
  have four: "4 = Suc (Suc (Suc (Suc 0)))" by simp
  have "parseIPv4_loop 4 (dotted [a, b, c, d]) [] = Some [a, b, c, d]"
    unfolding h four using stops_punct by (simp only: parseIPv4_step append_Cons append_Nil list.distinct not_False_eq_True parseIPv4_loop.simps(1) if_True) simp
  then show ?thesis by (simp add: parseIPv4_def)
qed

lemma find_dot: "\<forall>x \<in> set s. \<not> P x \<Longrightarrow> P c \<Longrightarrow> find P (s @ c # t) = Some c"
  by (induction s) auto

lemma net_ParseIP_dotted: "net_ParseIP (dotted [a, b, c, d]) = net_IPv4 a b c d"
proof -
  have "find (\<lambda>x. x = CHR ''.'' \<or> x = CHR '':'') (byte_text a @ CHR ''.'' # s) = Some (CHR ''.'')" for s
    using byte_text_chars [of _ a] not_digit_punct by (intro find_dot) auto
  moreover have "\<exists>s. dotted [a, b, c, d] = byte_text a @ CHR ''.'' # s" by (simp add: dotted_def)
  ultimately show ?thesis using parseIPv4_dotted [of a b c d] unfolding net_ParseIP_def by auto
qed

section \<open>Networks\<close>

lemma be32_be32_get: "be32 (be32_get [a, b, c, d]) = [a, b, c, d]"
proof -
  have "ucast (drop_bit 24 (be32_get [a, b, c, d])) = a" "ucast (drop_bit 16 (be32_get [a, b, c, d])) = b"
    "ucast (drop_bit 8 (be32_get [a, b, c, d])) = c" "ucast (be32_get [a, b, c, d]) = d"
    by (rule bit_word_eqI, auto simp: be32_get_def bit_simps dest: bit_imp_le_length)+
  then show ?thesis by (simp add: be32_def)
qed

lemma be32_and: "map2 (AND) (be32 v) (be32 w) = be32 (v AND w)"
  by (simp add: be32_def) (intro conjI; rule bit_word_eqI; auto simp: bit_simps)

lemma CIDRMask_be32: "l \<le> 32 \<Longrightarrow> net_CIDRMask l 32 = be32 (NOT (mask (32 - l)))"
proof -
  have "list_all (\<lambda>l. net_CIDRMask l 32 = be32 (NOT (mask (32 - l)))) [0..<33]" by code_simp
  then show "l \<le> 32 \<Longrightarrow> ?thesis" by (simp add: list_all_iff)
qed

text \<open>The network read back contains the same addresses.\<close>

definition masked_net :: "32 word \<Rightarrow> nat \<Rightarrow> IPNet" where
  "masked_net a l = \<lparr>IP = be32 (a AND NOT (mask (32 - l))), Mask = be32 (NOT (mask (32 - l)))\<rparr>"

lemma net_len_mask: "l \<le> 32 \<Longrightarrow> simpleMaskLength (be32 (NOT (mask (32 - l)))) = Some l"
  using mask_bytes [of "32 - l"] by simp

lemma masked_net_v4:
  assumes "l \<le> 32"
  shows "v4net (masked_net a l)" and "net_contains (masked_net a l) x \<longleftrightarrow> x AND NOT (mask (32 - l)) = a AND NOT (mask (32 - l))"
proof -
  have t: "To4 (be32 w) = be32 w" for w by (simp add: To4_def)
  have "be32 w \<noteq> []" for w by (simp add: be32_def)
  then show "v4net (masked_net a l)" using net_len_mask [OF assms] by (simp add: v4net_def masked_net_def t)
  have "net_len (masked_net a l) = l" "net_addr (masked_net a l) = a AND NOT (mask (32 - l))"
    using net_len_mask [OF assms] by (simp_all add: net_len_def net_addr_def masked_net_def t)
  then show "net_contains (masked_net a l) x \<longleftrightarrow> x AND NOT (mask (32 - l)) = a AND NOT (mask (32 - l))"
    using assms by (simp add: net_contains_def Masklen2Mask_eq)
qed

lemma ParseCIDR_text:
  assumes "l \<le> 32"
  shows "net_ParseCIDR (dotted [a, b, c, d] @ ''/'' @ dec_nat l) = Some (net_IPv4 a b c d, masked_net (be32_get [a, b, c, d]) l)"
proof -
  let ?w = "be32_get [a, b, c, d]"
  have ns: "\<forall>x \<in> set (dotted [a, b, c, d]). x \<noteq> CHR ''/''" using dotted_chars not_digit_punct by blast
  then have t: "takeWhile (\<lambda>x. x \<noteq> CHR ''/'') (dotted [a, b, c, d] @ CHR ''/'' # s) = dotted [a, b, c, d]"
    "dropWhile (\<lambda>x. x \<noteq> CHR ''/'') (dotted [a, b, c, d] @ CHR ''/'' # s) = CHR ''/'' # s" for s
    by (simp_all add: takeWhile_append dropWhile_append)
  have i: "toi 10 (dec_nat l) = Some (l, [])" using toi_dec [of l "[]"] assms stops_punct(1) by simp
  have n: "net_IPv4 a b c d \<noteq> []" by (simp add: net_IPv4_def)
  have m: "IP_Mask (net_IPv4 a b c d) (be32 w) = be32 (?w AND w)" for w
    using be32_and [of ?w w] by (simp add: IP_Mask_def net_IPv4_def be32_be32_get Let_def)
  show ?thesis
    using t [of "dec_nat l"] i n assms by (simp add: net_ParseCIDR_def parseIPv4_dotted Let_def CIDRMask_be32 m masked_net_def)
qed

definition net_text :: "IPNet \<Rightarrow> string" where
  "net_text n = (if fst (Mask_Size (Mask n)) < 32 then IPNet_String n else IP_String (IP n))"

lemma no_colon: "CHR '':'' \<notin> set (dotted [a, b, c, d])" "CHR '':'' \<notin> set (dec_nat n)"
  using dotted_chars [of "CHR '':''" a b c d] dec_nat_digits [of "CHR '':''" n] not_digit_punct by auto

lemma parse_net_text:
  assumes "v4net n"
  shows "\<exists>n'. parse_net (net_text n) = Some n' \<and> v4net n' \<and> (\<forall>x. net_contains n' x \<longleftrightarrow> net_contains n x)"
proof -
  note l = net_len_le [OF assms]
  obtain a b c d where ip: "To4 (IP n) = [a, b, c, d]" and s: "IPNet_String n = dotted [a, b, c, d] @ ''/'' @ dec_nat (net_len n)"
    using IPNet_String_v4 [OF assms] by blast
  have c: "net_contains n x \<longleftrightarrow> x AND NOT (mask (32 - net_len n)) = be32_get [a, b, c, d] AND NOT (mask (32 - net_len n))" for x
    using l by (simp add: net_contains_def Masklen2Mask_eq net_addr_def ip)
  have z: "Mask_Size (Mask n) = (net_len n, 32)" using assms by (auto simp: Mask_Size_def v4net_def net_len_def)
  show ?thesis
  proof (cases "net_len n < 32")
    case True
    then have t: "net_text n = dotted [a, b, c, d] @ ''/'' @ dec_nat (net_len n)" by (simp add: net_text_def z s)
    then have "MatchCIDR (net_text n)" using ParseCIDR_text [OF l] no_colon by (simp add: MatchCIDR_def)
    then have "parse_net (net_text n) = Some (masked_net (be32_get [a, b, c, d]) (net_len n))"
      using ParseCIDR_text [OF l] by (simp add: parse_net_def t)
    then show ?thesis using masked_net_v4 [OF l] c by auto
  next
    case False
    then have f: "net_len n = 32" using l by simp
    have t: "net_text n = dotted [a, b, c, d]" using f by (simp add: net_text_def z IP_String_v4 [OF ip])
    have "CHR ''/'' \<notin> set (dotted [a, b, c, d])" using dotted_chars not_digit_punct by blast
    then have "\<not> MatchCIDR (net_text n)" by (simp add: MatchCIDR_def net_ParseCIDR_def t)
    moreover have ne: "net_IPv4 a b c d \<noteq> []" by (simp add: net_IPv4_def)
    ultimately have p: "parse_net (net_text n) = Some \<lparr>IP = net_IPv4 a b c d, Mask = net_CIDRMask 32 32\<rparr>"
      by (simp add: parse_net_def MatchIPAddr_def t net_ParseIP_dotted)
    let ?n = "\<lparr>IP = net_IPv4 a b c d, Mask = net_CIDRMask 32 32\<rparr>"
    have len: "simpleMaskLength (net_CIDRMask 32 32) = Some 32" using net_len_mask [of 32] CIDRMask_be32 [of 32] by simp
    then have "v4net ?n" using CIDRMask_be32 [of 32] by (simp add: v4net_def)
    moreover have "net_contains ?n x \<longleftrightarrow> net_contains n x" for x
      using len f c [of x] by (simp add: net_contains_def net_len_def net_addr_def Masklen2Mask_eq [of 32, simplified])
    ultimately show ?thesis using p by blast
  qed
qed

section \<open>Ports\<close>

lemma parsePortString_dec: "1 \<le> p \<Longrightarrow> p \<le> 65535 \<Longrightarrow> parsePortString (dec_int p) = Inr p"
  by (simp add: parsePortString_def dec_int_def parse_dec_nat)

lemma dec_int_digits: "0 \<le> p \<Longrightarrow> c \<in> set (dec_int p) \<Longrightarrow> is_digit c"
  by (auto simp: dec_int_def dec_nat_digits)

lemma dec_int_not_Nil: "dec_int p \<noteq> []"
  by (simp add: dec_int_def)

lemma not_digit_more: "\<not> is_digit (CHR ''-'')" "\<not> is_digit (CHR '','')" "\<not> is_digit (CHR '' '')"
  by code_simp+

lemma parse_ports_dec: "\<forall>p \<in> set ps. 1 \<le> p \<and> p \<le> 65535 \<Longrightarrow> parse_ports (map dec_int ps) acc = Inr (acc @ ps)"
  by (induction ps arbitrary: acc) (simp_all add: parsePortString_dec)

lemma set_strings_Join: "set (strings_Join sep ss) \<subseteq> set sep \<union> \<Union> (set ` set ss)"
  by (induction sep ss rule: strings_Join.induct) auto

text \<open>The text of the ports of a rule is read back as a port condition with the same meaning.\<close>

definition same_ports :: "SecurityRule \<Rightarrow> SecurityRule \<Rightarrow> SecurityRule \<Rightarrow> bool" where
  "same_ports r rule rule' \<longleftrightarrow> Net rule' = Net rule \<and> Protocol rule' = Protocol rule \<and> Direction rule' = Direction rule \<and>
     Action rule' = Action rule \<and> (\<forall>p. port_match rule' p \<longleftrightarrow> port_match r p)"

lemma ParsePorts_range:
  assumes "1 \<le> s" "s \<le> e" "e \<le> 65535" "Ports rule = []" "Ports r = []" "PortStart r = s" "PortEnd r = e"
  shows "\<exists>rule'. ParsePorts rule (getPort r) = Inr rule' \<and> same_ports r rule rule'"
proof -
  have d: "\<forall>c \<in> set (dec_int p). c \<noteq> CHR ''-'' \<and> c \<noteq> CHR '',''" if "0 \<le> p" for p
    using dec_int_digits [OF that] not_digit_more by blast
  have w: "takeWhile (\<lambda>c. c \<noteq> CHR ''-'') (dec_int s @ CHR ''-'' # t) = dec_int s"
    "dropWhile (\<lambda>c. c \<noteq> CHR ''-'') (dec_int s @ CHR ''-'' # t) = CHR ''-'' # t" for t
    using d [of s] assms(1) by (simp_all add: takeWhile_append dropWhile_append)
  have m: "same_ports r rule (rule\<lparr>PortStart := s, PortEnd := e\<rparr>)"
    using assms by (simp add: same_ports_def port_match_def has_range_def)
  show ?thesis
  proof (cases "s < e")
    case True
    then have g: "getPort r = dec_int s @ CHR ''-'' # dec_int e" using assms by (simp add: getPort_def)
    then have "ParsePorts rule (getPort r) = Inr (rule\<lparr>PortStart := s, PortEnd := e\<rparr>)"
      using True assms w by (simp add: ParsePorts_def parsePortString_dec)
    then show ?thesis using m by blast
  next
    case False
    then have g: "getPort r = dec_int s" "e = s" using assms by (simp_all add: getPort_def)
    have "CHR ''-'' \<notin> set (dec_int s)" "CHR '','' \<notin> set (dec_int s)" using d [of s] assms(1) by auto
    then have "ParsePorts rule (getPort r) = Inr (rule\<lparr>PortStart := s, PortEnd := e\<rparr>)"
      using assms(1-3) by (simp add: g ParsePorts_def dec_int_not_Nil parsePortString_dec)
    then show ?thesis using m by blast
  qed
qed

lemma ParsePorts_list:
  assumes "\<forall>p \<in> set (Ports r). 1 \<le> p \<and> p \<le> 65535" and "Ports r \<noteq> []" and "\<not> has_range r" and "Ports rule = []" "\<not> has_range rule"
  shows "\<exists>rule'. ParsePorts rule (getPort r) = Inr rule' \<and> same_ports r rule rule'"
proof -
  let ?t = "strings_Join '','' (map dec_int (Ports r))"
  have g: "getPort r = ?t" using assms by (auto simp: getPort_def has_range_def)
  have d: "\<forall>c \<in> set (dec_int p). c \<noteq> CHR ''-'' \<and> c \<noteq> CHR '',''" if "p \<in> set (Ports r)" for p
    using dec_int_digits [of p] assms(1) that not_digit_more by fastforce
  have nd: "CHR ''-'' \<notin> set ?t" using set_strings_Join [of "'',''" "map dec_int (Ports r)"] d by auto
  show ?thesis
  proof (cases "Ports r")
    case (Cons p ps)
    show ?thesis
    proof (cases ps)
      case Nil
      have "ParsePorts rule (getPort r) = Inr (rule\<lparr>PortStart := p, PortEnd := p\<rparr>)"
        using assms(1) d [of p] Nil Cons by (auto simp: g ParsePorts_def dec_int_not_Nil parsePortString_dec)
      moreover have "same_ports r rule (rule\<lparr>PortStart := p, PortEnd := p\<rparr>)"
        using assms Nil Cons by (auto simp: same_ports_def port_match_def has_range_def)
      ultimately show ?thesis by blast
    next
      case (Cons q qs)
      have "strings_Split (CHR '','') ?t = map dec_int (Ports r)"
        using assms(2) d by (intro strings_Split_Join) auto
      moreover have "CHR '','' \<in> set ?t" "?t \<noteq> []" by (simp_all add: \<open>Ports r = p # ps\<close> Cons)
      ultimately have "ParsePorts rule (getPort r) = Inr (rule\<lparr>Ports := Ports r\<rparr>)"
        using nd parse_ports_dec [OF assms(1)] by (simp add: g ParsePorts_def)
      moreover have "same_ports r rule (rule\<lparr>Ports := Ports r\<rparr>)"
        using assms by (simp add: same_ports_def port_match_def)
      ultimately show ?thesis by blast
    qed
  qed (use assms(2) in simp)
qed

lemma ParsePorts_text:
  assumes "piece_ok r" and "Ports rule = []" "\<not> has_range rule"
  shows "\<exists>rule'. ParsePorts rule (getPort r) = Inr rule' \<and> same_ports r rule rule'"
proof (cases "has_range r")
  case True
  then show ?thesis using assms by (intro ParsePorts_range) (auto simp: piece_ok_def port_cond_ok_def)
next
  case False
  show ?thesis
  proof (cases "Ports r = []")
    case True
    then have "getPort r = []" using False by (auto simp: getPort_def has_range_def)
    moreover have "same_ports r rule (rule\<lparr>Ports := [], PortStart := - 1, PortEnd := - 1\<rparr>)"
      using True False by (auto simp: same_ports_def port_match_def has_range_def)
    ultimately show ?thesis by (simp add: ParsePorts_def)
  next
    case f: False
    then show ?thesis using assms False by (intro ParsePorts_list) (auto simp: piece_ok_def port_cond_ok_def)
  qed
qed

section \<open>Rules\<close>

definition segs :: "SecurityRule \<Rightarrow> string list" where
  "segs r = [Action r] @ (if IPNet_String (Net r) \<noteq> ''0.0.0.0/0'' then [net_text (Net r)] else []) @ [Protocol r] @
     (if (Protocol r = PROTO_TCP \<or> Protocol r = PROTO_UDP) \<and> getPort r \<noteq> [] then [getPort r] else [])"

lemma rule_String_segs: "rule_String r = Direction r @ '':'' @ strings_Join '' '' (segs r)"
  by (simp add: rule_String_def segs_def net_text_def Let_def)

text \<open>The words of a rule have neither blanks nor colons.\<close>

definition word_ok :: "string \<Rightarrow> bool" where
  "word_ok s \<longleftrightarrow> s \<noteq> [] \<and> list_all (\<lambda>c. c \<noteq> CHR '':'' \<and> c \<notin> {CHR 9, CHR 10, CHR 11, CHR 12, CHR 13, CHR '' ''}) s"

lemma digit_word: "is_digit c \<Longrightarrow> c \<noteq> CHR '':'' \<and> c \<notin> {CHR 9, CHR 10, CHR 11, CHR 12, CHR 13, CHR '' ''}"
  by (auto simp: is_digit_def)

lemma net_text_word:
  assumes "v4net n"
  shows "word_ok (net_text n)"
proof -
  obtain a b c d where ip: "To4 (IP n) = [a, b, c, d]" and s: "IPNet_String n = dotted [a, b, c, d] @ ''/'' @ dec_nat (net_len n)"
    using IPNet_String_v4 [OF assms] by blast
  have "word_ok (dotted [a, b, c, d])"
    using dotted_chars digit_word dotted_not_Nil by (fastforce simp: word_ok_def list_all_iff)
  moreover have "word_ok (dec_nat (net_len n))"
    using dec_nat_digits digit_word by (fastforce simp: word_ok_def list_all_iff)
  ultimately show ?thesis by (simp add: net_text_def s IP_String_v4 [OF ip] word_ok_def)
qed

lemma getPort_word:
  assumes "piece_ok r" and "getPort r \<noteq> []"
  shows "word_ok (getPort r)"
proof -
  have "is_digit c \<or> c = CHR ''-'' \<or> c = CHR '',''" if "c \<in> set (getPort r)" for c
  proof (cases "has_range r")
    case True
    then have "0 \<le> PortStart r" "0 \<le> PortEnd r" by (auto simp: has_range_def)
    moreover have "getPort r = dec_int (PortStart r) @ CHR ''-'' # dec_int (PortEnd r) \<or> getPort r = dec_int (PortStart r) \<or> getPort r = []"
      using True by (simp add: getPort_def has_range_def)
    ultimately show ?thesis using that dec_int_digits [of "PortStart r" c] dec_int_digits [of "PortEnd r" c] by auto
  next
    case False
    then have "getPort r = (if length (Ports r) > 0 then strings_Join '','' (map dec_int (Ports r)) else [])"
      unfolding getPort_def has_range_def by (rule if_not_P)
    then have "c \<in> set (strings_Join '','' (map dec_int (Ports r)))" using that by (cases "Ports r") auto
    then have "c = CHR '','' \<or> (\<exists>p \<in> set (Ports r). c \<in> set (dec_int p))"
      using set_strings_Join [of "'',''" "map dec_int (Ports r)"] by auto
    moreover have "is_digit c" if p: "p \<in> set (Ports r)" "c \<in> set (dec_int p)" for p
    proof -
      have "0 \<le> p" using p(1) assms(1) by (auto simp: piece_ok_def port_cond_ok_def)
      then show ?thesis using p(2) by (rule dec_int_digits)
    qed
    ultimately show ?thesis by blast
  qed
  then have "c \<noteq> CHR '':'' \<and> c \<notin> {CHR 9, CHR 10, CHR 11, CHR 12, CHR 13, CHR '' ''}" if "c \<in> set (getPort r)" for c
    using digit_word that by blast+
  then show ?thesis using assms(2) unfolding word_ok_def list_all_iff by blast
qed

lemma remove_all_none: "CHR '':'' \<notin> set s \<Longrightarrow> CHR '':'' \<in> set old \<Longrightarrow> remove_all old s = s"
proof (induction old s rule: remove_all.induct)
  case (1 old s)
  have "take (length old) s \<noteq> old" using 1(3,4) by (metis in_set_takeD)
  then show ?case using 1 by (subst remove_all.simps) (auto simp: neq_Nil_conv)
qed

lemma strings_Trim_id: "s \<noteq> [] \<Longrightarrow> hd s \<notin> set cs \<Longrightarrow> last s \<notin> set cs \<Longrightarrow> strings_Trim cs s = s"
proof -
  assume s: "s \<noteq> []" "hd s \<notin> set cs" "last s \<notin> set cs"
  then have "dropWhile (\<lambda>c. c \<in> set cs) s = s" by (cases s) auto
  moreover have "dropWhile (\<lambda>c. c \<in> set cs) (rev s) = rev s" using s by (cases s rule: rev_cases) auto
  ultimately show ?thesis by (simp add: strings_Trim_def)
qed

lemma Join_ends:
  "ss \<noteq> [] \<Longrightarrow> \<forall>s \<in> set ss. s \<noteq> [] \<Longrightarrow> strings_Join sep ss \<noteq> [] \<and> hd (strings_Join sep ss) \<in> set (hd ss) \<and> last (strings_Join sep ss) \<in> set (last ss)"
  by (induction sep ss rule: strings_Join.induct) auto

lemma words_parsed:
  assumes "d = ''in'' \<or> d = ''out''" and "ws \<noteq> []" and "\<And>w. w \<in> set ws \<Longrightarrow> word_ok w"
  shows "parse_direction (d @ '':'' @ strings_Join '' '' ws) = Some (d, strings_Join '' '' ws)"
    and "strings_Split (CHR '' '') (TrimSpace (strings_Join '' '' ws)) = ws"
proof -
  let ?t = "strings_Join '' '' ws"
  have e: "?t \<noteq> []" "hd ?t \<in> set (hd ws)" "last ?t \<in> set (last ws)"
    using Join_ends [OF assms(2), of "'' ''"] assms(3) by (auto simp: word_ok_def)
  have nc: "CHR '':'' \<notin> set ?t"
    using set_strings_Join [of "'' ''" ws] assms(3) by (auto simp: word_ok_def list_all_iff)
  have ra: "remove_all (d @ '':'') (d @ CHR '':'' # ?t) = ?t" if "d \<in> {''in'', ''out''}" for d
    using that e(1) remove_all_none [OF nc, of "d @ '':''"] by (subst remove_all.simps) auto
  show "parse_direction (d @ '':'' @ ?t) = Some (d, ?t)"
    using assms(1) ra [of "''in''"] ra [of "''out''"] e(1)
    by (auto simp: parse_direction_def SecurityRuleIngress_def SecurityRuleEgress_def neq_Nil_conv)
  have "word_ok (hd ws)" "word_ok (last ws)" using assms(2,3) by simp_all
  then have "TrimSpace ?t = ?t"
    unfolding TrimSpace_def using e by (intro strings_Trim_id) (auto simp: word_ok_def list_all_iff)
  then show "strings_Split (CHR '' '') (TrimSpace ?t) = ws"
    using assms(2,3) by (auto simp: word_ok_def list_all_iff intro!: strings_Split_Join)
qed

lemma parse_net_protocol: "proto \<in> {PROTO_ANY, PROTO_ICMP, PROTO_TCP, PROTO_UDP} \<Longrightarrow> parse_net proto = None"
proof -
  have "parse_net ''any'' = None" "parse_net ''icmp'' = None" "parse_net ''tcp'' = None" "parse_net ''udp'' = None"
    by (simp_all add: parse_net_def MatchCIDR_def MatchIPAddr_def net_ParseCIDR_def net_ParseIP_def)
  then show "proto \<in> {PROTO_ANY, PROTO_ICMP, PROTO_TCP, PROTO_UDP} \<Longrightarrow> ?thesis" by (auto simp: proto_defs)
qed

text \<open>A text of words: action, optional network, protocol, optional ports.\<close>

definition rule_words :: "string \<Rightarrow> string \<Rightarrow> string \<Rightarrow> string \<Rightarrow> string list" where
  "rule_words act nt proto pt = [act] @ (if nt \<noteq> [] then [nt] else []) @ [proto] @ (if pt \<noteq> [] then [pt] else [])"

lemma ParseSecurityRule_words:
  assumes "d = ''in'' \<or> d = ''out''" and "act = SecurityRuleAllow \<or> act = SecurityRuleDeny"
    and "nt \<noteq> [] \<Longrightarrow> word_ok nt \<and> parse_net nt = Some n" and "nt = [] \<Longrightarrow> n = \<lparr>IP = IPv4zero, Mask = net_CIDRMask 0 32\<rparr>"
    and "proto \<in> {PROTO_ANY, PROTO_ICMP, PROTO_TCP, PROTO_UDP}" and "pt \<noteq> [] \<Longrightarrow> word_ok pt"
  defines "rule \<equiv> empty_rule\<lparr>Direction := d, Action := act, Net := n, Protocol := proto\<rparr>"
  shows "ParseSecurityRule (d @ '':'' @ strings_Join '' '' (rule_words act nt proto pt)) =
    (if proto = PROTO_ANY \<or> proto = PROTO_ICMP then Inr rule else ParsePorts rule pt)"
proof -
  let ?ws = "rule_words act nt proto pt"
  have "word_ok act" using assms(2) by (auto simp: word_ok_def SecurityRuleAllow_def SecurityRuleDeny_def)
  moreover have "word_ok proto" using assms(5) by (auto simp: word_ok_def proto_defs)
  ultimately have ws: "w \<in> set ?ws \<Longrightarrow> word_ok w" for w using assms(3,6) by (auto simp: rule_words_def split: if_splits)
  have ne: "?ws \<noteq> []" by (simp add: rule_words_def)
  have w: "parse_direction (d @ '':'' @ strings_Join '' '' ?ws) = Some (d, strings_Join '' '' ?ws)"
    "strings_Split (CHR '' '') (TrimSpace (strings_Join '' '' ?ws)) = ?ws"
    using words_parsed [OF assms(1) ne] ws by blast+
  have act: "\<not> (act \<noteq> SecurityRuleAllow \<and> act \<noteq> SecurityRuleDeny)" using assms(2) by blast
  note body = ParseSecurityRule_def [of "d @ '':'' @ strings_Join '' '' ?ws", unfolded w(1) option.case prod.case w(2) Let_def]
  show ?thesis
  proof (cases "nt = []")
    case False
    then have p: "parse_net nt = Some n" using assms(3) by simp
    have s: "next_seg ?ws 0 = (act, 1)" "next_seg ?ws 1 = (nt, 2)" "next_seg ?ws 2 = (proto, 3)" "fst (next_seg ?ws 3) = pt"
      using False by (auto simp: next_seg_def rule_words_def)
    show ?thesis
      unfolding body s(1-3) prod.case p option.case using act assms(5) s(4) by (simp add: rule_def) blast
  next
    case True
    have s: "next_seg ?ws 0 = (act, 1)" "next_seg ?ws 1 = (proto, 2)" "fst (next_seg ?ws 2) = pt"
      using True by (auto simp: next_seg_def rule_words_def)
    have two: "(2::nat) - 1 = 1" by simp
    show ?thesis
      unfolding body s(1,2) prod.case parse_net_protocol [OF assms(5)] option.case two using act assms(5) s(3) assms(4) [OF True]
      by (simp add: rule_def) blast
  qed
qed

section \<open>Reading back a rule\<close>

text \<open>The network of the parsed rule: the one printed, or all addresses when none is printed.\<close>

lemma zero_net: "v4net \<lparr>IP = IPv4zero, Mask = net_CIDRMask 0 32\<rparr>"
  "IPNet_String n = ''0.0.0.0/0'' \<Longrightarrow> v4net n \<Longrightarrow> net_contains n x \<longleftrightarrow> net_contains \<lparr>IP = IPv4zero, Mask = net_CIDRMask 0 32\<rparr> x"
proof -
  let ?z = "\<lparr>IP = IPv4zero, Mask = net_CIDRMask 0 32\<rparr>"
  show v: "v4net ?z" by code_simp
  have "IPNet_String ?z = ''0.0.0.0/0''" by code_simp
  then show "IPNet_String n = ''0.0.0.0/0'' \<Longrightarrow> v4net n \<Longrightarrow> net_contains n x \<longleftrightarrow> net_contains ?z x"
    using netEquals_contains [of "empty_rule\<lparr>Net := n\<rparr>" "empty_rule\<lparr>Net := ?z\<rparr>"] v by (simp add: netEquals_def)
qed

lemma rule_text_read:
  assumes "rule_ok r"
  shows "\<exists>r'. ParseSecurityRule (rule_String r) = Inr r' \<and> Direction r' = Direction r \<and> Action r' = Action r \<and>
     Protocol r' = Protocol r \<and> (\<forall>p. matches r' p = matches r p)"
proof -
  have v: "v4net (Net r)" and pr: "Protocol r \<in> {PROTO_ANY, PROTO_ICMP, PROTO_TCP, PROTO_UDP}"
    using rule_ok_piece [OF assms] by (simp_all add: piece_ok_def)
  let ?net = "IPNet_String (Net r) \<noteq> ''0.0.0.0/0''"
  let ?port = "(Protocol r = PROTO_TCP \<or> Protocol r = PROTO_UDP) \<and> getPort r \<noteq> []"
  obtain n where n: "(if ?net then parse_net (net_text (Net r)) = Some n else n = \<lparr>IP = IPv4zero, Mask = net_CIDRMask 0 32\<rparr>)"
    "\<forall>x. net_contains n x \<longleftrightarrow> net_contains (Net r) x"
    using parse_net_text [OF v] zero_net(2) [OF _ v] by (cases ?net) auto
  define rule where "rule = empty_rule\<lparr>Direction := Direction r, Action := Action r, Net := n, Protocol := Protocol r\<rparr>"
  have nw: "word_ok (net_text (Net r))" "net_text (Net r) \<noteq> []" using net_text_word [OF v] by (simp_all add: word_ok_def)
  then have segs: "segs r = rule_words (Action r) (if ?net then net_text (Net r) else []) (Protocol r) (if ?port then getPort r else [])"
    by (auto simp: segs_def rule_words_def word_ok_def)
  have "ParseSecurityRule (rule_String r) =
      (if Protocol r = PROTO_ANY \<or> Protocol r = PROTO_ICMP then Inr rule else ParsePorts rule (if ?port then getPort r else []))"
    unfolding rule_String_segs segs rule_def
    using rule_ok_action [OF assms] pr n(1) nw getPort_word [OF rule_ok_piece [OF assms]]
    by (intro ParseSecurityRule_words) (auto split: if_splits)
  moreover have "Protocol r = PROTO_ANY \<or> Protocol r = PROTO_ICMP \<or> (if ?port then getPort r else []) = getPort r" using pr by auto
  ultimately have e: "ParseSecurityRule (rule_String r) =
      (if Protocol r = PROTO_ANY \<or> Protocol r = PROTO_ICMP then Inr rule else ParsePorts rule (getPort r))" by auto
  have "\<exists>r'. ParseSecurityRule (rule_String r) = Inr r' \<and> same_ports r rule r'"
  proof (cases "Protocol r = PROTO_ANY \<or> Protocol r = PROTO_ICMP")
    case True
    then have "\<not> (Protocol r = PROTO_TCP \<or> Protocol r = PROTO_UDP)" by (auto simp: proto_defs)
    then have "\<not> (has_range r \<or> Ports r \<noteq> [])" using rule_ok_ports [OF assms] by blast
    then have "same_ports r rule rule" by (auto simp: same_ports_def port_match_def rule_def empty_rule_def has_range_def)
    then show ?thesis unfolding e using True by simp
  next
    case False
    have "Ports rule = []" "\<not> has_range rule" by (simp_all add: rule_def empty_rule_def has_range_def)
    from ParsePorts_text [OF rule_ok_piece [OF assms] this] show ?thesis unfolding e using False by simp
  qed
  then obtain r' where r': "ParseSecurityRule (rule_String r) = Inr r'" "same_ports r rule r'" by blast
  moreover have "matches r' p = matches r p" for p
    using r'(2) n(2) by (simp add: same_ports_def rule_def matches_def proto_match_def)
  ultimately show ?thesis by (simp add: same_ports_def rule_def)
qed

section \<open>Properties\<close>

text \<open>
  C11. A valid IPv4 rule is read back from its text: parsing the printed rule succeeds and
  gives a rule with the same direction, action and protocol that matches the same packets.
\<close>

theorem rule_text_roundtrip:
  assumes "rule_ok r"
  shows "\<exists>r'. ParseSecurityRule (rule_String r) = Inr r' \<and> Direction r' = Direction r \<and> Action r' = Action r \<and>
     Protocol r' = Protocol r \<and> (\<forall>p. matches r' p = matches r p)"
  using assms by (rule rule_text_read)

lemma rule_text_roundtrip_witness:
  "\<exists>r'. ParseSecurityRule (rule_String (hd demo_rules)) = Inr r' \<and> Direction r' = Direction (hd demo_rules) \<and>
     Action r' = Action (hd demo_rules) \<and> Protocol r' = Protocol (hd demo_rules) \<and> (\<forall>p. matches r' p = matches (hd demo_rules) p)"
  using rules_ok_demo by (intro rule_text_roundtrip) (simp add: rules_ok_def demo_rules_def)

end
