(* ===== verification/Rule_Sets.thy ===== *)
theory Rule_Sets
  imports Rule_Text "HOL-Library.AList" "HOL-Library.Product_Lexorder"
begin

text \<open>
  The rule sets in which security groups are compared,
  \<^verbatim>\<open>vendor/yunion.io/x/pkg/util/secrules/securityruleset.go\<close>: rules are filed by network and
  action, and a rule added to a set is merged with the rules it touches.
\<close>

section \<open>Rule sets of security groups\<close>

definition protoRelation :: "SecurityRule \<Rightarrow> SecurityRule \<Rightarrow> Relation" where
  "protoRelation rule r =
     (if Direction rule \<noteq> Direction r then RELATION_INDEPENDENT
      else if Protocol rule = Protocol r then
        if Protocol rule = PROTO_ANY \<or> Protocol rule = PROTO_ICMP then RELATION_IDENTICAL
        else if PortStart rule \<le> 0 \<and> PortStart r \<le> 0 then RELATION_IDENTICAL
        else if PortStart rule > 0 \<and> PortStart r \<le> 0 then RELATION_SUBSET
        else if PortStart rule \<le> 0 \<and> PortStart r > 0 then RELATION_SUPERSET
        else if PortEnd rule + 1 = PortStart r then RELATION_NEXT_AHEAD
        else if PortStart rule = PortEnd r + 1 then RELATION_NEXT_AFTER
        else if PortEnd rule < PortStart r \<or> PortStart rule > PortEnd r then RELATION_INDEPENDENT
        else if PortStart rule = PortStart r \<and> PortEnd rule = PortEnd r then RELATION_IDENTICAL
        else if PortStart rule \<le> PortStart r \<and> PortEnd rule \<ge> PortEnd r then RELATION_SUPERSET
        else if PortStart rule \<ge> PortStart r \<and> PortEnd rule \<le> PortEnd r then RELATION_SUBSET
        else RELATION_OVERLAP
      else if Protocol rule = PROTO_ANY then RELATION_SUPERSET
      else if Protocol r = PROTO_ANY then RELATION_SUBSET
      else RELATION_INDEPENDENT)"

definition getIPKey :: "SecurityRule \<Rightarrow> string" where
  "getIPKey rule =
     (if IPNet_String (Net rule) = ''0.0.0.0/0'' then ''0.0.0.0/0'' else IPNet_String (Net rule))"

definition merge :: "SecurityRule \<Rightarrow> SecurityRule \<Rightarrow> SecurityRule option" where
  "merge rule r =
     (if getIPKey rule \<noteq> getIPKey r then None
      else if Action rule \<noteq> Action r then None
      else case protoRelation rule r of
        RELATION_NEXT_AHEAD \<Rightarrow> Some (rule\<lparr>PortEnd := PortEnd r\<rparr>)
      | RELATION_NEXT_AFTER \<Rightarrow> Some (rule\<lparr>PortStart := PortStart r\<rparr>)
      | RELATION_OVERLAP \<Rightarrow>
          Some (rule\<lparr>PortStart := (if PortStart rule > PortStart r then PortStart r else PortStart rule),
                     PortEnd := (if PortEnd rule < PortEnd r then PortEnd r else PortEnd rule)\<rparr>)
      | _ \<Rightarrow> None)"

record SecurityGroupSubSubRuleSet =
  ipKey :: string
  ss_rules :: "SecurityRule list option"

definition remove_at :: "nat \<Rightarrow> 'a list \<Rightarrow> 'a list" where
  "remove_at i xs = take i xs @ drop (Suc i) xs"

lemma length_remove_at: "i < length xs \<Longrightarrow> length (remove_at i xs) = length xs - 1"
  by (simp add: remove_at_def)

function add_loop :: "SecurityRule list \<Rightarrow> nat \<Rightarrow> SecurityRule \<Rightarrow> SecurityRule list option" where
  "add_loop rules idx rule =
     (if idx < length rules then
        (case protoRelation (rules ! idx) rule of
           RELATION_INDEPENDENT \<Rightarrow> add_loop rules (idx + 1) rule
         | RELATION_IDENTICAL \<Rightarrow> Some rules
         | RELATION_SUPERSET \<Rightarrow> Some rules
         | RELATION_SUBSET \<Rightarrow> add_loop (remove_at idx rules) idx rule
         | _ \<Rightarrow>
             (case merge rule (rules ! idx) of
                None \<Rightarrow> None
              | Some rule \<Rightarrow> add_loop (remove_at idx rules) 0 rule))
      else Some (rules @ [rule]))"
  by pat_completeness auto

termination add_loop
  by (relation "measures [\<lambda>(rules, idx, rule). length rules, \<lambda>(rules, idx, rule). length rules - idx]")
    (auto simp: length_remove_at)

declare add_loop.simps [simp del]

definition subsub_addRule :: "SecurityGroupSubSubRuleSet \<Rightarrow> SecurityRule \<Rightarrow> SecurityGroupSubSubRuleSet option" where
  "subsub_addRule sssrs rule =
     (case ss_rules sssrs of
        None \<Rightarrow> Some (sssrs\<lparr>ipKey := getIPKey rule, ss_rules := Some [rule]\<rparr>)
      | Some rules \<Rightarrow>
          if ipKey sssrs \<noteq> getIPKey rule then None
          else do { rules \<leftarrow> add_loop rules 0 rule; Some (sssrs\<lparr>ss_rules := Some rules\<rparr>) })"

record SecurityGroupSubRuleSet =
  allowRules :: "SecurityGroupSubSubRuleSet option"
  denyRules :: "SecurityGroupSubSubRuleSet option"

definition empty_subsub :: SecurityGroupSubSubRuleSet where
  "empty_subsub = \<lparr>ipKey = [], ss_rules = None\<rparr>"

definition sub_addRule :: "SecurityGroupSubRuleSet \<Rightarrow> SecurityRule \<Rightarrow> SecurityGroupSubRuleSet option" where
  "sub_addRule ssrs rule =
     (if Action rule = SecurityRuleAllow then
        do { s \<leftarrow> subsub_addRule (case allowRules ssrs of None \<Rightarrow> empty_subsub | Some s \<Rightarrow> s) rule;
             Some (ssrs\<lparr>allowRules := Some s\<rparr>) }
      else
        do { s \<leftarrow> subsub_addRule (case denyRules ssrs of None \<Rightarrow> empty_subsub | Some s \<Rightarrow> s) rule;
             Some (ssrs\<lparr>denyRules := Some s\<rparr>) })"

definition subsub_rules :: "SecurityGroupSubSubRuleSet option \<Rightarrow> SecurityRule list" where
  "subsub_rules s = (case s of None \<Rightarrow> [] | Some s \<Rightarrow> slice_of (ss_rules s))"

definition getDirectionRules :: "SecurityGroupSubRuleSet \<Rightarrow> SecurityRule list \<times> SecurityRule list" where
  "getDirectionRules ssrs =
     (filter (\<lambda>rule. Direction rule = ''in'') (subsub_rules (allowRules ssrs)),
      filter (\<lambda>rule. Direction rule \<noteq> ''in'') (subsub_rules (allowRules ssrs)))"

text \<open>\<^verbatim>\<open>sort.SliceStable\<close> by priority and text.\<close>

definition isRuleEqual :: "SecurityRule list \<Rightarrow> SecurityRule list \<Rightarrow> bool" where
  "isRuleEqual rules rules' =
     (if length rules \<noteq> length rules' then False
      else map rule_String (sort_key (\<lambda>r. (Priority r, rule_String r)) rules) =
           map rule_String (sort_key (\<lambda>r. (Priority r, rule_String r)) rules'))"

definition sub_isEqual :: "SecurityGroupSubRuleSet \<Rightarrow> SecurityGroupSubRuleSet option \<Rightarrow> bool" where
  "sub_isEqual ssrs s =
     (case s of
        None \<Rightarrow> False
      | Some s \<Rightarrow>
          let (inRules, outRules) = getDirectionRules ssrs; (inRules', outRules') = getDirectionRules s in
          isRuleEqual inRules inRules' \<and> isRuleEqual outRules outRules')"

text \<open>The map from networks to their rules as an association list.\<close>

type_synonym SecurityGroupRuleSet = "(string \<times> SecurityGroupSubRuleSet) list"

definition empty_sub :: SecurityGroupSubRuleSet where
  "empty_sub = \<lparr>allowRules = None, denyRules = None\<rparr>"

fun add_ports :: "SecurityRule \<Rightarrow> int list \<Rightarrow> SecurityGroupSubRuleSet \<Rightarrow> SecurityGroupSubRuleSet option" where
  "add_ports rule [] ssrs = Some ssrs"
| "add_ports rule (p # ports) ssrs =
     do { ssrs \<leftarrow> sub_addRule ssrs (rule\<lparr>PortStart := p, PortEnd := p\<rparr>); add_ports rule ports ssrs }"

definition AddRule :: "SecurityGroupRuleSet \<Rightarrow> SecurityRule \<Rightarrow> SecurityGroupRuleSet option" where
  "AddRule srs rule =
     (let key = getIPKey rule;
          ssrs = (case map_of srs key of None \<Rightarrow> empty_sub | Some s \<Rightarrow> s) in
      do {
        ssrs \<leftarrow> (if length (Ports rule) > 0 then add_ports (rule\<lparr>Ports := []\<rparr>) (Ports rule) ssrs
                else sub_addRule ssrs rule);
        Some (AList.update key ssrs srs)
      })"

definition getSubRuleSet :: "SecurityGroupRuleSet \<Rightarrow> string \<Rightarrow> SecurityGroupSubRuleSet option" where
  "getSubRuleSet srs key = map_of srs key"

definition getAllowRules :: "SecurityGroupRuleSet \<Rightarrow> SecurityRule list" where
  "getAllowRules srs = concat (map (\<lambda>(k, v). subsub_rules (allowRules v)) srs)"

definition getDenyRules :: "SecurityGroupRuleSet \<Rightarrow> SecurityRule list" where
  "getDenyRules srs = concat (map (\<lambda>(k, v). subsub_rules (denyRules v)) srs)"

definition IsEqual :: "SecurityGroupRuleSet \<Rightarrow> SecurityGroupRuleSet \<Rightarrow> bool" where
  "IsEqual srs src \<longleftrightarrow> length srs = length src \<and> list_all (\<lambda>(k, v). sub_isEqual v (getSubRuleSet src k)) srs"

definition ruleset_String :: "SecurityGroupRuleSet \<Rightarrow> string" where
  "ruleset_String srs = set_String (getAllowRules srs @ getDenyRules srs)"

section \<open>Adding a rule\<close>

text \<open>Rules as they are kept in a set: no port list, and a proper port range or none.\<close>

definition flat_ok :: "SecurityRule \<Rightarrow> bool" where
  "flat_ok r \<longleftrightarrow> v4net (Net r) \<and> Protocol r \<in> {PROTO_ANY, PROTO_ICMP, PROTO_TCP, PROTO_UDP} \<and> Ports r = [] \<and>
     (Direction r = ''in'' \<or> Direction r = ''out'') \<and>
     (PortStart r > 0 \<longrightarrow> PortStart r \<le> PortEnd r \<and> PortEnd r \<le> 65535) \<and> (PortStart r \<le> 0 \<longrightarrow> PortEnd r \<le> 0) \<and>
     (Protocol r = PROTO_ANY \<or> Protocol r = PROTO_ICMP \<longrightarrow> PortStart r \<le> 0)"

definition dir_match :: "string \<Rightarrow> SecurityRule \<Rightarrow> packet \<Rightarrow> bool" where
  "dir_match dir r p \<longleftrightarrow> Direction r = dir \<and> matches r p"

lemma getIPKey_String: "getIPKey r = IPNet_String (Net r)"
  by (simp add: getIPKey_def)

lemma flat_range: "flat_ok r \<Longrightarrow> has_range r \<longleftrightarrow> PortStart r > 0"
  by (auto simp: flat_ok_def has_range_def)

lemma flat_matches:
  assumes "flat_ok r"
  shows "matches r p \<longleftrightarrow> (Protocol r = PROTO_ANY \<or> Protocol r = pproto p) \<and> net_contains (Net r) (paddr p) \<and>
    (pproto p = PROTO_ICMP \<or> PortStart r \<le> 0 \<or> in_ports p (PortStart r) (PortEnd r))"
  using flat_range [OF assms] assms by (auto simp: matches_def proto_match_def port_match_def flat_ok_def)

lemma same_key_contains: "flat_ok a \<Longrightarrow> flat_ok b \<Longrightarrow> getIPKey a = getIPKey b \<Longrightarrow> net_contains (Net a) x \<longleftrightarrow> net_contains (Net b) x"
  by (rule netEquals_contains) (simp_all add: flat_ok_def getIPKey_String netEquals_def)

text \<open>What each relation says of the two rules.\<close>

lemma relation_identical:
  "protoRelation a b = RELATION_IDENTICAL \<Longrightarrow> Direction a = Direction b \<and> Protocol a = Protocol b \<and>
     (Protocol a = PROTO_ANY \<or> Protocol a = PROTO_ICMP \<or> PortStart a \<le> 0 \<and> PortStart b \<le> 0 \<or> PortStart a = PortStart b \<and> PortEnd a = PortEnd b)"
  by (auto simp: protoRelation_def split: if_splits)

lemma relation_superset:
  "protoRelation a b = RELATION_SUPERSET \<Longrightarrow> Direction a = Direction b \<and>
     (Protocol a = PROTO_ANY \<or> Protocol a = Protocol b \<and> (PortStart a \<le> 0 \<or> PortStart b > 0 \<and> PortStart a \<le> PortStart b \<and> PortEnd a \<ge> PortEnd b))"
  by (auto simp: protoRelation_def split: if_splits)

lemma relation_subset:
  "protoRelation a b = RELATION_SUBSET \<Longrightarrow> Direction a = Direction b \<and>
     (Protocol b = PROTO_ANY \<or> Protocol a = Protocol b \<and> (PortStart b \<le> 0 \<or> PortStart a > 0 \<and> PortStart a \<ge> PortStart b \<and> PortEnd a \<le> PortEnd b))"
  by (auto simp: protoRelation_def split: if_splits)

definition both_ranges :: "SecurityRule \<Rightarrow> SecurityRule \<Rightarrow> bool" where
  "both_ranges a b \<longleftrightarrow> Direction a = Direction b \<and> Protocol a = Protocol b \<and> Protocol a \<noteq> PROTO_ANY \<and> Protocol a \<noteq> PROTO_ICMP \<and>
     PortStart a > 0 \<and> PortStart b > 0"

lemma relation_touching:
  "protoRelation a b = RELATION_NEXT_AHEAD \<Longrightarrow> both_ranges a b \<and> PortEnd a + 1 = PortStart b"
  "protoRelation a b = RELATION_NEXT_AFTER \<Longrightarrow> both_ranges a b \<and> PortStart a = PortEnd b + 1"
  "protoRelation a b = RELATION_OVERLAP \<Longrightarrow> both_ranges a b \<and> PortStart b \<le> PortEnd a \<and> PortStart a \<le> PortEnd b \<and>
     \<not> (PortStart a \<le> PortStart b \<and> PortEnd a \<ge> PortEnd b) \<and> \<not> (PortStart a \<ge> PortStart b \<and> PortEnd a \<le> PortEnd b)"
  by (auto simp: protoRelation_def both_ranges_def split: if_splits)

lemma relation_covers:
  assumes a: "flat_ok a" and b: "flat_ok b" and k: "getIPKey a = getIPKey b"
  shows "protoRelation a b = RELATION_IDENTICAL \<or> protoRelation a b = RELATION_SUPERSET \<Longrightarrow> dir_match dir b p \<Longrightarrow> dir_match dir a p"
    and "protoRelation a b = RELATION_SUBSET \<Longrightarrow> dir_match dir a p \<Longrightarrow> dir_match dir b p"
proof -
  have n: "net_contains (Net a) (paddr p) \<longleftrightarrow> net_contains (Net b) (paddr p)" by (rule same_key_contains [OF a b k])
  have any: "PortStart r \<le> 0" if "Protocol r = PROTO_ANY \<or> Protocol r = PROTO_ICMP" "flat_ok r" for r using that by (simp add: flat_ok_def)
  show "dir_match dir a p" if r: "protoRelation a b = RELATION_IDENTICAL \<or> protoRelation a b = RELATION_SUPERSET" and m: "dir_match dir b p"
    using r
  proof
    assume "protoRelation a b = RELATION_IDENTICAL"
    from relation_identical [OF this] any [OF _ a] any [OF _ b] n m show ?thesis
      by (auto simp: dir_match_def flat_matches [OF a] flat_matches [OF b])
  next
    assume "protoRelation a b = RELATION_SUPERSET"
    from relation_superset [OF this] any [OF _ a] n m show ?thesis
      by (auto simp: dir_match_def flat_matches [OF a] flat_matches [OF b])
  qed
  show "dir_match dir b p" if "protoRelation a b = RELATION_SUBSET" and m: "dir_match dir a p"
    using relation_subset [OF that(1)] any [OF _ b] n m by (auto simp: dir_match_def flat_matches [OF a] flat_matches [OF b])
qed

lemma merge_union:
  assumes x: "flat_ok x" and r: "flat_ok r" and k: "getIPKey x = getIPKey r" and "Action x = Action r"
    and t: "protoRelation x r \<in> {RELATION_NEXT_AHEAD, RELATION_NEXT_AFTER, RELATION_OVERLAP}"
  shows "\<exists>r'. merge r x = Some r' \<and> flat_ok r' \<and> getIPKey r' = getIPKey r \<and> Action r' = Action r \<and>
     (\<forall>dir p. dir_match dir r' p \<longleftrightarrow> dir_match dir r p \<or> dir_match dir x p)"
proof -
  have b: "both_ranges x r" using t relation_touching [of x r] by auto
  have n: "net_contains (Net x) y \<longleftrightarrow> net_contains (Net r) y" for y by (rule same_key_contains [OF x r k])
  have o: "PortStart x \<le> PortEnd x" "PortEnd x \<le> 65535" "PortStart r \<le> PortEnd r" "PortEnd r \<le> 65535" "PortStart x > 0" "PortStart r > 0"
    using x r b by (auto simp: flat_ok_def both_ranges_def)
  have m: "merge r x = Some (r\<lparr>PortStart := min (PortStart r) (PortStart x), PortEnd := max (PortEnd r) (PortEnd x)\<rparr>)"
    and u: "in_ports p (min (PortStart r) (PortStart x)) (max (PortEnd r) (PortEnd x)) \<longleftrightarrow>
      in_ports p (PortStart r) (PortEnd r) \<or> in_ports p (PortStart x) (PortEnd x)" for p
  proof -
    consider (ahead) "PortEnd x + 1 = PortStart r" | (after) "PortStart x = PortEnd r + 1"
      | (overlap) "PortStart r \<le> PortEnd x" "PortStart x \<le> PortEnd r" "\<not> (PortStart x \<le> PortStart r \<and> PortEnd x \<ge> PortEnd r)"
        "\<not> (PortStart x \<ge> PortStart r \<and> PortEnd x \<le> PortEnd r)"
      using t relation_touching [of x r] by blast
    then have "(merge r x = Some (r\<lparr>PortStart := min (PortStart r) (PortStart x), PortEnd := max (PortEnd r) (PortEnd x)\<rparr>)) \<and>
      (in_ports p (min (PortStart r) (PortStart x)) (max (PortEnd r) (PortEnd x)) \<longleftrightarrow>
      in_ports p (PortStart r) (PortEnd r) \<or> in_ports p (PortStart x) (PortEnd x))" for p
    proof cases
      case ahead
      then have "protoRelation r x = RELATION_NEXT_AFTER" using o b by (auto simp: protoRelation_def both_ranges_def)
      then show ?thesis using ahead o k assms(4) by (cases r) (auto simp: merge_def min_def max_def)
    next
      case after
      then have "protoRelation r x = RELATION_NEXT_AHEAD" using o b by (auto simp: protoRelation_def both_ranges_def)
      then show ?thesis using after o k assms(4) by (cases r) (auto simp: merge_def min_def max_def)
    next
      case overlap
      then have "protoRelation r x = RELATION_OVERLAP" using o b by (auto simp: protoRelation_def both_ranges_def)
      then show ?thesis using overlap o k assms(4) by (auto simp: merge_def min_def max_def)
    qed
    then show "merge r x = Some (r\<lparr>PortStart := min (PortStart r) (PortStart x), PortEnd := max (PortEnd r) (PortEnd x)\<rparr>)"
      "in_ports p (min (PortStart r) (PortStart x)) (max (PortEnd r) (PortEnd x)) \<longleftrightarrow>
      in_ports p (PortStart r) (PortEnd r) \<or> in_ports p (PortStart x) (PortEnd x)" for p by blast+
  qed
  let ?r = "r\<lparr>PortStart := min (PortStart r) (PortStart x), PortEnd := max (PortEnd r) (PortEnd x)\<rparr>"
  have f: "flat_ok ?r" using r b o by (auto simp: flat_ok_def both_ranges_def)
  have "dir_match dir ?r p \<longleftrightarrow> dir_match dir r p \<or> dir_match dir x p" for dir p
    using b o n [of "paddr p"] u [of p] unfolding dir_match_def flat_matches [OF f] flat_matches [OF r] flat_matches [OF x]
    by (auto simp: both_ranges_def)
  then show ?thesis using m f by (auto simp: getIPKey_String)
qed

text \<open>The rules kept for one network and one action.\<close>

definition group_ok :: "string \<Rightarrow> string \<Rightarrow> SecurityRule list \<Rightarrow> bool" where
  "group_ok key action rules \<longleftrightarrow> (\<forall>r \<in> set rules. flat_ok r \<and> getIPKey r = key \<and> Action r = action)"

definition covers :: "SecurityRule list \<Rightarrow> string \<Rightarrow> packet \<Rightarrow> bool" where
  "covers rules dir p \<longleftrightarrow> (\<exists>r \<in> set rules. dir_match dir r p)"

lemma set_remove_at: "i < length xs \<Longrightarrow> set xs = insert (xs ! i) (set (remove_at i xs))"
  by (subst id_take_nth_drop [of i xs]) (auto simp: remove_at_def)

lemma add_loop_correct:
  "group_ok key action rules \<Longrightarrow> group_ok key action [rule] \<Longrightarrow>
   \<exists>rules'. add_loop rules idx rule = Some rules' \<and> group_ok key action rules' \<and> rules' \<noteq> [] \<and>
     (\<forall>dir p. covers rules' dir p \<longleftrightarrow> covers rules dir p \<or> dir_match dir rule p)"
proof (induction rules idx rule rule: add_loop.induct)
  case (1 rules idx rule)
  show ?case
  proof (cases "idx < length rules")
    case False
    then show ?thesis using 1(6,7) by (subst add_loop.simps) (auto simp: group_ok_def covers_def)
  next
    case i: True
    let ?x = "rules ! idx"
    have x: "flat_ok ?x" "getIPKey ?x = key" "Action ?x = action" and r: "flat_ok rule" "getIPKey rule = key" "Action rule = action"
      using 1(6,7) i by (auto simp: group_ok_def)
    note s = set_remove_at [OF i]
    have rem: "group_ok key action (remove_at idx rules)" using 1(6) s by (auto simp: group_ok_def)
    have cov: "covers rules dir p \<longleftrightarrow> dir_match dir ?x p \<or> covers (remove_at idx rules) dir p" for dir p
      using s by (auto simp: covers_def)
    have k: "getIPKey ?x = getIPKey rule" using x r by simp
    note rc = relation_covers [OF x(1) r(1) k]
    have mem: "?x \<in> set rules" using i by simp
    have touch: "\<exists>r'. merge rule ?x = Some r' \<and> group_ok key action [r'] \<and>
        (\<forall>dir p. dir_match dir r' p \<longleftrightarrow> dir_match dir rule p \<or> dir_match dir ?x p)"
      if "protoRelation ?x rule \<in> {RELATION_NEXT_AHEAD, RELATION_NEXT_AFTER, RELATION_OVERLAP}"
      using merge_union [OF x(1) r(1) k _ that] x r by (auto simp: group_ok_def)
    show ?thesis
    proof (cases "protoRelation ?x rule")
      case RELATION_INDEPENDENT
      then show ?thesis using 1(1) [OF i RELATION_INDEPENDENT 1(6,7)] i by (subst add_loop.simps) simp
    next
      case RELATION_IDENTICAL
      then have "add_loop rules idx rule = Some rules" using i by (subst add_loop.simps) simp
      moreover have "covers rules dir p \<longleftrightarrow> covers rules dir p \<or> dir_match dir rule p" for dir p
        using rc(1) RELATION_IDENTICAL mem by (auto simp: covers_def)
      ultimately show ?thesis using 1(6) mem by auto
    next
      case RELATION_SUPERSET
      then have "add_loop rules idx rule = Some rules" using i by (subst add_loop.simps) simp
      moreover have "covers rules dir p \<longleftrightarrow> covers rules dir p \<or> dir_match dir rule p" for dir p
        using rc(1) RELATION_SUPERSET mem by (auto simp: covers_def)
      ultimately show ?thesis using 1(6) mem by auto
    next
      case RELATION_SUBSET
      have "add_loop rules idx rule = add_loop (remove_at idx rules) idx rule"
        using i RELATION_SUBSET by (subst add_loop.simps) simp
      then show ?thesis using 1(2) [OF i RELATION_SUBSET rem 1(7)] rc(2) [OF RELATION_SUBSET] cov by auto
    next
      case RELATION_NEXT_AHEAD
      have t: "protoRelation ?x rule \<in> {RELATION_NEXT_AHEAD, RELATION_NEXT_AFTER, RELATION_OVERLAP}" using RELATION_NEXT_AHEAD by simp
      from touch [OF t] obtain r' where r': "merge rule ?x = Some r'" "group_ok key action [r']"
        "\<forall>dir p. dir_match dir r' p \<longleftrightarrow> dir_match dir rule p \<or> dir_match dir ?x p" by blast
      have "add_loop rules idx rule = add_loop (remove_at idx rules) 0 r'" using i RELATION_NEXT_AHEAD r'(1) by (subst add_loop.simps) simp
      then show ?thesis using 1(3) [OF i RELATION_NEXT_AHEAD r'(1) rem r'(2)] r'(3) cov by auto
    next
      case RELATION_NEXT_AFTER
      have t: "protoRelation ?x rule \<in> {RELATION_NEXT_AHEAD, RELATION_NEXT_AFTER, RELATION_OVERLAP}" using RELATION_NEXT_AFTER by simp
      from touch [OF t] obtain r' where r': "merge rule ?x = Some r'" "group_ok key action [r']"
        "\<forall>dir p. dir_match dir r' p \<longleftrightarrow> dir_match dir rule p \<or> dir_match dir ?x p" by blast
      have "add_loop rules idx rule = add_loop (remove_at idx rules) 0 r'" using i RELATION_NEXT_AFTER r'(1) by (subst add_loop.simps) simp
      then show ?thesis using 1(4) [OF i RELATION_NEXT_AFTER r'(1) rem r'(2)] r'(3) cov by auto
    next
      case RELATION_OVERLAP
      have t: "protoRelation ?x rule \<in> {RELATION_NEXT_AHEAD, RELATION_NEXT_AFTER, RELATION_OVERLAP}" using RELATION_OVERLAP by simp
      from touch [OF t] obtain r' where r': "merge rule ?x = Some r'" "group_ok key action [r']"
        "\<forall>dir p. dir_match dir r' p \<longleftrightarrow> dir_match dir rule p \<or> dir_match dir ?x p" by blast
      have "add_loop rules idx rule = add_loop (remove_at idx rules) 0 r'" using i RELATION_OVERLAP r'(1) by (subst add_loop.simps) simp
      then show ?thesis using 1(5) [OF i RELATION_OVERLAP r'(1) rem r'(2)] r'(3) cov by auto
    qed
  qed
qed

section \<open>Rule sets\<close>

definition subsub_ok :: "string \<Rightarrow> string \<Rightarrow> SecurityGroupSubSubRuleSet option \<Rightarrow> bool" where
  "subsub_ok key action s \<longleftrightarrow>
     (\<forall>ss rules. s = Some ss \<longrightarrow> ss_rules ss = Some rules \<longrightarrow> ipKey ss = key \<and> group_ok key action rules)"

definition sub_ok :: "string \<Rightarrow> SecurityGroupSubRuleSet \<Rightarrow> bool" where
  "sub_ok key v \<longleftrightarrow> subsub_ok key SecurityRuleAllow (allowRules v) \<and> subsub_ok key SecurityRuleDeny (denyRules v)"

definition ruleset_ok :: "SecurityGroupRuleSet \<Rightarrow> bool" where
  "ruleset_ok srs \<longleftrightarrow> distinct (map fst srs) \<and> (\<forall>k v. map_of srs k = Some v \<longrightarrow> sub_ok k v)"

lemma subsub_add:
  assumes "subsub_ok key action s" and "group_ok key action [rule]"
  shows "\<exists>ss. subsub_addRule (case s of None \<Rightarrow> empty_subsub | Some s \<Rightarrow> s) rule = Some ss \<and> subsub_ok key action (Some ss) \<and>
     (\<forall>dir p. covers (subsub_rules (Some ss)) dir p \<longleftrightarrow> covers (subsub_rules s) dir p \<or> dir_match dir rule p)"
proof -
  have k: "getIPKey rule = key" using assms(2) by (simp add: group_ok_def)
  show ?thesis
  proof (cases "s = None \<or> (\<exists>ss. s = Some ss \<and> ss_rules ss = None)")
    case True
    then show ?thesis using assms(2) k by (auto simp: subsub_addRule_def empty_subsub_def subsub_ok_def subsub_rules_def covers_def)
  next
    case False
    then obtain ss rules where ss: "s = Some ss" "ss_rules ss = Some rules" by (cases s) auto
    then have "ipKey ss = key" "group_ok key action rules" using assms(1) by (auto simp: subsub_ok_def)
    with add_loop_correct [OF _ assms(2), of rules 0] k ss show ?thesis
      by (auto simp: subsub_addRule_def subsub_ok_def subsub_rules_def)
  qed
qed

text \<open>Adding a rule without a port list keeps the set well-formed and adds what the rule matches to its action.\<close>

definition acts :: "string \<Rightarrow> SecurityGroupSubRuleSet \<Rightarrow> SecurityRule list" where
  "acts action v = subsub_rules (if action = SecurityRuleAllow then allowRules v else denyRules v)"

lemma sub_add:
  assumes "sub_ok key v" and "flat_ok rule" "getIPKey rule = key" and "Action rule = SecurityRuleAllow \<or> Action rule = SecurityRuleDeny"
  shows "\<exists>v'. sub_addRule v rule = Some v' \<and> sub_ok key v' \<and>
     (\<forall>action dir p. action \<in> {SecurityRuleAllow, SecurityRuleDeny} \<longrightarrow>
        (covers (acts action v') dir p \<longleftrightarrow> covers (acts action v) dir p \<or> Action rule = action \<and> dir_match dir rule p))"
proof -
  have g: "group_ok key (Action rule) [rule]" using assms by (simp add: group_ok_def)
  show ?thesis
  proof (cases "Action rule = SecurityRuleAllow")
    case True
    have "subsub_ok key (Action rule) (allowRules v)" using assms(1) True by (simp add: sub_ok_def)
    from subsub_add [OF this g] show ?thesis using True assms(1) action_ne by (auto simp: sub_addRule_def sub_ok_def acts_def)
  next
    case False
    then have "subsub_ok key (Action rule) (denyRules v)" using assms(1,4) by (simp add: sub_ok_def)
    from subsub_add [OF this g] show ?thesis using False assms(1,4) action_ne by (auto simp: sub_addRule_def sub_ok_def acts_def)
  qed
qed

lemma add_ports_covers:
  assumes "\<And>q. q \<in> set ps \<Longrightarrow> flat_ok (rule\<lparr>PortStart := q, PortEnd := q\<rparr>)" and "getIPKey rule = key"
    and "Action rule = SecurityRuleAllow \<or> Action rule = SecurityRuleDeny"
  shows "sub_ok key v \<Longrightarrow> \<exists>v'. add_ports rule ps v = Some v' \<and> sub_ok key v' \<and>
     (\<forall>action dir p. action \<in> {SecurityRuleAllow, SecurityRuleDeny} \<longrightarrow>
        (covers (acts action v') dir p \<longleftrightarrow> covers (acts action v) dir p \<or>
          Action rule = action \<and> (\<exists>q \<in> set ps. dir_match dir (rule\<lparr>PortStart := q, PortEnd := q\<rparr>) p)))"
  using assms(1)
proof (induction ps arbitrary: v)
  case (Cons q ps)
  let ?r = "rule\<lparr>PortStart := q, PortEnd := q\<rparr>"
  from sub_add [OF Cons.prems(1), of ?r] Cons.prems(2) [of q] assms(2,3) obtain v1 where v1: "sub_addRule v ?r = Some v1" "sub_ok key v1"
    "\<forall>action dir p. action \<in> {SecurityRuleAllow, SecurityRuleDeny} \<longrightarrow>
        (covers (acts action v1) dir p \<longleftrightarrow> covers (acts action v) dir p \<or> Action rule = action \<and> dir_match dir ?r p)"
    by (auto simp: getIPKey_String)
  from Cons.IH [OF v1(2)] Cons.prems(2) obtain v2 where v2: "add_ports rule ps v1 = Some v2" "sub_ok key v2"
    "\<forall>action dir p. action \<in> {SecurityRuleAllow, SecurityRuleDeny} \<longrightarrow>
        (covers (acts action v2) dir p \<longleftrightarrow> covers (acts action v1) dir p \<or>
          Action rule = action \<and> (\<exists>q \<in> set ps. dir_match dir (rule\<lparr>PortStart := q, PortEnd := q\<rparr>) p))" by auto
  then show ?case using v1 by auto
qed simp

lemma rule_ok_flat: "rule_ok r \<Longrightarrow> Ports r = [] \<Longrightarrow> flat_ok r"
proof -
  assume r: "rule_ok r" "Ports r = []"
  have "ValidateRule r = None" using r by (simp add: rule_ok_def)
  then have "\<not> ((PortStart r > 0 \<or> PortEnd r > 0) \<and>
        (PortStart r < 1 \<or> PortStart r > PortEnd r \<or> PortStart r > 65535 \<or> PortEnd r > 65535))"
    "\<not> (Protocol r = PROTO_ICMP \<and> (length (Ports r) > 0 \<or> PortStart r > 0 \<or> PortEnd r > 0))"
    "\<not> (Protocol r = PROTO_ANY \<and> (length (Ports r) > 0 \<or> PortStart r > 0 \<or> PortEnd r > 0))"
    unfolding ValidateRule_def if_Some_None by blast+
  moreover have "v4net (Net r)" "Protocol r \<in> {PROTO_ANY, PROTO_ICMP, PROTO_TCP, PROTO_UDP}"
    using rule_ok_piece [OF r(1)] by (simp_all add: piece_ok_def)
  ultimately show ?thesis using r(2) rule_ok_action(2) [OF r(1)] unfolding flat_ok_def by (simp add: not_less not_le) linarith
qed

lemma rule_ok_port:
  assumes "rule_ok r" and "Ports r \<noteq> []" and "q \<in> set (Ports r)"
  shows "flat_ok (r\<lparr>Ports := [], PortStart := q, PortEnd := q\<rparr>)"
proof -
  have "Protocol r = PROTO_TCP \<or> Protocol r = PROTO_UDP" using rule_ok_ports [OF assms(1)] assms(2) by blast
  then show ?thesis using rule_ok_piece [OF assms(1)] rule_ok_action(2) [OF assms(1)] assms(3)
    by (auto simp: piece_ok_def port_cond_ok_def flat_ok_def proto_defs)
qed

lemma port_rules_match:
  assumes "rule_ok r" and "Ports r \<noteq> []"
  shows "dir_match dir r p \<longleftrightarrow> (\<exists>q \<in> set (Ports r). dir_match dir (r\<lparr>Ports := [], PortStart := q, PortEnd := q\<rparr>) p)"
proof -
  have tcp: "Protocol r \<noteq> PROTO_ANY \<and> Protocol r \<noteq> PROTO_ICMP" using rule_ok_ports [OF assms(1)] assms(2) by (auto simp: proto_defs)
  have pos: "0 < q" if "q \<in> set (Ports r)" for q using rule_ok_piece [OF assms(1)] that by (force simp: piece_ok_def port_cond_ok_def)
  show ?thesis using tcp assms(2)
    by (auto simp: dir_match_def matches_def proto_match_def port_match_def has_range_def dest: pos)
qed

definition sub_of :: "SecurityGroupRuleSet \<Rightarrow> string \<Rightarrow> SecurityGroupSubRuleSet" where
  "sub_of srs key = (case map_of srs key of None \<Rightarrow> empty_sub | Some s \<Rightarrow> s)"

definition set_covers :: "string \<Rightarrow> SecurityGroupRuleSet \<Rightarrow> string \<Rightarrow> packet \<Rightarrow> bool" where
  "set_covers action srs dir p \<longleftrightarrow> covers (if action = SecurityRuleAllow then getAllowRules srs else getDenyRules srs) dir p"

lemma acts_empty: "acts action empty_sub = []"
  by (simp add: acts_def empty_sub_def subsub_rules_def)

lemma sub_ok_sub_of: "ruleset_ok srs \<Longrightarrow> sub_ok key (sub_of srs key)"
  by (cases "map_of srs key") (auto simp: sub_of_def ruleset_ok_def sub_ok_def subsub_ok_def empty_sub_def)

lemma sub_cases: "\<not> P empty_sub \<Longrightarrow> (\<exists>k v. map_of srs k = Some v \<and> P v) \<longleftrightarrow> (\<exists>key. P (sub_of srs key))"
  unfolding sub_of_def by (metis option.case_eq_if option.collapse option.sel option.simps(5))

lemma set_covers_sub:
  assumes "ruleset_ok srs"
  shows "set_covers action srs dir p \<longleftrightarrow> (\<exists>key. covers (acts action (sub_of srs key)) dir p)"
proof -
  have d: "distinct (map fst srs)" using assms by (simp add: ruleset_ok_def)
  have "set_covers action srs dir p \<longleftrightarrow> (\<exists>(k, v) \<in> set srs. covers (acts action v) dir p)"
    by (auto simp: set_covers_def covers_def getAllowRules_def getDenyRules_def acts_def)
  also have "\<dots> \<longleftrightarrow> (\<exists>k v. map_of srs k = Some v \<and> covers (acts action v) dir p)"
    using d by (auto simp: map_of_eq_Some_iff)
  also have "\<dots> \<longleftrightarrow> (\<exists>key. covers (acts action (sub_of srs key)) dir p)"
    by (rule sub_cases [of "\<lambda>v. covers (acts action v) dir p"]) (simp add: acts_empty covers_def)
  finally show ?thesis .
qed

lemma AddRule_sub:
  assumes "sub_ok key v" and "rule_ok rule" and "getIPKey rule = key"
  shows "\<exists>v'. (if length (Ports rule) > 0 then add_ports (rule\<lparr>Ports := []\<rparr>) (Ports rule) v else sub_addRule v rule) = Some v' \<and>
     sub_ok key v' \<and> (\<forall>action dir p. action \<in> {SecurityRuleAllow, SecurityRuleDeny} \<longrightarrow>
        (covers (acts action v') dir p \<longleftrightarrow> covers (acts action v) dir p \<or> Action rule = action \<and> dir_match dir rule p))"
proof (cases "Ports rule = []")
  case True
  then show ?thesis
    using sub_add [OF assms(1) rule_ok_flat [OF assms(2)] assms(3)] rule_ok_action(1) [OF assms(2)] by simp
next
  case False
  have "Action rule = SecurityRuleAllow \<or> Action rule = SecurityRuleDeny" using rule_ok_action(1) [OF assms(2)] by simp
  then have "\<exists>v'. add_ports (rule\<lparr>Ports := []\<rparr>) (Ports rule) v = Some v' \<and> sub_ok key v' \<and>
     (\<forall>action dir p. action \<in> {SecurityRuleAllow, SecurityRuleDeny} \<longrightarrow>
        (covers (acts action v') dir p \<longleftrightarrow> covers (acts action v) dir p \<or>
          Action rule = action \<and> (\<exists>q \<in> set (Ports rule). dir_match dir (rule\<lparr>Ports := [], PortStart := q, PortEnd := q\<rparr>) p)))"
    using add_ports_covers [of "Ports rule" "rule\<lparr>Ports := []\<rparr>" key v] rule_ok_port [OF assms(2) False] assms(1,3)
    by (simp add: getIPKey_String)
  then show ?thesis using False port_rules_match [OF assms(2) False] by simp
qed

lemma AddRule_covers:
  assumes "ruleset_ok srs" and "rule_ok rule"
  shows "\<exists>srs'. AddRule srs rule = Some srs' \<and> ruleset_ok srs' \<and>
     (\<forall>action dir p. action \<in> {SecurityRuleAllow, SecurityRuleDeny} \<longrightarrow>
        (set_covers action srs' dir p \<longleftrightarrow> set_covers action srs dir p \<or> Action rule = action \<and> dir_match dir rule p))"
proof -
  let ?k = "getIPKey rule"
  from AddRule_sub [OF sub_ok_sub_of [OF assms(1)] assms(2) refl] obtain v where
    v: "(if length (Ports rule) > 0 then add_ports (rule\<lparr>Ports := []\<rparr>) (Ports rule) (sub_of srs ?k) else sub_addRule (sub_of srs ?k) rule) = Some v"
      "sub_ok ?k v" and
    c: "\<forall>action dir p. action \<in> {SecurityRuleAllow, SecurityRuleDeny} \<longrightarrow>
        (covers (acts action v) dir p \<longleftrightarrow> covers (acts action (sub_of srs ?k)) dir p \<or> Action rule = action \<and> dir_match dir rule p)"
    by blast
  let ?s = "AList.update ?k v srs"
  have a: "AddRule srs rule = Some ?s" unfolding AddRule_def Let_def sub_of_def [symmetric] v(1) by simp
  have ok: "ruleset_ok ?s" using assms(1) v(2) by (auto simp: ruleset_ok_def update_conv' distinct_update)
  have sub: "sub_of ?s key = (if key = ?k then v else sub_of srs key)" for key by (simp add: sub_of_def update_conv')
  have "set_covers action ?s dir p \<longleftrightarrow> set_covers action srs dir p \<or> Action rule = action \<and> dir_match dir rule p"
    if "action \<in> {SecurityRuleAllow, SecurityRuleDeny}" for action dir p
  proof -
    have "covers (acts action (sub_of ?s key)) dir p \<longleftrightarrow>
        covers (acts action (sub_of srs key)) dir p \<or> key = ?k \<and> Action rule = action \<and> dir_match dir rule p" for key
      unfolding sub using c [rule_format, OF that] by (cases "key = ?k") simp_all
    then show ?thesis unfolding set_covers_sub [OF ok] set_covers_sub [OF assms(1)] by blast
  qed
  with a ok show ?thesis by blast
qed

fun AddRules :: "SecurityGroupRuleSet \<Rightarrow> SecurityRule list \<Rightarrow> SecurityGroupRuleSet option" where
  "AddRules srs [] = Some srs"
| "AddRules srs (rule # rules) = do { srs \<leftarrow> AddRule srs rule; AddRules srs rules }"

lemma AddRules_covers:
  "ruleset_ok srs \<Longrightarrow> \<forall>r \<in> set rules. rule_ok r \<Longrightarrow>
   \<exists>srs'. AddRules srs rules = Some srs' \<and> ruleset_ok srs' \<and>
     (\<forall>action dir p. action \<in> {SecurityRuleAllow, SecurityRuleDeny} \<longrightarrow>
        (set_covers action srs' dir p \<longleftrightarrow> set_covers action srs dir p \<or> (\<exists>r \<in> set rules. Action r = action \<and> dir_match dir r p)))"
proof (induction rules arbitrary: srs)
  case (Cons r rules)
  from AddRule_covers [OF Cons.prems(1), of r] Cons.prems(2) obtain s1 where s1: "AddRule srs r = Some s1" "ruleset_ok s1"
    "\<forall>action dir p. action \<in> {SecurityRuleAllow, SecurityRuleDeny} \<longrightarrow>
        (set_covers action s1 dir p \<longleftrightarrow> set_covers action srs dir p \<or> Action r = action \<and> dir_match dir r p)" by auto
  with Cons.IH [OF s1(2)] Cons.prems(2) show ?case by fastforce
qed simp

section \<open>Comparing rule sets\<close>

lemma flat_valid:
  assumes "flat_ok r" and "Action r = SecurityRuleAllow \<or> Action r = SecurityRuleDeny"
  shows "rule_ok (r\<lparr>Priority := 1\<rparr>)"
proof -
  have "ValidateRule (r\<lparr>Priority := 1\<rparr>) = None"
    unfolding ValidateRule_def if_Some_None
  proof (intro conjI)
    have "Protocol r = PROTO_ANY \<or> Protocol r = PROTO_ICMP \<or> Protocol r = PROTO_TCP \<or> Protocol r = PROTO_UDP"
      using assms(1) by (simp add: flat_ok_def)
    then show "\<not> Protocol (r\<lparr>Priority := 1\<rparr>) \<notin> {PROTO_ANY, PROTO_ICMP, PROTO_TCP, PROTO_UDP}" by simp
    have ports: "PortStart r > 0 \<Longrightarrow> PortStart r \<le> PortEnd r \<and> PortEnd r \<le> 65535" "\<not> PortStart r > 0 \<Longrightarrow> \<not> PortEnd r > 0"
      "Protocol r = PROTO_ANY \<or> Protocol r = PROTO_ICMP \<Longrightarrow> \<not> PortStart r > 0" "Ports r = []"
      using assms(1) by (auto simp: flat_ok_def)
    show "\<not> (Protocol (r\<lparr>Priority := 1\<rparr>) = PROTO_ICMP \<and> (0 < length (Ports (r\<lparr>Priority := 1\<rparr>)) \<or>
        0 < PortStart (r\<lparr>Priority := 1\<rparr>) \<or> 0 < PortEnd (r\<lparr>Priority := 1\<rparr>)))" using ports by simp
    show "\<not> (Protocol (r\<lparr>Priority := 1\<rparr>) = PROTO_ANY \<and> (0 < length (Ports (r\<lparr>Priority := 1\<rparr>)) \<or>
        0 < PortStart (r\<lparr>Priority := 1\<rparr>) \<or> 0 < PortEnd (r\<lparr>Priority := 1\<rparr>)))" using ports by simp
    show "\<not> ((0 < PortStart (r\<lparr>Priority := 1\<rparr>) \<or> 0 < PortEnd (r\<lparr>Priority := 1\<rparr>)) \<and>
        (PortStart (r\<lparr>Priority := 1\<rparr>) < 1 \<or> PortEnd (r\<lparr>Priority := 1\<rparr>) < PortStart (r\<lparr>Priority := 1\<rparr>) \<or>
         65535 < PortStart (r\<lparr>Priority := 1\<rparr>) \<or> 65535 < PortEnd (r\<lparr>Priority := 1\<rparr>)))"
      using ports(1,2) by (cases "PortStart r > 0") auto
  qed (use assms in \<open>simp_all add: flat_ok_def\<close>)
  then show ?thesis using assms(1) by (simp add: rule_ok_def flat_ok_def)
qed

lemma priority_text:
  "rule_String (r\<lparr>Priority := n\<rparr>) = rule_String r" "matches (r\<lparr>Priority := n\<rparr>) p = matches r p"
proof -
  have "getPort (r\<lparr>Priority := n\<rparr>) = getPort r" by (simp add: getPort_def)
  then show "rule_String (r\<lparr>Priority := n\<rparr>) = rule_String r" unfolding rule_String_def by (simp cong: if_cong split del: if_split)
  show "matches (r\<lparr>Priority := n\<rparr>) p = matches r p" by (simp add: matches_def proto_match_def port_match_def has_range_def)
qed

lemma flat_same_text:
  assumes "flat_ok a" "Action a = SecurityRuleAllow \<or> Action a = SecurityRuleDeny"
    and "flat_ok b" "Action b = SecurityRuleAllow \<or> Action b = SecurityRuleDeny" and "rule_String a = rule_String b"
  shows "dir_match dir a p \<longleftrightarrow> dir_match dir b p"
proof -
  obtain x where x: "ParseSecurityRule (rule_String a) = Inr x" "Direction x = Direction a" "matches x p = matches a p"
    using rule_text_read [OF flat_valid [OF assms(1,2)]] unfolding priority_text by auto
  obtain y where y: "ParseSecurityRule (rule_String b) = Inr y" "Direction y = Direction b" "matches y p = matches b p"
    using rule_text_read [OF flat_valid [OF assms(3,4)]] unfolding priority_text by auto
  have "x = y" using x(1) y(1) assms(5) by simp
  then show ?thesis using x y by (simp add: dir_match_def)
qed

lemma isRuleEqual_texts: "isRuleEqual a b \<Longrightarrow> rule_String ` set a = rule_String ` set b"
proof -
  assume "isRuleEqual a b"
  then have "map rule_String (sort_key (\<lambda>r. (Priority r, rule_String r)) a) = map rule_String (sort_key (\<lambda>r. (Priority r, rule_String r)) b)"
    unfolding isRuleEqual_def by (simp split: if_split_asm)
  from arg_cong [where f = set, OF this] show ?thesis by simp
qed

lemma isRuleEqual_refl: "isRuleEqual a a"
  by (simp add: isRuleEqual_def)

lemma same_texts_cover:
  assumes "\<forall>r \<in> set a \<union> set b. flat_ok r \<and> Action r = SecurityRuleAllow" and "rule_String ` set a \<subseteq> rule_String ` set b"
  shows "covers a dir p \<Longrightarrow> covers b dir p"
proof -
  assume "covers a dir p"
  then obtain r where r: "r \<in> set a" "dir_match dir r p" by (auto simp: covers_def)
  with assms(2) obtain q where q: "q \<in> set b" "rule_String r = rule_String q" by blast
  have "flat_ok r \<and> Action r = SecurityRuleAllow" "flat_ok q \<and> Action q = SecurityRuleAllow" using assms(1) r(1) q(1) by blast+
  with flat_same_text [of r q dir p] q(2) r(2) have "dir_match dir q p" by blast
  with q(1) show "covers b dir p" by (auto simp: covers_def)
qed

lemma sub_isEqual_covers:
  assumes "sub_ok key v" and "sub_ok key w" and "sub_isEqual v (Some w)"
  shows "covers (acts SecurityRuleAllow v) dir p \<longleftrightarrow> covers (acts SecurityRuleAllow w) dir p"
proof -
  let ?a = "acts SecurityRuleAllow v" and ?b = "acts SecurityRuleAllow w"
  have ok: "\<forall>r \<in> set (acts SecurityRuleAllow x). flat_ok r \<and> Action r = SecurityRuleAllow" if "sub_ok key x" for x
  proof -
    have "subsub_ok key SecurityRuleAllow (allowRules x)" using that by (simp add: sub_ok_def)
    then show ?thesis
      by (cases "allowRules x"; cases "ss_rules (the (allowRules x))") (auto simp: acts_def subsub_rules_def subsub_ok_def group_ok_def slice_of_def)
  qed
  have "isRuleEqual (filter (\<lambda>r. Direction r = ''in'') ?a) (filter (\<lambda>r. Direction r = ''in'') ?b)"
    "isRuleEqual (filter (\<lambda>r. Direction r \<noteq> ''in'') ?a) (filter (\<lambda>r. Direction r \<noteq> ''in'') ?b)"
    using assms(3) by (simp_all add: sub_isEqual_def getDirectionRules_def acts_def)
  from this [THEN isRuleEqual_texts]
  have "rule_String ` set (filter (\<lambda>r. Direction r = ''in'') ?a) \<union> rule_String ` set (filter (\<lambda>r. Direction r \<noteq> ''in'') ?a) =
    rule_String ` set (filter (\<lambda>r. Direction r = ''in'') ?b) \<union> rule_String ` set (filter (\<lambda>r. Direction r \<noteq> ''in'') ?b)" by simp
  moreover have "rule_String ` set (filter P xs) \<union> rule_String ` set (filter (\<lambda>r. \<not> P r) xs) = rule_String ` set xs" for P xs by auto
  ultimately have "rule_String ` set ?a = rule_String ` set ?b" by simp
  then have s: "rule_String ` set ?a \<subseteq> rule_String ` set ?b" "rule_String ` set ?b \<subseteq> rule_String ` set ?a" by simp_all
  have u: "\<forall>r \<in> set ?a \<union> set ?b. flat_ok r \<and> Action r = SecurityRuleAllow" "\<forall>r \<in> set ?b \<union> set ?a. flat_ok r \<and> Action r = SecurityRuleAllow"
    using ok [OF assms(1)] ok [OF assms(2)] by auto
  show ?thesis using same_texts_cover [OF u(1) s(1)] same_texts_cover [OF u(2) s(2)] by (rule iffI)
qed

lemma IsEqual_keys:
  assumes "ruleset_ok srs" and "ruleset_ok src" and "IsEqual srs src"
  shows "map_of srs k = Some v \<Longrightarrow> \<exists>w. map_of src k = Some w \<and> sub_isEqual v (Some w)"
    and "map_of srs k = None \<longleftrightarrow> map_of src k = None"
proof -
  have d: "distinct (map fst srs)" "distinct (map fst src)" using assms by (simp_all add: ruleset_ok_def)
  show ex: "\<exists>w. map_of src k = Some w \<and> sub_isEqual v (Some w)" if "map_of srs k = Some v" for k v
    using assms(3) that d(1) by (cases "map_of src k") (auto simp: IsEqual_def list_all_iff getSubRuleSet_def sub_isEqual_def map_of_eq_Some_iff)
  have sub: "fst ` set srs \<subseteq> fst ` set src" 
  proof
    fix k assume "k \<in> fst ` set srs"
    then obtain v where "map_of srs k = Some v" using map_of_eq_None_iff [of srs k] by auto
    from ex [OF this] show "k \<in> fst ` set src" using map_of_eq_None_iff [of src k] by auto
  qed
  have "card (fst ` set srs) = card (fst ` set src)"
    using assms(3) d distinct_card [of "map fst srs"] distinct_card [of "map fst src"] by (simp add: IsEqual_def)
  then have "fst ` set srs = fst ` set src" using sub by (intro card_subset_eq) auto
  then show "map_of srs k = None \<longleftrightarrow> map_of src k = None" by (simp add: map_of_eq_None_iff)
qed

lemma IsEqual_covers:
  assumes "ruleset_ok srs" and "ruleset_ok src" and "IsEqual srs src"
  shows "set_covers SecurityRuleAllow srs dir p \<longleftrightarrow> set_covers SecurityRuleAllow src dir p"
proof -
  have "covers (acts SecurityRuleAllow (sub_of srs k)) dir p \<longleftrightarrow> covers (acts SecurityRuleAllow (sub_of src k)) dir p" for k
  proof (cases "map_of srs k")
    case None
    then show ?thesis using IsEqual_keys(2) [OF assms, of k] by (simp add: sub_of_def)
  next
    case (Some v)
    from IsEqual_keys(1) [OF assms Some] obtain w where w: "map_of src k = Some w" "sub_isEqual v (Some w)" by blast
    have "sub_ok k v" "sub_ok k w" using assms Some w(1) by (simp_all add: ruleset_ok_def)
    from sub_isEqual_covers [OF this w(2)] show ?thesis using Some w(1) by (simp add: sub_of_def)
  qed
  then show ?thesis by (simp add: set_covers_sub [OF assms(1)] set_covers_sub [OF assms(2)])
qed

section \<open>Properties\<close>

text \<open>
  C12. Collecting valid rules into a rule set never panics, whatever merging of overlapping
  rules takes place: in either direction, the allow rules of the set match exactly the
  packets that the allow rules given match, and the deny rules those of the deny rules given.
\<close>

theorem AddRules_same_packets:
  assumes "\<forall>r \<in> set rules. rule_ok r"
  shows "\<exists>srs. AddRules [] rules = Some srs \<and>
     (\<forall>dir p. (\<exists>q \<in> set (getAllowRules srs). dir_match dir q p) \<longleftrightarrow>
        (\<exists>r \<in> set rules. Action r = SecurityRuleAllow \<and> dir_match dir r p)) \<and>
     (\<forall>dir p. (\<exists>q \<in> set (getDenyRules srs). dir_match dir q p) \<longleftrightarrow>
        (\<exists>r \<in> set rules. Action r = SecurityRuleDeny \<and> dir_match dir r p))"
proof -
  have "ruleset_ok []" by (simp add: ruleset_ok_def)
  from AddRules_covers [OF this assms] obtain srs where srs: "AddRules [] rules = Some srs"
    "\<forall>action dir p. action \<in> {SecurityRuleAllow, SecurityRuleDeny} \<longrightarrow>
        (set_covers action srs dir p \<longleftrightarrow> set_covers action [] dir p \<or> (\<exists>r \<in> set rules. Action r = action \<and> dir_match dir r p))"
    by blast
  have "set_covers SecurityRuleAllow srs dir p \<longleftrightarrow> (\<exists>r \<in> set rules. Action r = SecurityRuleAllow \<and> dir_match dir r p)"
    "set_covers SecurityRuleDeny srs dir p \<longleftrightarrow> (\<exists>r \<in> set rules. Action r = SecurityRuleDeny \<and> dir_match dir r p)" for dir p
    using srs(2) by (simp_all add: set_covers_def getAllowRules_def getDenyRules_def covers_def)
  then show ?thesis using srs(1) action_ne by (simp add: set_covers_def covers_def)
qed

lemma AddRules_same_packets_witness:
  "\<exists>srs. AddRules [] demo_rules = Some srs \<and>
     (\<forall>dir p. (\<exists>q \<in> set (getAllowRules srs). dir_match dir q p) \<longleftrightarrow>
        (\<exists>r \<in> set demo_rules. Action r = SecurityRuleAllow \<and> dir_match dir r p)) \<and>
     (\<forall>dir p. (\<exists>q \<in> set (getDenyRules srs). dir_match dir q p) \<longleftrightarrow>
        (\<exists>r \<in> set demo_rules. Action r = SecurityRuleDeny \<and> dir_match dir r p))"
  using rules_ok_demo by (intro AddRules_same_packets) (simp add: rules_ok_def list_all_iff)



definition demo_in :: "SecurityRule list" where
  "demo_in = [empty_rule\<lparr>Priority := 1, Action := SecurityRuleAllow, Net := demo_net 0 0, Protocol := PROTO_TCP, Direction := ''in'', Ports := [80, 81]\<rparr>]"

definition demo_in' :: "SecurityRule list" where
  "demo_in' = [empty_rule\<lparr>Priority := 7, Action := SecurityRuleAllow, Net := demo_net 0 0, Protocol := PROTO_TCP, Direction := ''in'', PortStart := 80, PortEnd := 81\<rparr>]"

definition demo_set :: SecurityGroupRuleSet where
  "demo_set = [(''0.0.0.0/0'', \<lparr>allowRules = Some \<lparr>ipKey = ''0.0.0.0/0'', ss_rules = Some demo_in'\<rparr>, denyRules = None\<rparr>)]"

definition demo_set' :: SecurityGroupRuleSet where
  "demo_set' = [(''0.0.0.0/0'', \<lparr>allowRules = Some \<lparr>ipKey = ''0.0.0.0/0'',
     ss_rules = Some [(hd demo_in)\<lparr>Ports := [], PortStart := 80, PortEnd := 81\<rparr>]\<rparr>, denyRules = None\<rparr>)]"

lemma demo_net_text: "IPNet_String (demo_net 0 0) = ''0.0.0.0/0''"
  by code_simp

lemma demo_sets: "AddRules [] demo_in = Some demo_set'" "AddRules [] demo_in' = Some demo_set" "IsEqual demo_set' demo_set"
proof -
  note add = AddRule_def Let_def getIPKey_String demo_net_text empty_sub_def sub_addRule_def subsub_addRule_def empty_subsub_def
  show "AddRules [] demo_in' = Some demo_set" by (simp add: demo_in'_def demo_set_def add empty_rule_def)
  show "AddRules [] demo_in = Some demo_set'"
    by (simp add: demo_in_def demo_set'_def add empty_rule_def add_loop.simps protoRelation_def merge_def remove_at_def proto_defs)
  have "rule_String (hd demo_in\<lparr>Ports := [], PortStart := 80, PortEnd := 81\<rparr>) = rule_String (hd demo_in')"
    "Direction (hd demo_in) = ''in''" "Direction (hd demo_in') = ''in''" "demo_in' = [hd demo_in']"
    by (simp_all add: demo_in_def demo_in'_def rule_String_def getPort_def empty_rule_def demo_net_text Let_def)
  then obtain x where x: "demo_in' = [x]" "rule_String (hd demo_in\<lparr>Ports := [], PortStart := 80, PortEnd := 81\<rparr>) = rule_String x"
    "Direction (hd demo_in) = ''in''" "Direction x = ''in''" by blast
  then show "IsEqual demo_set' demo_set"
    by (simp add: IsEqual_def demo_set_def demo_set'_def getSubRuleSet_def sub_isEqual_def getDirectionRules_def subsub_rules_def
        slice_of_def isRuleEqual_def x)
qed

lemma rule_ok_demo_in: "\<forall>r \<in> set demo_in \<union> set demo_in'. rule_ok r"
  by (simp add: demo_in_def demo_in'_def rule_ok_def ValidateRule_def empty_rule_def v4net_demo has_range_def proto_defs
      SecurityRuleAllow_def SecurityRuleDeny_def)


lemma deny_keeps_allow:
  "Action rule = SecurityRuleDeny \<Longrightarrow> sub_addRule v rule = Some v' \<Longrightarrow> allowRules v' = allowRules v"
  "Action rule = SecurityRuleDeny \<Longrightarrow> add_ports rule ps v = Some v' \<Longrightarrow> allowRules v' = allowRules v"
proof -
  show one: "allowRules v' = allowRules v" if "Action rule = SecurityRuleDeny" "sub_addRule v rule = Some v'" for rule v v'
    using that action_ne by (auto simp: sub_addRule_def split: bind_splits)
  show "Action rule = SecurityRuleDeny \<Longrightarrow> add_ports rule ps v = Some v' \<Longrightarrow> allowRules v' = allowRules v"
  proof (induction ps arbitrary: v)
    case (Cons q ps)
    then show ?case using one [of "rule\<lparr>PortStart := q, PortEnd := q\<rparr>" v] by (auto split: bind_splits)
  qed simp
qed

text \<open>
  The comparison does not look at deny rules: adding any valid deny rule for a network
  that a rule set already names gives a rule set that compares as equal, whatever packets
  the rule denies.
\<close>

theorem IsEqual_ignores_denials:
  assumes "ruleset_ok srs" and "rule_ok d" and "Action d = SecurityRuleDeny" and "getIPKey d \<in> fst ` set srs"
  shows "\<exists>srs'. AddRule srs d = Some srs' \<and> IsEqual srs srs'"
proof -
  let ?k = "getIPKey d"
  obtain srs' where s: "AddRule srs d = Some srs'" using AddRule_covers [OF assms(1,2)] by (elim exE conjE) (rule that)
  obtain v where v: "map_of srs ?k = Some v" using assms(4) map_of_eq_None_iff [of srs ?k] by (cases "map_of srs ?k") simp_all
  obtain v' where u: "(if length (Ports d) > 0 then add_ports (d\<lparr>Ports := []\<rparr>) (Ports d) v else sub_addRule v d) = Some v'"
    and v'1: "srs' = AList.update ?k v' srs"
    using s unfolding AddRule_def Let_def v option.case bind_eq_Some_conv by (elim exE conjE) (rule that, assumption, simp)
  have v'2: "allowRules v' = allowRules v"
  proof (cases "length (Ports d) > 0")
    case True
    then show ?thesis using u by (intro deny_keeps_allow(2) [of "d\<lparr>Ports := []\<rparr>" "Ports d"]) (simp_all add: assms(3))
  next
    case False
    then show ?thesis using u by (intro deny_keeps_allow(1) [OF assms(3)]) simp
  qed
  note v' = v'1 v'2
  have same: "sub_isEqual w (Some w')" if "allowRules w' = allowRules w" for w w'
    using that by (simp add: sub_isEqual_def getDirectionRules_def isRuleEqual_refl)
  have "sub_isEqual w (getSubRuleSet srs' k)" if "(k, w) \<in> set srs" for k w
  proof -
    have "map_of srs k = Some w" using that assms(1) by (simp add: ruleset_ok_def)
    then show ?thesis using v same [of w w] same [of v' v] v'(2) unfolding v'(1) getSubRuleSet_def update_conv' by (cases "k = ?k") simp_all
  qed
  moreover have "length srs' = length srs"
  proof -
    have "map fst srs' = map fst srs" using assms(4) unfolding v'(1) update_keys by simp
    from arg_cong [where f = length, OF this] show ?thesis by simp
  qed
  ultimately have "IsEqual srs srs'" unfolding IsEqual_def list_all_iff by auto
  with s show ?thesis by blast
qed

lemma IsEqual_ignores_denials_witness:
  "\<exists>srs'. AddRule demo_set (hd demo_in\<lparr>Action := SecurityRuleDeny\<rparr>) = Some srs' \<and> IsEqual demo_set srs'"
proof (rule IsEqual_ignores_denials)
  show "ruleset_ok demo_set" using AddRules_covers [of "[]" demo_in'] rule_ok_demo_in demo_sets(2) by (auto simp: ruleset_ok_def)
  show "rule_ok (hd demo_in\<lparr>Action := SecurityRuleDeny\<rparr>)"
    by (simp add: demo_in_def rule_ok_def ValidateRule_def empty_rule_def v4net_demo has_range_def proto_defs
      SecurityRuleAllow_def SecurityRuleDeny_def)
  show "getIPKey (hd demo_in\<lparr>Action := SecurityRuleDeny\<rparr>) \<in> fst ` set demo_set" by code_simp
qed simp

end
