(* ===== verification/Secgroup_Rules.thy ===== *)
theory Secgroup_Rules
  imports Rule_Sets
begin

text \<open>
  Security group rules as the compute service stores them,
  \<^verbatim>\<open>pkg/compute/models/secgrouprules.go\<close>: the text of a stored rule, reading it as a rule of
  \<open>Sec_Rules\<close>, the validation of the rules that users create and update, and the rows made
  from the rules of a public cloud.
\<close>

section \<open>Stored rules\<close>

record SSecurityGroupRule =
  gr_Priority :: int
  gr_Protocol :: string
  gr_Ports :: string
  gr_Direction :: string
  gr_CIDR :: string
  gr_Action :: string
  gr_Description :: string
  gr_SecgroupID :: string

datatype sg_error =
    MissingParameter string | SecgroupNotFound string | InvalidAddress string | InvalidRule sr_error
  | InvalidPriorityText | InvalidPriorityRange | DuplicateName string | RulesDiffer string string
  | InUse | ProtectedResource | DbError | CloudError | InvalidStatus | Unsupported | TooMany | AlreadyAssigned string
  | NotAssigned string | NullSecgroup

definition stored_fields :: "SSecurityGroupRule \<Rightarrow> string list" where
  "stored_fields self =
     [(if length (gr_Direction self) = 0 then ''in'' else gr_Direction self) @ '':'', gr_Action self]
     @ (if length (gr_CIDR self) > 0 \<and> gr_CIDR self \<noteq> ''0.0.0.0/0'' then [gr_CIDR self] else [])
     @ [if gr_Protocol self = [] then PROTO_ANY else gr_Protocol self]
     @ (if length (gr_Ports self) > 0 then [gr_Ports self] else [])"

definition stored_String :: "SSecurityGroupRule \<Rightarrow> string" where
  "stored_String self = hd (stored_fields self) @ strings_Join '' '' (tl (stored_fields self))"

definition group_Less :: "SSecurityGroupRule \<Rightarrow> SSecurityGroupRule \<Rightarrow> bool" where
  "group_Less a b =
     (if gr_Priority a < gr_Priority b then True
      else if gr_Priority a = gr_Priority b then stored_String a \<le> stored_String b
      else False)"

definition toRule :: "SSecurityGroupRule \<Rightarrow> sr_error + SecurityRule" where
  "toRule self =
     (case ParseSecurityRule (stored_String self) of
        Inl err \<Rightarrow> Inl err
      | Inr rule \<Rightarrow> Inr (rule\<lparr>Description := gr_Description self, Priority := gr_Priority self\<rparr>))"

definition SingleRules :: "SSecurityGroupRule \<Rightarrow> sr_error + SecurityRule list" where
  "SingleRules self =
     (case ParseSecurityRule (stored_String self) of
        Inl err \<Rightarrow> Inl err
      | Inr rule \<Rightarrow>
          let base = empty_rule\<lparr>Priority := gr_Priority self, Action := Action rule, Net := Net rule,
                Protocol := Protocol rule, Direction := Direction rule, Description := gr_Description self\<rparr> in
          if length (Ports rule) > 0
          then Inr (map (\<lambda>port. base\<lparr>PortStart := - 1, PortEnd := - 1, Ports := [port]\<rparr>) (Ports rule))
          else Inr [base\<lparr>PortStart := PortStart rule, PortEnd := PortEnd rule, Ports := []\<rparr>])"

section \<open>Rules of users\<close>

text \<open>
  The request of a user: an absent field is the empty text, an absent priority is 0. The
  lookup of the security group by identifier or name is an argument; it answers the identifier.
\<close>

definition request_rule :: "SSecurityGroupRule \<Rightarrow> SecurityRule" where
  "request_rule req =
     empty_rule\<lparr>Priority := gr_Priority req, Direction := gr_Direction req, Action := gr_Action req,
       Protocol := gr_Protocol req, Ports := [], PortStart := - 1, PortEnd := - 1\<rparr>"

definition check_rule :: "SSecurityGroupRule \<Rightarrow> sg_error option" where
  "check_rule req =
     (case ParsePorts (request_rule req) (gr_Ports req) of
        Inl err \<Rightarrow> Some (InvalidRule err)
      | Inr rule \<Rightarrow> map_option InvalidRule (ValidateRule rule))"

definition check_request :: "SSecurityGroupRule \<Rightarrow> sg_error + SSecurityGroupRule" where
  "check_request req =
     (if length (gr_CIDR req) > 0 \<and> \<not> MatchCIDR (gr_CIDR req) \<and> \<not> MatchIPAddr (gr_CIDR req)
      then Inl (InvalidAddress (gr_CIDR req))
      else
        let row = (if length (gr_CIDR req) > 0 then req else req\<lparr>gr_CIDR := ''0.0.0.0/0''\<rparr>) in
        case check_rule row of Some err \<Rightarrow> Inl err | None \<Rightarrow> Inr row)"

definition ValidateCreateData :: "(string \<Rightarrow> string option) \<Rightarrow> string \<Rightarrow> SSecurityGroupRule \<Rightarrow> sg_error + SSecurityGroupRule" where
  "ValidateCreateData find_group defsecgroup req =
     (if length defsecgroup = 0 then Inl (MissingParameter ''secgroup'')
      else case find_group defsecgroup of
        None \<Rightarrow> Inl (SecgroupNotFound defsecgroup)
      | Some gid \<Rightarrow> check_request (req\<lparr>gr_SecgroupID := gid\<rparr>))"

text \<open>An update: the priority as text and the other fields, empty when absent.\<close>

definition update_fields :: "SSecurityGroupRule \<Rightarrow> SSecurityGroupRule \<Rightarrow> string list" where
  "update_fields self req =
     [(if length (gr_Direction req) > 0 then gr_Direction req else gr_Direction self) @ '':'',
      if length (gr_Action req) > 0 then gr_Action req else gr_Action self]
     @ (if length (gr_CIDR req) > 0 then [gr_CIDR req] else if length (gr_CIDR self) > 0 then [gr_CIDR self] else [])
     @ [if length (gr_Protocol req) > 0 then gr_Protocol req
        else if gr_Protocol self = [] then PROTO_ANY else gr_Protocol self]
     @ (if length (gr_Ports req) > 0 then [gr_Ports req] else if length (gr_Ports self) > 0 then [gr_Ports self] else [])"

definition ValidateUpdateData :: "SSecurityGroupRule \<Rightarrow> string \<Rightarrow> SSecurityGroupRule \<Rightarrow> sg_error option" where
  "ValidateUpdateData self priority req =
     (case (if length priority > 0 then
              (case strconv_ParseInt priority 10 of
                 (p, ok) \<Rightarrow>
                   if \<not> ok then Some InvalidPriorityText
                   else if p < 1 \<or> p > 100 then Some InvalidPriorityRange else None)
            else None) of
        Some err \<Rightarrow> Some err
      | None \<Rightarrow>
          (case ParseSecurityRule (strings_Join '' '' (update_fields self req)) of
             Inl err \<Rightarrow> Some (InvalidRule err)
           | Inr _ \<Rightarrow> None))"

section \<open>Rules of a public cloud\<close>

definition cloud_ports :: "SecurityRule \<Rightarrow> string" where
  "cloud_ports rule =
     (if length (Ports rule) > 0 then strings_Join '','' (map dec_int (Ports rule))
      else if PortStart rule > 0 \<and> PortEnd rule > 0 then
        if PortStart rule = PortEnd rule then dec_int (PortStart rule)
        else dec_int (PortStart rule) @ ''-'' @ dec_int (PortEnd rule)
      else [])"

definition newFromCloudSecurityGroup :: "SecurityRule \<Rightarrow> string \<Rightarrow> SSecurityGroupRule" where
  "newFromCloudSecurityGroup rule secgroup_id =
     \<lparr>gr_Priority = Priority rule,
      gr_Protocol = (if length (Protocol rule) = 0 then PROTO_ANY else Protocol rule),
      gr_Ports = cloud_ports rule, gr_Direction = Direction rule,
      gr_CIDR = (if IPNet_String (Net rule) \<noteq> ''<nil>'' then IPNet_String (Net rule) else ''0.0.0.0/0''),
      gr_Action = Action rule, gr_Description = Description rule, gr_SecgroupID = secgroup_id\<rparr>"

section \<open>Reading stored rules\<close>

lemma stored_words:
  "length (gr_Direction row) > 0 \<Longrightarrow> length (gr_Protocol row) > 0 \<Longrightarrow>
   stored_String row = gr_Direction row @ '':'' @ strings_Join '' '' (rule_words (gr_Action row)
     (if gr_CIDR row \<noteq> ''0.0.0.0/0'' then gr_CIDR row else []) (gr_Protocol row) (gr_Ports row))"
  by (auto simp: stored_String_def stored_fields_def rule_words_def)

text \<open>A network as \<^verbatim>\<open>IPNet.String\<close> prints it, with its prefix length also for a single address.\<close>

lemma parse_net_String:
  assumes "v4net n"
  shows "word_ok (IPNet_String n)" "IPNet_String n \<noteq> ''<nil>''"
    and "\<exists>n'. parse_net (IPNet_String n) = Some n' \<and> v4net n' \<and> (\<forall>x. net_contains n' x \<longleftrightarrow> net_contains n x)"
proof -
  note l = net_len_le [OF assms]
  obtain a b c d where ip: "To4 (IP n) = [a, b, c, d]" and s: "IPNet_String n = dotted [a, b, c, d] @ ''/'' @ dec_nat (net_len n)"
    using IPNet_String_v4 [OF assms] by blast
  have "word_ok (dotted [a, b, c, d])"
    using dotted_chars digit_word dotted_not_Nil by (fastforce simp: word_ok_def list_all_iff)
  moreover have "word_ok (dec_nat (net_len n))"
    using dec_nat_digits digit_word by (fastforce simp: word_ok_def list_all_iff)
  ultimately show "word_ok (IPNet_String n)" by (simp add: s word_ok_def)
  have "CHR ''/'' \<in> set (IPNet_String n)" by (simp add: s)
  then show "IPNet_String n \<noteq> ''<nil>''" by auto
  have "MatchCIDR (IPNet_String n)" using ParseCIDR_text [OF l] no_colon by (simp add: MatchCIDR_def s)
  then have "parse_net (IPNet_String n) = Some (masked_net (be32_get [a, b, c, d]) (net_len n))"
    using ParseCIDR_text [OF l] by (simp add: parse_net_def s)
  moreover have "net_contains n x \<longleftrightarrow> x AND NOT (mask (32 - net_len n)) = be32_get [a, b, c, d] AND NOT (mask (32 - net_len n))" for x
    using l by (simp add: net_contains_def Masklen2Mask_eq net_addr_def ip)
  ultimately show "\<exists>n'. parse_net (IPNet_String n) = Some n' \<and> v4net n' \<and> (\<forall>x. net_contains n' x \<longleftrightarrow> net_contains n x)"
    using masked_net_v4 [OF l] by auto
qed

lemma cloud_ports_getPort: "rule_ok r \<Longrightarrow> cloud_ports r = getPort r"
proof -
  assume r: "rule_ok r"
  have "Ports r = []" if "has_range r" using r that by (simp add: rule_ok_def)
  moreover have "PortStart r \<le> PortEnd r" if "has_range r"
    using rule_ok_piece [OF r] that by (simp add: piece_ok_def port_cond_ok_def)
  ultimately show ?thesis by (auto simp: cloud_ports_def getPort_def has_range_def)
qed

lemma no_ports_text: "rule_ok r \<Longrightarrow> Protocol r = PROTO_ANY \<or> Protocol r = PROTO_ICMP \<Longrightarrow> getPort r = [] \<and> \<not> has_range r \<and> Ports r = []"
proof -
  assume r: "rule_ok r" and p: "Protocol r = PROTO_ANY \<or> Protocol r = PROTO_ICMP"
  then have "\<not> (Protocol r = PROTO_TCP \<or> Protocol r = PROTO_UDP)" by (auto simp: proto_defs)
  then have "\<not> (has_range r \<or> Ports r \<noteq> [])" using rule_ok_ports [OF r] by blast
  then show ?thesis by (auto simp: getPort_def has_range_def)
qed

text \<open>Ports that were read are valid ports.\<close>

lemma parsePortString_range: "parsePortString s = Inr p \<Longrightarrow> 1 \<le> p \<and> p \<le> 65535"
  by (auto simp: parsePortString_def split: option.splits if_splits)

definition port_ok :: "int \<Rightarrow> bool" where
  "port_ok p \<longleftrightarrow> 1 \<le> p \<and> p \<le> 65535"

lemma parse_ports_range: "parse_ports ws acc = Inr ps \<Longrightarrow> list_all port_ok acc \<Longrightarrow> list_all port_ok ps"
proof (induction ws arbitrary: acc)
  case (Cons w ws)
  then obtain p where p: "parsePortString w = Inr p" "parse_ports ws (acc @ [p]) = Inr ps" by (cases "parsePortString w") simp_all
  have "list_all port_ok (acc @ [p])" using Cons.prems(2) parsePortString_range [OF p(1)] by (simp add: port_ok_def [of p])
  with Cons.IH [OF p(2)] show ?case by blast
qed simp

definition ports_valid :: "SecurityRule \<Rightarrow> bool" where
  "ports_valid r \<longleftrightarrow> (\<forall>p \<in> set (Ports r). 1 \<le> p \<and> p \<le> 65535) \<and> (has_range r \<longrightarrow> Ports r = []) \<and>
     (PortStart r > 0 \<or> PortEnd r > 0 \<longrightarrow> 1 \<le> PortStart r \<and> PortStart r \<le> PortEnd r \<and> PortEnd r \<le> 65535)"

lemma ParsePorts_valid:
  assumes "ParsePorts rule s = Inr r" and "Ports rule = []" "PortStart rule = 0" "PortEnd rule = 0"
  shows "ports_valid r"
proof -
  consider "s = []" | (range) "s \<noteq> []" "CHR ''-'' \<in> set s" | (ports) "s \<noteq> []" "CHR ''-'' \<notin> set s" "CHR '','' \<in> set s"
    | (one) "s \<noteq> []" "CHR ''-'' \<notin> set s" "CHR '','' \<notin> set s" by blast
  then show ?thesis
  proof cases
    case 1
    then show ?thesis using assms by (auto simp: ParsePorts_def ports_valid_def has_range_def)
  next
    case range
    then obtain p q where pq: "parsePortString (takeWhile (\<lambda>c. c \<noteq> CHR ''-'') s) = Inr p" "parsePortString (tl (dropWhile (\<lambda>c. c \<noteq> CHR ''-'') s)) = Inr q"
      using assms(1) by (auto simp: ParsePorts_def split: sum.splits)
    then have "r = rule\<lparr>PortStart := min p q, PortEnd := max p q\<rparr>" using assms(1) range by (simp add: ParsePorts_def min_def max_def split: if_splits)
    then show ?thesis using parsePortString_range [OF pq(1)] parsePortString_range [OF pq(2)] assms(2)
      by (auto simp: ports_valid_def has_range_def min_def max_def)
  next
    case ports
    then obtain ps where ps: "parse_ports (strings_Split (CHR '','') s) [] = Inr ps" using assms(1) by (auto simp: ParsePorts_def split: sum.splits)
    then have "r = rule\<lparr>Ports := ps\<rparr>" using assms(1) ports by (simp add: ParsePorts_def)
    then show ?thesis using parse_ports_range [OF ps] assms by (auto simp: ports_valid_def has_range_def list_all_iff port_ok_def)
  next
    case one
    then obtain p where p: "parsePortString s = Inr p" using assms(1) by (auto simp: ParsePorts_def split: sum.splits)
    then have "r = rule\<lparr>PortStart := p, PortEnd := p\<rparr>" using assms(1) one by (simp add: ParsePorts_def)
    then show ?thesis using parsePortString_range [OF p] assms(2) by (simp add: ports_valid_def)
  qed
qed

lemma rule_ok_fields:
  assumes "Direction r = ''in'' \<or> Direction r = ''out''" and "Action r = SecurityRuleAllow \<or> Action r = SecurityRuleDeny"
    and "Protocol r \<in> {PROTO_ANY, PROTO_ICMP, PROTO_TCP, PROTO_UDP}" and "v4net (Net r)" and "1 \<le> Priority r" "Priority r \<le> 100"
    and "ports_valid r" and "Protocol r = PROTO_ANY \<or> Protocol r = PROTO_ICMP \<Longrightarrow> Ports r = [] \<and> \<not> PortStart r > 0 \<and> \<not> PortEnd r > 0"
  shows "rule_ok r"
proof -
  have "ValidateRule r = None"
    unfolding ValidateRule_def if_Some_None
  proof (intro conjI)
    show "\<not> ((0 < PortStart r \<or> 0 < PortEnd r) \<and> (PortStart r < 1 \<or> PortEnd r < PortStart r \<or> 65535 < PortStart r \<or> 65535 < PortEnd r))"
      using assms(7) unfolding ports_valid_def by linarith
    show "\<not> list_ex (\<lambda>p. p < 1 \<or> 65535 < p) (Ports r)" using assms(7) by (auto simp: ports_valid_def list_ex_iff)
    show "\<not> (Priority r < 1 \<or> 100 < Priority r)" using assms(5,6) by simp
    show "\<not> (Protocol r = PROTO_ICMP \<and> (0 < length (Ports r) \<or> 0 < PortStart r \<or> 0 < PortEnd r))"
      "\<not> (Protocol r = PROTO_ANY \<and> (0 < length (Ports r) \<or> 0 < PortStart r \<or> 0 < PortEnd r))" using assms(8) by auto
  qed (use assms(1-3) in blast)+
  then show ?thesis using assms(4,7) by (simp add: rule_ok_def ports_valid_def)
qed

lemma priority_range: "rule_ok r \<Longrightarrow> 1 \<le> Priority r \<and> Priority r \<le> 100"
proof -
  assume "rule_ok r"
  then have "\<not> (Priority r < 1 \<or> Priority r > 100)" unfolding rule_ok_def ValidateRule_def if_Some_None by blast
  then show ?thesis by linarith
qed

text \<open>A rule of a cloud, stored and read back.\<close>

lemma stored_rule_read:
  assumes "rule_ok r"
  shows "\<exists>r'. toRule (newFromCloudSecurityGroup r g) = Inr r' \<and> Direction r' = Direction r \<and> Action r' = Action r \<and>
     Protocol r' = Protocol r \<and> Priority r' = Priority r \<and> Description r' = Description r \<and> (\<forall>p. matches r' p = matches r p) \<and> rule_ok r'"
proof -
  let ?row = "newFromCloudSecurityGroup r g"
  have v: "v4net (Net r)" and pr: "Protocol r \<in> {PROTO_ANY, PROTO_ICMP, PROTO_TCP, PROTO_UDP}"
    using rule_ok_piece [OF assms] by (simp_all add: piece_ok_def)
  note ns = parse_net_String [OF v]
  let ?net = "IPNet_String (Net r) \<noteq> ''0.0.0.0/0''"
  let ?nt = "if ?net then IPNet_String (Net r) else []"
  obtain n where n: "(if ?net then parse_net (IPNet_String (Net r)) = Some n else n = \<lparr>IP = IPv4zero, Mask = net_CIDRMask 0 32\<rparr>)"
    "\<forall>x. net_contains n x \<longleftrightarrow> net_contains (Net r) x" "v4net n"
    using ns(3) zero_net(1) zero_net(2) [OF _ v] by (cases ?net) auto
  define rule where "rule = empty_rule\<lparr>Direction := Direction r, Action := Action r, Net := n, Protocol := Protocol r\<rparr>"
  have row: "gr_Direction ?row = Direction r" "gr_Action ?row = Action r" "gr_Protocol ?row = Protocol r"
    "gr_CIDR ?row = IPNet_String (Net r)" "gr_Ports ?row = getPort r" "length (Direction r) > 0" "length (Protocol r) > 0"
    using ns(2) cloud_ports_getPort [OF assms] pr rule_ok_action(2) [OF assms] by (auto simp: newFromCloudSecurityGroup_def proto_defs)
  have "stored_String ?row = Direction r @ '':'' @ strings_Join '' '' (rule_words (Action r) ?nt (Protocol r) (getPort r))"
    using stored_words [of ?row] row(6,7) unfolding row(1-5) by blast
  then have e: "ParseSecurityRule (stored_String ?row) =
      (if Protocol r = PROTO_ANY \<or> Protocol r = PROTO_ICMP then Inr rule else ParsePorts rule (getPort r))"
    unfolding rule_def using rule_ok_action [OF assms] pr n(1) ns(1) getPort_word [OF rule_ok_piece [OF assms]]
    by (simp only:) (intro ParseSecurityRule_words; auto simp: word_ok_def split: if_splits)
  have "\<exists>r'. ParseSecurityRule (stored_String ?row) = Inr r' \<and> same_ports r rule r' \<and> ports_valid r' \<and>
      (Protocol r = PROTO_ANY \<or> Protocol r = PROTO_ICMP \<longrightarrow> r' = rule)"
  proof (cases "Protocol r = PROTO_ANY \<or> Protocol r = PROTO_ICMP")
    case True
    then have "same_ports r rule rule"
      using no_ports_text [OF assms True] by (auto simp: same_ports_def port_match_def rule_def empty_rule_def has_range_def)
    then show ?thesis unfolding e using True by (simp add: ports_valid_def rule_def empty_rule_def)
  next
    case False
    have "Ports rule = []" "\<not> has_range rule" by (simp_all add: rule_def empty_rule_def has_range_def)
    from ParsePorts_text [OF rule_ok_piece [OF assms] this] obtain r' where r': "ParsePorts rule (getPort r) = Inr r'" "same_ports r rule r'" by blast
    have "ports_valid r'" by (rule ParsePorts_valid [OF r'(1)]) (simp_all add: rule_def empty_rule_def)
    then show ?thesis unfolding e using False r' by simp
  qed
  then obtain r' where r': "ParseSecurityRule (stored_String ?row) = Inr r'" "same_ports r rule r'" "ports_valid r'"
    "Protocol r = PROTO_ANY \<or> Protocol r = PROTO_ICMP \<Longrightarrow> r' = rule" by blast
  let ?r = "r'\<lparr>Description := Description r, Priority := Priority r\<rparr>"
  have "toRule ?row = Inr ?r" using r'(1) by (simp add: toRule_def newFromCloudSecurityGroup_def)
  moreover have "matches ?r p = matches r' p" for p
    by (simp add: matches_def proto_match_def port_match_def has_range_def)
  moreover have "matches r' p = matches r p" for p
    using r'(2) n(2) by (simp add: same_ports_def rule_def matches_def proto_match_def)
  moreover have "rule_ok ?r"
    using rule_ok_action [OF assms] pr n(3) priority_range [OF assms] r'(2-4)
    by (intro rule_ok_fields) (auto simp: same_ports_def rule_def empty_rule_def ports_valid_def has_range_def)
  ultimately show ?thesis using r'(2) by (auto simp: same_ports_def rule_def)
qed

section \<open>Accepted texts\<close>

text \<open>The characters of an accepted text of ports and of an accepted network.\<close>

definition word_char :: "char \<Rightarrow> bool" where
  "word_char c \<longleftrightarrow> c \<noteq> CHR '':'' \<and> c \<notin> {CHR 9, CHR 10, CHR 11, CHR 12, CHR 13, CHR '' ''}"

lemma word_ok_chars: "s \<noteq> [] \<Longrightarrow> (\<And>c. c \<in> set s \<Longrightarrow> word_char c) \<Longrightarrow> word_ok s"
  by (auto simp: word_ok_def list_all_iff word_char_def)

lemma digit_value_word: "digit_value c \<noteq> None \<Longrightarrow> word_char c"
proof -
  have "digit_value (CHR '':'') = None" "list_all (\<lambda>c. digit_value c = None) [CHR 9, CHR 10, CHR 11, CHR 12, CHR 13, CHR '' '']"
    by code_simp+
  then show "digit_value c \<noteq> None \<Longrightarrow> word_char c" by (auto simp: word_char_def)
qed

lemma word_char_punct: "word_char (CHR ''-'')" "word_char (CHR '','')" "word_char (CHR ''.'')" "word_char (CHR ''/'')"
  by (simp_all add: word_char_def)

lemma digits_value_chars: "digits_value b s a = Some n \<Longrightarrow> c \<in> set s \<Longrightarrow> word_char c"
  by (induction b s a rule: digits_value.induct) (auto split: option.splits if_splits intro: digit_value_word)

lemma parsePortString_chars: "parsePortString s = Inr p \<Longrightarrow> c \<in> set s \<Longrightarrow> word_char c"
  unfolding parsePortString_def parse_digits_def
  by (auto split: option.splits if_splits dest: digits_value_chars)

lemma parse_ports_chars: "parse_ports ws acc = Inr ps \<Longrightarrow> s \<in> set ws \<Longrightarrow> c \<in> set s \<Longrightarrow> word_char c"
  by (induction ws acc rule: parse_ports.induct) (auto split: sum.splits dest: parsePortString_chars)

lemma Split_chars: "c \<in> set s \<Longrightarrow> c = x \<or> (\<exists>t \<in> set (strings_Split x s). c \<in> set t)"
  by (induction s) (auto split: list.splits)

lemma cut_at:
  assumes "x \<in> set s" and "c \<in> set s"
  shows "c = x \<or> c \<in> set (takeWhile (\<lambda>c. c \<noteq> x) s) \<or> c \<in> set (tl (dropWhile (\<lambda>c. c \<noteq> x) s))"
proof -
  let ?d = "dropWhile (\<lambda>c. c \<noteq> x) s"
  have "c \<in> set (takeWhile (\<lambda>c. c \<noteq> x) s @ ?d)" using assms(2) by simp
  moreover have "?d \<noteq> []" using assms(1) by simp
  then obtain y ys where y: "?d = y # ys" by (cases ?d) auto
  have "y = x" using hd_dropWhile [of "\<lambda>c. c \<noteq> x" s] y by simp
  ultimately show ?thesis by (auto simp: y)
qed

lemma ParsePorts_word:
  assumes "ParsePorts rule s = Inr r" and "s \<noteq> []"
  shows "word_ok s"
proof (rule word_ok_chars [OF assms(2)])
  fix c assume c: "c \<in> set s"
  consider (range) "CHR ''-'' \<in> set s" | (ports) "CHR ''-'' \<notin> set s" "CHR '','' \<in> set s" | (one) "CHR ''-'' \<notin> set s" "CHR '','' \<notin> set s" by blast
  then show "word_char c"
  proof cases
    case range
    let ?a = "takeWhile (\<lambda>c. c \<noteq> CHR ''-'') s" and ?b = "tl (dropWhile (\<lambda>c. c \<noteq> CHR ''-'') s)"
    obtain p q where "parsePortString ?a = Inr p" "parsePortString ?b = Inr q"
      using assms range by (auto simp: ParsePorts_def split: sum.splits)
    moreover have "c \<in> set ?a \<or> c = CHR ''-'' \<or> c \<in> set ?b"
      using cut_at [OF range c] by blast
    ultimately show ?thesis using parsePortString_chars word_char_punct by blast
  next
    case ports
    then obtain ps where "parse_ports (strings_Split (CHR '','') s) [] = Inr ps"
      using assms by (auto simp: ParsePorts_def split: sum.splits)
    then show ?thesis using Split_chars [OF c, of "CHR '',''"] parse_ports_chars word_char_punct by blast
  next
    case one
    then obtain p where "parsePortString s = Inr p" using assms by (auto simp: ParsePorts_def split: sum.splits)
    then show ?thesis using c by (rule parsePortString_chars)
  qed
qed

lemma toi_loop_chars: "toi_loop b n s = Some (m, r) \<Longrightarrow> c \<in> set s \<Longrightarrow> c \<in> set r \<or> word_char c"
  by (induction b n s rule: toi_loop.induct) (auto split: option.splits if_splits intro: digit_value_word)

lemma toi_chars: "toi b s = Some (m, r) \<Longrightarrow> c \<in> set s \<Longrightarrow> c \<in> set r \<or> word_char c"
  by (auto simp: toi_def split: option.splits if_splits dest: toi_loop_chars)

lemma parseIPv4_loop_chars: "parseIPv4_loop k s p = Some q \<Longrightarrow> c \<in> set s \<Longrightarrow> word_char c"
proof (induction k s p rule: parseIPv4_loop.induct)
  case (2 i s p)
  let ?s = "if p \<noteq> [] then tl s else s"
  obtain n r where t: "toi 10 ?s = Some (n, r)" "n \<le> 255" "parseIPv4_loop i r (p @ [of_nat n]) = Some q" and s: "s \<noteq> []" "p \<noteq> [] \<Longrightarrow> hd s = CHR ''.''"
    using 2(2) by (auto simp: Let_def split: option.splits if_splits)
  have "c = CHR ''.'' \<or> c \<in> set ?s" using 2(3) s by (cases s) auto
  moreover have "word_char c" if "c \<in> set ?s"
    using toi_chars [OF t(1) that] 2(1) [OF s(1) _ refl t(1)] t s(2) by auto
  ultimately show ?case using word_char_punct by blast
qed (simp split: if_splits)

lemma parseIPv4_chars: "parseIPv4 s \<noteq> [] \<Longrightarrow> c \<in> set s \<Longrightarrow> word_char c"
  by (auto simp: parseIPv4_def split: option.splits dest: parseIPv4_loop_chars)

lemma toi_loop_rest: "toi_loop b n s = Some (m, r) \<Longrightarrow> set r \<subseteq> set s"
  by (induction b n s rule: toi_loop.induct) (auto split: option.splits if_splits)

lemma toi_rest: "toi b s = Some (m, r) \<Longrightarrow> set r \<subseteq> set s"
  using toi_loop_rest by (auto simp: toi_def split: option.splits if_splits) blast

lemma parseIPv6_one_group:
  assumes "CHR '':'' \<notin> set s" and "parseIPv6_loop k s [] None = Some (p, e, t)" and "0 < k"
  shows "length p = 2 \<and> e = None"
proof -
  obtain j where j: "k = Suc j" using assms(3) by (cases k) auto
  obtain n r where t: "toi 16 s = Some (n, r)" using assms(2) by (cases "toi 16 s") (auto simp: j)
  have "CHR '':'' \<notin> set r" using toi_rest [OF t] assms(1) by blast
  then have "r = [] \<or> hd r \<noteq> CHR '':''" by (cases r) auto
  then show ?thesis using assms(2) t by (auto simp: j Let_def split: if_splits)
qed

lemma parseIPv6_needs_colon: "CHR '':'' \<notin> set s \<Longrightarrow> parseIPv6 s = []"
proof -
  assume n: "CHR '':'' \<notin> set s"
  have l: "take 2 s \<noteq> ''::''" using n in_set_takeD [of "CHR '':''" 2 s] by auto
  show "parseIPv6 s = []"
  proof (cases "parseIPv6_loop 8 s [] None")
    case None
    then show ?thesis using l by (simp add: parseIPv6_def)
  next
    case (Some x)
    obtain p e t where x: "x = (p, e, t)" by (cases x)
    from parseIPv6_one_group [OF n Some [unfolded x]] show ?thesis using l Some unfolding x by (simp add: parseIPv6_def)
  qed
qed

lemma net_text_accepted:
  assumes "CHR '':'' \<notin> set s" and "MatchCIDR s \<or> MatchIPAddr s"
  shows "word_ok s" and "\<exists>n. parse_net s = Some n"
proof -
  have ip: "c \<in> set s \<Longrightarrow> word_char c" if "MatchIPAddr s" for c
  proof -
    have "parseIPv4 s \<noteq> []" using that assms(1) parseIPv6_needs_colon [OF assms(1)]
      by (auto simp: MatchIPAddr_def net_ParseIP_def split: option.splits if_splits)
    then show "c \<in> set s \<Longrightarrow> word_char c" by (rule parseIPv4_chars)
  qed
  have cidr: "c \<in> set s \<Longrightarrow> word_char c" if m: "MatchCIDR s" for c
  proof -
    let ?a = "takeWhile (\<lambda>c. c \<noteq> CHR ''/'') s" and ?m = "tl (dropWhile (\<lambda>c. c \<noteq> CHR ''/'') s)"
    have sl: "CHR ''/'' \<in> set s" using m by (auto simp: MatchCIDR_def net_ParseCIDR_def split: if_splits)
    have na: "CHR '':'' \<notin> set ?a" using assms(1) by (auto dest: set_takeWhileD)
    obtain n where t: "toi 10 ?m = Some (n, [])" and v: "parseIPv4 ?a \<noteq> []"
      using m parseIPv6_needs_colon [OF na] by (auto simp: MatchCIDR_def net_ParseCIDR_def Let_def split: option.splits list.splits if_splits)
    show "c \<in> set s \<Longrightarrow> word_char c" using cut_at [OF sl, of c] parseIPv4_chars [OF v] toi_chars [OF t] word_char_punct by auto
  qed
  have "s \<noteq> []" using assms(2) by (auto simp: MatchCIDR_def MatchIPAddr_def net_ParseCIDR_def net_ParseIP_def)
  then show "word_ok s" using word_ok_chars ip cidr assms(2) by blast
  show "\<exists>n. parse_net s = Some n" using assms(2) by (auto simp: parse_net_def MatchCIDR_def)
qed

text \<open>The fields that reading the text of the ports does not touch, and the ports it gives.\<close>

lemma ParsePorts_fields:
  "ParsePorts rule s = Inr r \<Longrightarrow> Direction r = Direction rule \<and> Action r = Action rule \<and> Protocol r = Protocol rule \<and>
     Net r = Net rule \<and> Priority r = Priority rule"
  by (auto simp: ParsePorts_def split: if_splits sum.splits)

lemma ParsePorts_same:
  assumes "ParsePorts a s = Inr r" and "Ports a = []" "\<not> has_range a" "Ports b = []" "\<not> has_range b"
  shows "\<exists>r'. ParsePorts b s = Inr r' \<and> (\<forall>p. port_match r' p = port_match r p)"
proof -
  consider "s = []" | (range) "s \<noteq> []" "CHR ''-'' \<in> set s" | (ports) "s \<noteq> []" "CHR ''-'' \<notin> set s" "CHR '','' \<in> set s"
    | (one) "s \<noteq> []" "CHR ''-'' \<notin> set s" "CHR '','' \<notin> set s" by blast
  then show ?thesis
  proof cases
    case 1
    then show ?thesis using assms by (auto simp: ParsePorts_def port_match_def has_range_def)
  next
    case range
    then obtain p q where pq: "parsePortString (takeWhile (\<lambda>c. c \<noteq> CHR ''-'') s) = Inr p" "parsePortString (tl (dropWhile (\<lambda>c. c \<noteq> CHR ''-'') s)) = Inr q"
      using assms(1) by (auto simp: ParsePorts_def split: sum.splits)
    then show ?thesis using assms range by (auto simp: ParsePorts_def port_match_def has_range_def)
  next
    case ports
    then obtain ps where "parse_ports (strings_Split (CHR '','') s) [] = Inr ps" using assms(1) by (auto simp: ParsePorts_def split: sum.splits)
    then show ?thesis using assms ports by (auto simp: ParsePorts_def port_match_def has_range_def)
  next
    case one
    then obtain p where "parsePortString s = Inr p" using assms(1) by (auto simp: ParsePorts_def split: sum.splits)
    then show ?thesis using assms one by (auto simp: ParsePorts_def port_match_def has_range_def)
  qed
qed

lemma zero_net_text: "\<exists>n. parse_net ''0.0.0.0/0'' = Some n \<and> (\<forall>x. net_contains \<lparr>IP = IPv4zero, Mask = net_CIDRMask 0 32\<rparr> x \<longleftrightarrow> net_contains n x)"
proof -
  have "IPNet_String \<lparr>IP = IPv4zero, Mask = net_CIDRMask 0 32\<rparr> = ''0.0.0.0/0''" by code_simp
  with parse_net_String(3) [OF zero_net(1)] show ?thesis by auto
qed

lemma no_ports_any:
  assumes "ParsePorts rule s = Inr r0" and "ValidateRule r0 = None" and "Protocol r0 = PROTO_ANY \<or> Protocol r0 = PROTO_ICMP"
  shows "port_match r0 p"
proof -
  have "\<not> (Protocol r0 = PROTO_ICMP \<and> (length (Ports r0) > 0 \<or> PortStart r0 > 0 \<or> PortEnd r0 > 0))"
    "\<not> (Protocol r0 = PROTO_ANY \<and> (length (Ports r0) > 0 \<or> PortStart r0 > 0 \<or> PortEnd r0 > 0))"
    using assms(2) unfolding ValidateRule_def if_Some_None by blast+
  then show ?thesis using assms(3) by (auto simp: port_match_def has_range_def)
qed

lemma valid_words:
  assumes "ValidateRule r = None"
  shows "Direction r = ''in'' \<or> Direction r = ''out''" "Action r = SecurityRuleAllow \<or> Action r = SecurityRuleDeny"
    "Protocol r \<in> {PROTO_ANY, PROTO_ICMP, PROTO_TCP, PROTO_UDP}"
  using assms unfolding ValidateRule_def if_Some_None by blast+

lemma check_request_read:
  assumes "check_request req = Inr row" and "CHR '':'' \<notin> set (gr_CIDR req)"
  shows "\<exists>r r0 n. toRule row = Inr r \<and> ParsePorts (request_rule req) (gr_Ports req) = Inr r0 \<and> parse_net (gr_CIDR row) = Some n \<and>
     Direction r = gr_Direction req \<and> Action r = gr_Action req \<and> Protocol r = gr_Protocol req \<and> Priority r = gr_Priority req \<and>
     (\<forall>x. net_contains (Net r) x \<longleftrightarrow> net_contains n x) \<and> (\<forall>p. port_match r p = port_match r0 p)"
proof -
  have row: "row = (if length (gr_CIDR req) > 0 then req else req\<lparr>gr_CIDR := ''0.0.0.0/0''\<rparr>)" and ck: "check_rule row = None"
    and m: "length (gr_CIDR req) > 0 \<Longrightarrow> MatchCIDR (gr_CIDR req) \<or> MatchIPAddr (gr_CIDR req)"
    using assms(1) by (auto simp: check_request_def Let_def split: if_splits option.splits)
  have f: "gr_Direction row = gr_Direction req" "gr_Action row = gr_Action req" "gr_Protocol row = gr_Protocol req" "gr_Ports row = gr_Ports req"
    "gr_Priority row = gr_Priority req" "request_rule row = request_rule req" by (simp_all add: row request_rule_def)
  obtain r0 where r0: "ParsePorts (request_rule req) (gr_Ports req) = Inr r0" "ValidateRule r0 = None"
    using ck unfolding check_rule_def f by (auto split: sum.splits)
  note v = valid_words [OF r0(2)]
  have rf: "Direction r0 = gr_Direction req" "Action r0 = gr_Action req" "Protocol r0 = gr_Protocol req"
    using ParsePorts_fields [OF r0(1)] by (simp_all add: request_rule_def)
  let ?nt = "if gr_CIDR row \<noteq> ''0.0.0.0/0'' then gr_CIDR row else []"
  obtain n n' where n: "parse_net (gr_CIDR row) = Some n'" "\<forall>x. net_contains n x \<longleftrightarrow> net_contains n' x"
    "?nt \<noteq> [] \<Longrightarrow> word_ok ?nt \<and> parse_net ?nt = Some n" "?nt = [] \<Longrightarrow> n = \<lparr>IP = IPv4zero, Mask = net_CIDRMask 0 32\<rparr>"
  proof (cases "gr_CIDR row = ''0.0.0.0/0''")
    case True
    with zero_net_text that show ?thesis by auto
  next
    case False
    then have c: "gr_CIDR row = gr_CIDR req" "length (gr_CIDR req) > 0" using row by (auto split: if_splits)
    from net_text_accepted [OF assms(2) m [OF c(2)]] that False c show ?thesis by auto
  qed
  define rule where "rule = empty_rule\<lparr>Direction := gr_Direction req, Action := gr_Action req, Net := n, Protocol := gr_Protocol req\<rparr>"
  have "length (gr_Direction row) > 0" "length (gr_Protocol row) > 0" using v rf f by (auto simp: proto_defs)
  from stored_words [OF this] have s: "stored_String row = gr_Direction req @ '':'' @ strings_Join '' ''
      (rule_words (gr_Action req) ?nt (gr_Protocol req) (gr_Ports req))" unfolding f .
  have e: "ParseSecurityRule (stored_String row) =
      (if gr_Protocol req = PROTO_ANY \<or> gr_Protocol req = PROTO_ICMP then Inr rule else ParsePorts rule (gr_Ports req))"
    unfolding s rule_def
  proof (rule ParseSecurityRule_words)
    show "gr_Ports req \<noteq> [] \<Longrightarrow> word_ok (gr_Ports req)" by (rule ParsePorts_word [OF r0(1)])
  qed (use v [unfolded rf] n(3,4) in \<open>auto split: if_splits\<close>)
  have b: "Ports rule = []" "\<not> has_range rule" "Ports (request_rule req) = []" "\<not> has_range (request_rule req)"
    by (simp_all add: rule_def empty_rule_def has_range_def request_rule_def)
  obtain r where r: "ParseSecurityRule (stored_String row) = Inr r" "Direction r = gr_Direction req" "Action r = gr_Action req"
    "Protocol r = gr_Protocol req" "Net r = n" "\<forall>p. port_match r p = port_match r0 p"
  proof (cases "gr_Protocol req = PROTO_ANY \<or> gr_Protocol req = PROTO_ICMP")
    case True
    then have "port_match r0 p" for p using no_ports_any [OF r0(1,2)] by (simp add: rf)
    moreover have "port_match rule p" for p using b by (simp add: port_match_def)
    ultimately show ?thesis using that [of rule] e True by (simp add: rule_def)
  next
    case False
    from ParsePorts_same [OF r0(1) b(3,4,1,2)] obtain r where "ParsePorts rule (gr_Ports req) = Inr r" "\<forall>p. port_match r p = port_match r0 p" by blast
    then show ?thesis using that [of r] e False ParsePorts_fields by (auto simp: rule_def)
  qed
  have "port_match (r\<lparr>Description := d, Priority := k\<rparr>) p = port_match r p" for d k p by (simp add: port_match_def has_range_def)
  then show ?thesis using r r0(1) n(1,2) f(5) by (auto simp: toRule_def)
qed

section \<open>Properties\<close>

text \<open>
  C16. A valid rule of a public cloud survives being stored: the row made from it is read back
  as a rule with the same direction, action, protocol, priority and description that matches
  the same packets.
\<close>

theorem stored_rule_roundtrip:
  assumes "rule_ok r"
  shows "\<exists>r'. toRule (newFromCloudSecurityGroup r g) = Inr r' \<and> Direction r' = Direction r \<and> Action r' = Action r \<and>
     Protocol r' = Protocol r \<and> Priority r' = Priority r \<and> Description r' = Description r \<and> (\<forall>p. matches r' p = matches r p)"
  using stored_rule_read [OF assms, of g] by blast

lemma stored_rule_roundtrip_witness:
  "\<exists>r'. toRule (newFromCloudSecurityGroup (hd demo_in) ''default'') = Inr r' \<and> Direction r' = Direction (hd demo_in) \<and>
     Action r' = Action (hd demo_in) \<and> Protocol r' = Protocol (hd demo_in) \<and> Priority r' = Priority (hd demo_in) \<and>
     Description r' = Description (hd demo_in) \<and> (\<forall>p. matches r' p = matches (hd demo_in) p)"
  using rule_ok_demo_in by (intro stored_rule_roundtrip) (simp add: demo_in_def)


definition demo_request :: SSecurityGroupRule where
  "demo_request = \<lparr>gr_Priority = 1, gr_Protocol = ''tcp'', gr_Ports = ''80,443'', gr_Direction = ''in'', gr_CIDR = [],
     gr_Action = ''allow'', gr_Description = [], gr_SecgroupID = []\<rparr>"


end
