(* ===== verification/Secgroups.thy ===== *)
theory Secgroups
  imports Secgroup_Rules
begin

text \<open>
  Security groups and their references in the database of the compute service,
  \<^verbatim>\<open>pkg/compute/models/secgroups.go\<close>, \<^verbatim>\<open>guestsecgroups.go\<close>, \<^verbatim>\<open>secgroupcache.go\<close> and the
  security group actions of \<^verbatim>\<open>guests.go\<close> and \<^verbatim>\<open>guest_actions.go\<close>.

  The tables hold the rows that are not deleted, in the order in which a query returns them;
  as the statements are about every state, that order is arbitrary. \<open>faults\<close> says of each
  further access to the database whether it fails; no entry means no failure. \<open>timers\<close> are
  the pending delayed synchronisations and \<open>synced\<close> the guests whose synchronisation task
  was started. The lookup of a security group by identifier or name depends on the
  credentials of the user and is an argument.
\<close>

section \<open>The database\<close>

record SSecurityGroup =
  sg_Id :: string
  sg_Name :: string
  sg_Description :: string
  sg_ProjectId :: string
  sg_IsDirty :: bool
  sg_PendingDeleted :: bool

record SGuest =
  gu_Id :: string
  gu_Hypervisor :: string
  gu_Status :: string
  gu_SecgrpId :: string
  gu_AdminSecgrpId :: string

record SGuestsecgroup =
  gs_RowId :: nat
  gs_GuestId :: string
  gs_SecgroupId :: string

record SSecurityGroupCache =
  sc_Id :: string
  sc_SecgroupId :: string
  sc_VpcId :: string
  sc_CloudregionId :: string
  sc_ManagerId :: string
  sc_ExternalId :: string

record DB =
  secgroups :: "SSecurityGroup list"
  group_rules :: "SSecurityGroupRule list"
  caches :: "SSecurityGroupCache list"
  guests :: "SGuest list"
  guestsecgroups :: "SGuestsecgroup list"
  faults :: "bool list"
  timers :: "string list"
  synced :: "string list"

text \<open>One access to the database: whether it fails.\<close>

definition db_call :: "DB \<Rightarrow> bool \<times> DB" where
  "db_call db = (case faults db of [] \<Rightarrow> (False, db) | f # fs \<Rightarrow> (f, db\<lparr>faults := fs\<rparr>))"

text \<open>A loop of updates, one access each, that stops at the first failure.\<close>

fun update_loop :: "('a \<Rightarrow> DB \<Rightarrow> DB) \<Rightarrow> 'a list \<Rightarrow> DB \<Rightarrow> sg_error option \<times> DB" where
  "update_loop f [] db = (None, db)"
| "update_loop f (x # xs) db =
     (case db_call db of
        (True, db) \<Rightarrow> (Some DbError, db)
      | (False, db) \<Rightarrow> update_loop f xs (f x db))"

definition update_guest :: "string \<Rightarrow> (SGuest \<Rightarrow> SGuest) \<Rightarrow> DB \<Rightarrow> DB" where
  "update_guest gid f db = db\<lparr>guests := map (\<lambda>g. if gu_Id g = gid then f g else g) (guests db)\<rparr>"

definition update_group :: "string \<Rightarrow> (SSecurityGroup \<Rightarrow> SSecurityGroup) \<Rightarrow> DB \<Rightarrow> DB" where
  "update_group gid f db = db\<lparr>secgroups := map (\<lambda>g. if sg_Id g = gid then f g else g) (secgroups db)\<rparr>"

section \<open>Rules of a group\<close>

definition getSecurityRules :: "string \<Rightarrow> string \<Rightarrow> DB \<Rightarrow> SSecurityGroupRule list \<times> DB" where
  "getSecurityRules self direction db =
     (case db_call db of
        (True, db) \<Rightarrow> ([], db)
      | (False, db) \<Rightarrow>
          let rows = sort_key (\<lambda>r. - gr_Priority r) (filter (\<lambda>r. gr_SecgroupID r = self) (group_rules db)) in
          (if length direction > 0 \<and> direction \<in> {''in'', ''out''}
           then filter (\<lambda>r. gr_Direction r = direction) rows else rows, db))"

definition readable :: "SSecurityGroupRule list \<Rightarrow> SecurityRule list" where
  "readable rows = List.map_filter (\<lambda>row. case toRule row of Inl _ \<Rightarrow> None | Inr rule \<Rightarrow> Some rule) rows"

definition GetSecRules :: "string \<Rightarrow> string \<Rightarrow> DB \<Rightarrow> SecurityRule list \<times> DB" where
  "GetSecRules self direction db =
     (case getSecurityRules self direction db of (rows, db) \<Rightarrow> (readable rows, db))"

definition getSecurityRuleString :: "string \<Rightarrow> string \<Rightarrow> DB \<Rightarrow> string \<times> DB" where
  "getSecurityRuleString self direction db =
     (case getSecurityRules self direction db of (rows, db) \<Rightarrow> (strings_Join '';'' (map stored_String rows), db))"

definition getSecurityGroupRuleSet :: "string \<Rightarrow> DB \<Rightarrow> (SecurityGroupRuleSet \<times> DB) option" where
  "getSecurityGroupRuleSet self db =
     (case GetSecRules self [] db of (rules, db) \<Rightarrow> do { srs \<leftarrow> AddRules [] rules; Some (srs, db) })"

section \<open>Synchronisation\<close>

definition excluded :: "string \<Rightarrow> bool" where
  "excluded hypervisor \<longleftrightarrow> hypervisor \<in> {''container'', ''baremetal'', ''esxi''}"

definition GetGuestsQuery :: "string \<Rightarrow> DB \<Rightarrow> SGuest list" where
  "GetGuestsQuery self db =
     filter (\<lambda>g. (gu_SecgrpId g = self \<or> gu_AdminSecgrpId g = self \<or>
                  gu_Id g \<in> gs_GuestId ` set (filter (\<lambda>gs. gs_SecgroupId gs = self) (guestsecgroups db))) \<and>
                 \<not> excluded (gu_Hypervisor g)) (guests db)"

definition GetGuests :: "string \<Rightarrow> DB \<Rightarrow> SGuest list \<times> DB" where
  "GetGuests self db = (case db_call db of (True, db) \<Rightarrow> ([], db) | (False, db) \<Rightarrow> (GetGuestsQuery self db, db))"

definition DoSync :: "string \<Rightarrow> DB \<Rightarrow> DB" where
  "DoSync self db =
     (case db_call db of
        (True, db) \<Rightarrow> db\<lparr>timers := timers db @ [self]\<rparr>
      | (False, db) \<Rightarrow>
          let db = update_group self (\<lambda>g. g\<lparr>sg_IsDirty := True\<rparr>) db in db\<lparr>timers := timers db @ [self]\<rparr>)"

definition DelaySync :: "string \<Rightarrow> DB \<Rightarrow> DB" where
  "DelaySync idStr db =
     (if length idStr = 0 then db
      else case db_call db of
        (True, db) \<Rightarrow> db
      | (False, db) \<Rightarrow>
          (case find (\<lambda>g. sg_Id g = idStr) (secgroups db) of
             None \<Rightarrow> db
           | Some secgrp \<Rightarrow>
               if sg_IsDirty secgrp then
                 let db = (case db_call db of
                             (True, db) \<Rightarrow> db
                           | (False, db) \<Rightarrow> update_group idStr (\<lambda>g. g\<lparr>sg_IsDirty := False\<rparr>) db) in
                 (case GetGuests idStr db of (gs, db) \<Rightarrow> db\<lparr>synced := synced db @ map gu_Id gs\<rparr>)
               else db))"

section \<open>Operations on a group\<close>

text \<open>
  The request is decoded into a row that names the group itself, so that an identifier in
  the request takes its place.
\<close>

definition PerformAddRule :: "string \<Rightarrow> SSecurityGroupRule \<Rightarrow> DB \<Rightarrow> sg_error option \<times> DB" where
  "PerformAddRule self data db =
     (let row = (if gr_SecgroupID data = [] then data\<lparr>gr_SecgroupID := self\<rparr> else data) in
      case check_request row of
        Inl err \<Rightarrow> (Some err, db)
      | Inr row \<Rightarrow>
          (case db_call db of
             (True, db) \<Rightarrow> (Some DbError, db)
           | (False, db) \<Rightarrow> (None, DoSync self (db\<lparr>group_rules := group_rules db @ [row]\<rparr>))))"

definition insert_rule :: "SSecurityGroupRule \<Rightarrow> DB \<Rightarrow> DB" where
  "insert_rule row db = db\<lparr>group_rules := group_rules db @ [row]\<rparr>"

text \<open>The identifier of a new group is drawn by the caller.\<close>

definition PerformClone :: "string \<Rightarrow> string \<Rightarrow> string \<Rightarrow> string \<Rightarrow> string \<Rightarrow> DB \<Rightarrow> sg_error option \<times> DB" where
  "PerformClone self newId name desc project db =
     (if length name = 0 then (Some (MissingParameter ''name''), db)
      else if name \<in> sg_Name ` set (secgroups db) then (Some (DuplicateName name), db)
      else case db_call db of
        (True, db) \<Rightarrow> (Some DbError, db)
      | (False, db) \<Rightarrow>
          let db = db\<lparr>secgroups := secgroups db @ [\<lparr>sg_Id = newId, sg_Name = name, sg_Description = desc,
                 sg_ProjectId = project, sg_IsDirty = False, sg_PendingDeleted = False\<rparr>]\<rparr> in
          case getSecurityRules self [] db of
            (rows, db) \<Rightarrow> update_loop (\<lambda>row. insert_rule (row\<lparr>gr_SecgroupID := newId\<rparr>)) rows db)"

fun SyncRules :: "string \<Rightarrow> SecurityRule list \<Rightarrow> DB \<Rightarrow> DB" where
  "SyncRules gid [] db = db"
| "SyncRules gid (rule # rules) db =
     (case db_call db of
        (True, db) \<Rightarrow> SyncRules gid rules db
      | (False, db) \<Rightarrow> SyncRules gid rules (insert_rule (newFromCloudSecurityGroup rule gid) db))"

fun find_equal :: "SecurityGroupRuleSet \<Rightarrow> SSecurityGroup list \<Rightarrow> DB \<Rightarrow> (SSecurityGroup option \<times> DB) option" where
  "find_equal srs [] db = Some (None, db)"
| "find_equal srs (g # gs) db =
     do {
       (srs', db) \<leftarrow> getSecurityGroupRuleSet (sg_Id g) db;
       if IsEqual srs srs' then Some (Some g, db) else find_equal srs gs db
     }"

definition newFromCloudSecgroup ::
    "string \<Rightarrow> string \<Rightarrow> string \<Rightarrow> string \<Rightarrow> SecurityRule list option \<Rightarrow> DB \<Rightarrow> ((sg_error + SSecurityGroup) \<times> DB) option" where
  "newFromCloudSecgroup newId name desc project getRules db =
     (case getRules of
        None \<Rightarrow> Some (Inl CloudError, db)
      | Some rules \<Rightarrow>
          do {
            srs \<leftarrow> AddRules [] rules;
            (found, db) \<leftarrow> (case db_call db of (True, db) \<Rightarrow> Some (None, db) | (False, db) \<Rightarrow> find_equal srs (secgroups db) db);
            case found of
              Some g \<Rightarrow> Some (Inr g, db)
            | None \<Rightarrow>
                let g = \<lparr>sg_Id = newId, sg_Name = name, sg_Description = desc, sg_ProjectId = project, sg_IsDirty = False, sg_PendingDeleted = False\<rparr> in
                (case db_call db of
                   (True, db) \<Rightarrow> Some (Inl DbError, db)
                 | (False, db) \<Rightarrow> Some (Inr g, SyncRules newId rules (db\<lparr>secgroups := secgroups db @ [g]\<rparr>)))
          })"

section \<open>Uniting groups\<close>

definition migrateSecurityGroupCache :: "string \<Rightarrow> string \<Rightarrow> DB \<Rightarrow> sg_error option \<times> DB" where
  "migrateSecurityGroupCache self secgroup db =
     (case db_call db of
        (True, db) \<Rightarrow> (Some DbError, db)
      | (False, db) \<Rightarrow>
          update_loop (\<lambda>c db. db\<lparr>caches := map (\<lambda>x. if sc_Id x = sc_Id c then x\<lparr>sc_SecgroupId := self\<rparr> else x) (caches db)\<rparr>)
            (filter (\<lambda>c. sc_SecgroupId c = secgroup) (caches db)) db)"

definition rename_guest :: "string \<Rightarrow> string \<Rightarrow> SGuest \<Rightarrow> SGuest" where
  "rename_guest secgroup self guest =
     (let guest = (if gu_SecgrpId guest = secgroup then guest\<lparr>gu_SecgrpId := self\<rparr> else guest) in
      if gu_AdminSecgrpId guest = secgroup then guest\<lparr>gu_AdminSecgrpId := self\<rparr> else guest)"

definition migrateGuestSecurityGroup :: "string \<Rightarrow> string \<Rightarrow> DB \<Rightarrow> sg_error option \<times> DB" where
  "migrateGuestSecurityGroup self secgroup db =
     (case GetGuests secgroup db of
        (gs, db) \<Rightarrow>
          (case update_loop (\<lambda>g. update_guest (gu_Id g) (rename_guest secgroup self)) gs db of
             (Some err, db) \<Rightarrow> (Some err, db)
           | (None, db) \<Rightarrow>
               (case db_call db of
                  (True, db) \<Rightarrow> (Some DbError, db)
                | (False, db) \<Rightarrow>
                    update_loop (\<lambda>gs db. db\<lparr>guestsecgroups := map (\<lambda>x. if gs_RowId x = gs_RowId gs then x\<lparr>gs_SecgroupId := self\<rparr> else x)
                        (guestsecgroups db)\<rparr>)
                      (filter (\<lambda>gs. gs_SecgroupId gs = secgroup) (guestsecgroups db)) db)))"

text \<open>Marking the group as pending deleted is tried first, and its failure is ignored.\<close>

definition delete_group :: "string \<Rightarrow> DB \<Rightarrow> sg_error option \<times> DB" where
  "delete_group self db =
     (let pending = (\<exists>g \<in> set (secgroups db). sg_Id g = self \<and> sg_PendingDeleted g);
          db = (if pending then db
                else case db_call db of
                  (True, db) \<Rightarrow> db
                | (False, db) \<Rightarrow> update_group self (\<lambda>g. g\<lparr>sg_PendingDeleted := True\<rparr>) db) in
      case db_call db of
        (True, db) \<Rightarrow> (Some DbError, db)
      | (False, db) \<Rightarrow> (None, db\<lparr>secgroups := filter (\<lambda>g. sg_Id g \<noteq> self) (secgroups db)\<rparr>))"

definition RealDelete :: "string \<Rightarrow> DB \<Rightarrow> sg_error option \<times> DB" where
  "RealDelete self db =
     (case db_call db of
        (True, db) \<Rightarrow> (Some DbError, db)
      | (False, db) \<Rightarrow>
          (case update_loop (\<lambda>row db. db\<lparr>group_rules := remove1 row (group_rules db)\<rparr>)
                  (filter (\<lambda>r. gr_SecgroupID r = self) (group_rules db)) db of
             (Some err, db) \<Rightarrow> (Some err, db)
           | (None, db) \<Rightarrow> delete_group self db))"

fun union_check ::
    "(string \<Rightarrow> SSecurityGroup option) \<Rightarrow> SSecurityGroup \<Rightarrow> SecurityGroupRuleSet \<Rightarrow> string list \<Rightarrow> DB \<Rightarrow> ((sg_error + SSecurityGroup list) \<times> DB) option" where
  "union_check fetch self srs [] db = Some (Inr [], db)"
| "union_check fetch self srs (secgroupId # ids) db =
     (case fetch secgroupId of
        None \<Rightarrow> Some (Inl (SecgroupNotFound secgroupId), db)
      | Some secgroup \<Rightarrow>
          do {
            (srs', db) \<leftarrow> getSecurityGroupRuleSet (sg_Id secgroup) db;
            if \<not> IsEqual srs srs' then Some (Inl (RulesDiffer (sg_Name secgroup) (sg_Name self)), db)
            else do {
              (res, db) \<leftarrow> union_check fetch self srs ids db;
              Some (case res of Inl err \<Rightarrow> Inl err | Inr gs \<Rightarrow> Inr (secgroup # gs), db)
            }
          })"

fun union_loop :: "string \<Rightarrow> SSecurityGroup list \<Rightarrow> DB \<Rightarrow> sg_error option \<times> DB" where
  "union_loop self [] db = (None, db)"
| "union_loop self (secgroup # gs) db =
     (case migrateSecurityGroupCache self (sg_Id secgroup) db of
        (Some err, db) \<Rightarrow> (Some err, db)
      | (None, db) \<Rightarrow>
          (case migrateGuestSecurityGroup self (sg_Id secgroup) db of
             (Some err, db) \<Rightarrow> (Some err, db)
           | (None, db) \<Rightarrow> union_loop self gs (snd (RealDelete (sg_Id secgroup) db))))"

definition PerformUnion ::
    "(string \<Rightarrow> SSecurityGroup option) \<Rightarrow> SSecurityGroup \<Rightarrow> string list \<Rightarrow> DB \<Rightarrow> (sg_error option \<times> DB) option" where
  "PerformUnion fetch self secgroupIds db =
     (if length secgroupIds = 0 then Some (Some (MissingParameter ''secgroups''), db)
      else do {
        (srs, db) \<leftarrow> getSecurityGroupRuleSet (sg_Id self) db;
        (res, db) \<leftarrow> union_check fetch self srs secgroupIds db;
        Some (case res of
            Inl err \<Rightarrow> (Some err, db)
          | Inr gs \<Rightarrow>
              (case union_loop (sg_Id self) gs db of
                 (Some err, db) \<Rightarrow> (Some err, db)
               | (None, db) \<Rightarrow> (None, DoSync (sg_Id self) db)))
      })"

section \<open>Accesses that do not fail\<close>

lemma db_call_ok [simp]: "faults db = [] \<Longrightarrow> db_call db = (False, db)"
  by (simp add: db_call_def)

lemma update_loop_ok:
  "faults db = [] \<Longrightarrow> (\<And>x db. faults (f x db) = faults db) \<Longrightarrow> update_loop f xs db = (None, fold f xs db)"
  by (induction xs arbitrary: db) simp_all

text \<open>Updating the selected rows one by one is one pass over the table.\<close>

lemma fold_rows:
  assumes "\<And>x. key (h x) = key x"
  shows "distinct (map key cs) \<Longrightarrow> fold (\<lambda>c. map (\<lambda>x. if key x = key c then h x else x)) cs xs =
    map (\<lambda>x. if key x \<in> key ` set cs then h x else x) xs"
  by (induction cs arbitrary: xs) (auto simp: assms)

lemma fold_selected:
  assumes "\<And>x. key (h x) = key x" and "distinct (map key rows)"
  shows "fold (\<lambda>c. map (\<lambda>x. if key x = key c then h x else x)) (filter P rows) rows = map (\<lambda>x. if P x then h x else x) rows"
proof -
  have "distinct (map key (filter P rows))" using assms(2) by (simp add: distinct_map_filter)
  moreover have "key x \<in> key ` set (filter P rows) \<longleftrightarrow> P x" if "x \<in> set rows" for x
    using assms(2) that by (auto simp: distinct_map dest: inj_onD)
  ultimately show ?thesis by (simp add: fold_rows [where key = key and h = h, OF assms(1)])
qed

lemma fold_remove1_Cons: "x \<notin> set ys \<Longrightarrow> fold remove1 ys (x # xs) = x # fold remove1 ys xs"
  by (induction ys arbitrary: xs) auto

lemma fold_remove1_filter: "fold remove1 (filter P xs) xs = filter (\<lambda>x. \<not> P x) xs"
  by (induction xs) (auto simp: fold_remove1_Cons)

definition tables_ok :: "DB \<Rightarrow> bool" where
  "tables_ok db \<longleftrightarrow> distinct (map sg_Id (secgroups db)) \<and> distinct (map sc_Id (caches db)) \<and>
     distinct (map gu_Id (guests db)) \<and> distinct (map gs_RowId (guestsecgroups db))"

text \<open>A table of the record updated in a loop.\<close>

lemma fold_caches: "fold (\<lambda>c db. db\<lparr>caches := h c (caches db)\<rparr>) cs db = db\<lparr>caches := fold h cs (caches db)\<rparr>"
  by (induction cs arbitrary: db) simp_all

lemma fold_joints: "fold (\<lambda>c db. db\<lparr>guestsecgroups := h c (guestsecgroups db)\<rparr>) cs db = db\<lparr>guestsecgroups := fold h cs (guestsecgroups db)\<rparr>"
  by (induction cs arbitrary: db) simp_all

lemma fold_guests: "fold (\<lambda>c db. db\<lparr>guests := h c (guests db)\<rparr>) cs db = db\<lparr>guests := fold h cs (guests db)\<rparr>"
  by (induction cs arbitrary: db) simp_all

lemma fold_group_rules: "fold (\<lambda>c db. db\<lparr>group_rules := h c (group_rules db)\<rparr>) cs db = db\<lparr>group_rules := fold h cs (group_rules db)\<rparr>"
  by (induction cs arbitrary: db) simp_all

lemma migrateSecurityGroupCache_ok:
  assumes "faults db = []" and "tables_ok db"
  shows "migrateSecurityGroupCache self g db =
    (None, db\<lparr>caches := map (\<lambda>c. if sc_SecgroupId c = g then c\<lparr>sc_SecgroupId := self\<rparr> else c) (caches db)\<rparr>)"
proof -
  let ?rows = "filter (\<lambda>c. sc_SecgroupId c = g) (caches db)"
  have "migrateSecurityGroupCache self g db = (None, fold (\<lambda>c db. db\<lparr>caches :=
      map (\<lambda>x. if sc_Id x = sc_Id c then x\<lparr>sc_SecgroupId := self\<rparr> else x) (caches db)\<rparr>) ?rows db)"
    using assms(1) by (simp add: migrateSecurityGroupCache_def update_loop_ok)
  also have "\<dots> = (None, db\<lparr>caches := map (\<lambda>c. if sc_SecgroupId c = g then c\<lparr>sc_SecgroupId := self\<rparr> else c) (caches db)\<rparr>)"
    unfolding fold_caches [where h = "\<lambda>c. map (\<lambda>x. if sc_Id x = sc_Id c then x\<lparr>sc_SecgroupId := self\<rparr> else x)"]
    using assms(2) by (simp add: fold_selected [where key = sc_Id] tables_ok_def)
  finally show ?thesis .
qed

lemma rename_guest_Id: "gu_Id (rename_guest g self x) = gu_Id x"
  by (simp add: rename_guest_def Let_def)

lemma rename_guest_other: "gu_SecgrpId x \<noteq> g \<Longrightarrow> gu_AdminSecgrpId x \<noteq> g \<Longrightarrow> rename_guest g self x = x"
  by (simp add: rename_guest_def)

lemma migrateGuestSecurityGroup_ok:
  assumes "faults db = []" and "tables_ok db" and "\<forall>x \<in> set (guests db). \<not> excluded (gu_Hypervisor x)"
  shows "migrateGuestSecurityGroup self g db = (None, db\<lparr>guests := map (rename_guest g self) (guests db),
    guestsecgroups := map (\<lambda>x. if gs_SecgroupId x = g then x\<lparr>gs_SecgroupId := self\<rparr> else x) (guestsecgroups db)\<rparr>)"
proof -
  let ?P = "\<lambda>x. gu_SecgrpId x = g \<or> gu_AdminSecgrpId x = g \<or> gu_Id x \<in> gs_GuestId ` set (filter (\<lambda>gs. gs_SecgroupId gs = g) (guestsecgroups db))"
  have sel: "GetGuestsQuery g db = filter ?P (guests db)"
    unfolding GetGuestsQuery_def using assms(3) by (intro filter_cong) auto
  have "fold (\<lambda>x. update_guest (gu_Id x) (rename_guest g self)) (filter ?P (guests db)) db =
      db\<lparr>guests := map (\<lambda>x. if ?P x then rename_guest g self x else x) (guests db)\<rparr>"
    unfolding update_guest_def
      fold_guests [where h = "\<lambda>x. map (\<lambda>y. if gu_Id y = gu_Id x then rename_guest g self y else y)"] using assms(2)
    by (subst fold_selected [where key = gu_Id]) (simp_all add: rename_guest_Id tables_ok_def)
  moreover have "map (\<lambda>x. if ?P x then rename_guest g self x else x) (guests db) = map (rename_guest g self) (guests db)"
    by (rule map_cong) (auto simp: rename_guest_other)
  ultimately have 1: "update_loop (\<lambda>x. update_guest (gu_Id x) (rename_guest g self)) (GetGuestsQuery g db) db =
      (None, db\<lparr>guests := map (rename_guest g self) (guests db)\<rparr>)"
    unfolding sel using assms(1) by (subst update_loop_ok) (simp_all add: update_guest_def)
  have 2: "update_loop (\<lambda>gs db. db\<lparr>guestsecgroups := map (\<lambda>x. if gs_RowId x = gs_RowId gs then x\<lparr>gs_SecgroupId := self\<rparr> else x) (guestsecgroups db)\<rparr>)
      (filter (\<lambda>gs. gs_SecgroupId gs = g) (guestsecgroups db)) db' =
      (None, db'\<lparr>guestsecgroups := map (\<lambda>x. if gs_SecgroupId x = g then x\<lparr>gs_SecgroupId := self\<rparr> else x) (guestsecgroups db')\<rparr>)"
    if "faults db' = []" "guestsecgroups db' = guestsecgroups db" for db'
    using that assms(2) by (subst update_loop_ok) (simp_all add: tables_ok_def fold_selected [where key = gs_RowId]
        fold_joints [where h = "\<lambda>gs. map (\<lambda>x. if gs_RowId x = gs_RowId gs then x\<lparr>gs_SecgroupId := self\<rparr> else x)"])
  show ?thesis
    unfolding migrateGuestSecurityGroup_def GetGuests_def using assms(1) 1 2 [of "db\<lparr>guests := map (rename_guest g self) (guests db)\<rparr>"] by simp
qed

lemma RealDelete_ok:
  assumes "faults db = []"
  shows "RealDelete g db = (None, db\<lparr>group_rules := filter (\<lambda>r. gr_SecgroupID r \<noteq> g) (group_rules db),
    secgroups := filter (\<lambda>x. sg_Id x \<noteq> g) (secgroups db)\<rparr>)"
proof -
  have "update_loop (\<lambda>row db. db\<lparr>group_rules := remove1 row (group_rules db)\<rparr>) (filter (\<lambda>r. gr_SecgroupID r = g) (group_rules db)) db =
      (None, db\<lparr>group_rules := filter (\<lambda>r. gr_SecgroupID r \<noteq> g) (group_rules db)\<rparr>)"
    using assms by (subst update_loop_ok) (simp_all add: fold_group_rules [where h = remove1] fold_remove1_filter)
  moreover have "filter (\<lambda>x. sg_Id x \<noteq> g) (map (\<lambda>x. if sg_Id x = g then x\<lparr>sg_PendingDeleted := True\<rparr> else x) xs) = filter (\<lambda>x. sg_Id x \<noteq> g) xs" for xs :: "SSecurityGroup list"
    by (induction xs) simp_all
  ultimately show ?thesis using assms by (simp add: RealDelete_def delete_group_def update_group_def Let_def)
qed

section \<open>The union of groups\<close>

definition united :: "string \<Rightarrow> string \<Rightarrow> DB \<Rightarrow> DB" where
  "united self g db = db\<lparr>
     caches := map (\<lambda>c. if sc_SecgroupId c = g then c\<lparr>sc_SecgroupId := self\<rparr> else c) (caches db),
     guests := map (rename_guest g self) (guests db),
     guestsecgroups := map (\<lambda>x. if gs_SecgroupId x = g then x\<lparr>gs_SecgroupId := self\<rparr> else x) (guestsecgroups db),
     group_rules := filter (\<lambda>r. gr_SecgroupID r \<noteq> g) (group_rules db),
     secgroups := filter (\<lambda>x. sg_Id x \<noteq> g) (secgroups db)\<rparr>"

definition supported :: "DB \<Rightarrow> bool" where
  "supported db \<longleftrightarrow> (\<forall>x \<in> set (guests db). \<not> excluded (gu_Hypervisor x))"

lemma map_same_key: "(\<And>x. key (h x) = key x) \<Longrightarrow> map key (map h xs) = map key xs"
  by simp

lemma tables_ok_united: "tables_ok db \<Longrightarrow> tables_ok (united self g db)"
proof -
  have "map sc_Id (map (\<lambda>c. if sc_SecgroupId c = g then c\<lparr>sc_SecgroupId := self\<rparr> else c) xs) = map sc_Id xs" for xs :: "SSecurityGroupCache list"
    by (rule map_same_key) simp
  moreover have "map gs_RowId (map (\<lambda>c. if gs_SecgroupId c = g then c\<lparr>gs_SecgroupId := self\<rparr> else c) xs) = map gs_RowId xs" for xs :: "SGuestsecgroup list"
    by (rule map_same_key) simp
  moreover have "map gu_Id (map (rename_guest g self) xs) = map gu_Id xs" for xs
    by (rule map_same_key) (rule rename_guest_Id)
  ultimately show "tables_ok db \<Longrightarrow> tables_ok (united self g db)"
    by (simp add: tables_ok_def united_def distinct_map_filter del: map_map)
qed

lemma united_keeps [simp]: "faults (united self g db) = faults db" "timers (united self g db) = timers db"
  "synced (united self g db) = synced db" "supported (united self g db) \<longleftrightarrow> supported db"
proof -
  have "gu_Hypervisor (rename_guest g self x) = gu_Hypervisor x" for x by (simp add: rename_guest_def Let_def)
  then show "supported (united self g db) \<longleftrightarrow> supported db" by (simp add: united_def supported_def)
qed (simp_all add: united_def)

lemma union_loop_ok:
  "faults db = [] \<Longrightarrow> tables_ok db \<Longrightarrow> supported db \<Longrightarrow>
   union_loop self gs db = (None, fold (united self) (map sg_Id gs) db)"
proof (induction gs arbitrary: db)
  case (Cons x gs)
  let ?g = "sg_Id x"
  let ?c = "db\<lparr>caches := map (\<lambda>c. if sc_SecgroupId c = ?g then c\<lparr>sc_SecgroupId := self\<rparr> else c) (caches db)\<rparr>"
  have c: "migrateSecurityGroupCache self ?g db = (None, ?c)" by (rule migrateSecurityGroupCache_ok [OF Cons.prems(1,2)])
  have "map sc_Id (caches ?c) = map sc_Id (caches db)" by simp
  then have "tables_ok ?c" using Cons.prems(2) by (simp add: tables_ok_def del: map_map)
  moreover have "faults ?c = []" "\<forall>y \<in> set (guests ?c). \<not> excluded (gu_Hypervisor y)" using Cons.prems by (simp_all add: supported_def)
  ultimately have m: "snd (RealDelete ?g (snd (migrateGuestSecurityGroup self ?g ?c))) = united self ?g db"
    "fst (migrateGuestSecurityGroup self ?g ?c) = None"
    using migrateGuestSecurityGroup_ok [of ?c self ?g] by (simp_all add: RealDelete_ok united_def)
  obtain e d where ed: "migrateGuestSecurityGroup self ?g ?c = (e, d)" by (cases "migrateGuestSecurityGroup self ?g ?c")
  have "union_loop self (x # gs) db = union_loop self gs (united self ?g db)" using c ed m by simp
  also have "\<dots> = (None, fold (united self) (map sg_Id gs) (united self ?g db))"
    using Cons.prems tables_ok_united by (intro Cons.IH) simp_all
  finally show ?case by simp
qed simp

text \<open>Uniting the groups one by one is renaming them all.\<close>

definition renamed :: "string set \<Rightarrow> string \<Rightarrow> string \<Rightarrow> string" where
  "renamed G self x = (if x \<in> G then self else x)"

definition renamed_db :: "string set \<Rightarrow> string \<Rightarrow> DB \<Rightarrow> DB" where
  "renamed_db G self db = db\<lparr>
     caches := map (\<lambda>c. c\<lparr>sc_SecgroupId := renamed G self (sc_SecgroupId c)\<rparr>) (caches db),
     guests := map (\<lambda>g. g\<lparr>gu_SecgrpId := renamed G self (gu_SecgrpId g), gu_AdminSecgrpId := renamed G self (gu_AdminSecgrpId g)\<rparr>) (guests db),
     guestsecgroups := map (\<lambda>x. x\<lparr>gs_SecgroupId := renamed G self (gs_SecgroupId x)\<rparr>) (guestsecgroups db),
     group_rules := filter (\<lambda>r. gr_SecgroupID r \<notin> G) (group_rules db),
     secgroups := filter (\<lambda>x. sg_Id x \<notin> G) (secgroups db)\<rparr>"

lemma renamed_step: "self \<noteq> g \<Longrightarrow> self \<notin> G \<Longrightarrow> renamed G self (if x = g then self else x) = renamed (insert g G) self x"
  by (simp add: renamed_def)

lemma renamed_db_empty: "renamed_db {} self db = db"
proof -
  have "map (\<lambda>c. c\<lparr>sc_SecgroupId := renamed {} self (sc_SecgroupId c)\<rparr>) xs = xs" for xs :: "SSecurityGroupCache list"
    by (induction xs) (simp_all add: renamed_def)
  moreover have "map (\<lambda>g. g\<lparr>gu_SecgrpId := renamed {} self (gu_SecgrpId g), gu_AdminSecgrpId := renamed {} self (gu_AdminSecgrpId g)\<rparr>) xs = xs"
    for xs :: "SGuest list" by (induction xs) (simp_all add: renamed_def)
  moreover have "map (\<lambda>x. x\<lparr>gs_SecgroupId := renamed {} self (gs_SecgroupId x)\<rparr>) xs = xs" for xs :: "SGuestsecgroup list"
    by (induction xs) (simp_all add: renamed_def)
  ultimately show ?thesis by (simp add: renamed_db_def)
qed

lemma renamed_db_united:
  assumes "self \<noteq> g" and "self \<notin> G"
  shows "renamed_db G self (united self g db) = renamed_db (insert g G) self db"
proof -
  note s = renamed_step [OF assms]
  have "(if sc_SecgroupId c = g then c\<lparr>sc_SecgroupId := self\<rparr> else c)\<lparr>sc_SecgroupId := renamed G self
      (sc_SecgroupId (if sc_SecgroupId c = g then c\<lparr>sc_SecgroupId := self\<rparr> else c))\<rparr> =
      c\<lparr>sc_SecgroupId := renamed (insert g G) self (sc_SecgroupId c)\<rparr>" for c :: SSecurityGroupCache
    using assms by (cases c) (simp add: renamed_def)
  moreover have "(if gs_SecgroupId c = g then c\<lparr>gs_SecgroupId := self\<rparr> else c)\<lparr>gs_SecgroupId := renamed G self
      (gs_SecgroupId (if gs_SecgroupId c = g then c\<lparr>gs_SecgroupId := self\<rparr> else c))\<rparr> =
      c\<lparr>gs_SecgroupId := renamed (insert g G) self (gs_SecgroupId c)\<rparr>" for c :: SGuestsecgroup
    using assms by (cases c) (simp add: renamed_def)
  moreover have "(rename_guest g self c)\<lparr>gu_SecgrpId := renamed G self (gu_SecgrpId (rename_guest g self c)),
      gu_AdminSecgrpId := renamed G self (gu_AdminSecgrpId (rename_guest g self c))\<rparr> =
      c\<lparr>gu_SecgrpId := renamed (insert g G) self (gu_SecgrpId c), gu_AdminSecgrpId := renamed (insert g G) self (gu_AdminSecgrpId c)\<rparr>" for c
    using assms by (cases c) (simp add: renamed_def rename_guest_def Let_def)
  ultimately show ?thesis by (simp add: renamed_db_def united_def o_def conj_commute)
qed

lemma fold_united: "self \<notin> set gs \<Longrightarrow> fold (united self) gs db = renamed_db (set gs) self db"
proof (induction gs arbitrary: db)
  case Nil
  show ?case by (simp add: renamed_db_empty)
next
  case (Cons g gs)
  then have "fold (united self) (g # gs) db = renamed_db (set gs) self (united self g db)" by simp
  also have "\<dots> = renamed_db (insert g (set gs)) self db" using Cons.prems by (intro renamed_db_united) simp_all
  finally show ?case by simp
qed

lemma rule_set_keeps: "faults db = [] \<Longrightarrow> getSecurityGroupRuleSet g db = Some (srs, db') \<Longrightarrow> db' = db"
  by (auto simp: getSecurityGroupRuleSet_def GetSecRules_def getSecurityRules_def split: bind_splits)

lemma union_check_keeps:
  "faults db = [] \<Longrightarrow> union_check fetch self srs ids db = Some (res, db') \<Longrightarrow>
   db' = db \<and> (\<forall>gs. res = Inr gs \<longrightarrow> map Some gs = map fetch ids)"
proof (induction ids arbitrary: res db')
  case (Cons i ids)
  show ?case
  proof (cases "fetch i")
    case None
    then show ?thesis using Cons.prems by auto
  next
    case (Some g)
    then obtain srs' d where d: "getSecurityGroupRuleSet (sg_Id g) db = Some (srs', d)" using Cons.prems(2) by (auto split: bind_splits)
    have [simp]: "d = db" by (rule rule_set_keeps [OF Cons.prems(1) d])
    show ?thesis
    proof (cases "IsEqual srs srs'")
      case True
      then obtain r where "union_check fetch self srs ids db = Some (r, db')" "res = (case r of Inl err \<Rightarrow> Inl err | Inr gs \<Rightarrow> Inr (g # gs))"
        using Cons.prems(2) Some d by (auto split: bind_splits)
      with Cons.IH [OF Cons.prems(1) this(1)] Some show ?thesis by (auto split: sum.splits)
    next
      case False
      then show ?thesis using Cons.prems(2) Some d by auto
    qed
  qed
qed auto

section \<open>Groups of a public cloud\<close>

lemma set_readable: "r \<in> set (readable rows) \<longleftrightarrow> (\<exists>row \<in> set rows. toRule row = Inr r)"
  by (induction rows) (auto simp: readable_def map_filter_simps split: sum.splits option.splits)

definition rows_valid :: "DB \<Rightarrow> bool" where
  "rows_valid db \<longleftrightarrow> (\<forall>row \<in> set (group_rules db). \<forall>r. toRule row = Inr r \<longrightarrow> rule_ok r)"

text \<open>What the rows of a group cover.\<close>

definition rows_cover :: "string \<Rightarrow> DB \<Rightarrow> string \<Rightarrow> string \<Rightarrow> packet \<Rightarrow> bool" where
  "rows_cover g db action dir p \<longleftrightarrow>
     (\<exists>row \<in> set (group_rules db). gr_SecgroupID row = g \<and> (\<exists>r. toRule row = Inr r \<and> Action r = action \<and> dir_match dir r p))"

lemma ruleset_ok_Nil: "ruleset_ok []" "set_covers action [] dir p = False"
  by (simp_all add: ruleset_ok_def set_covers_def covers_def getAllowRules_def getDenyRules_def)

lemma group_rule_set:
  assumes "faults db = []" and "rows_valid db"
  shows "\<exists>srs. getSecurityGroupRuleSet g db = Some (srs, db) \<and> ruleset_ok srs \<and>
     (\<forall>dir p. set_covers SecurityRuleAllow srs dir p \<longleftrightarrow> rows_cover g db SecurityRuleAllow dir p)"
proof -
  let ?rows = "sort_key (\<lambda>r. - gr_Priority r) (filter (\<lambda>r. gr_SecgroupID r = g) (group_rules db))"
  have e: "getSecurityGroupRuleSet g db = do { srs \<leftarrow> AddRules [] (readable ?rows); Some (srs, db) }"
    using assms(1) by (simp add: getSecurityGroupRuleSet_def GetSecRules_def getSecurityRules_def)
  have "\<forall>r \<in> set (readable ?rows). rule_ok r" using assms(2) by (auto simp: set_readable rows_valid_def)
  from AddRules_covers [OF ruleset_ok_Nil(1) this] obtain srs where srs: "AddRules [] (readable ?rows) = Some srs" "ruleset_ok srs"
    "\<forall>action dir p. action \<in> {SecurityRuleAllow, SecurityRuleDeny} \<longrightarrow>
        (set_covers action srs dir p \<longleftrightarrow> set_covers action [] dir p \<or> (\<exists>r \<in> set (readable ?rows). Action r = action \<and> dir_match dir r p))"
    by (elim exE conjE)
  have "set_covers SecurityRuleAllow srs dir p \<longleftrightarrow> (\<exists>r \<in> set (readable ?rows). Action r = SecurityRuleAllow \<and> dir_match dir r p)" for dir p
    using srs(3) by (simp add: ruleset_ok_Nil)
  then have "set_covers SecurityRuleAllow srs dir p \<longleftrightarrow> rows_cover g db SecurityRuleAllow dir p" for dir p
    by (auto simp: rows_cover_def Bex_def set_readable)
  with e srs(1,2) show ?thesis by auto
qed

lemma find_equal_ok:
  assumes "faults db = []" and "rows_valid db"
  shows "\<exists>found. find_equal srs gs db = Some (found, db) \<and>
    (\<forall>g. found = Some g \<longrightarrow> (\<exists>srs'. getSecurityGroupRuleSet (sg_Id g) db = Some (srs', db) \<and> IsEqual srs srs'))"
proof (induction gs)
  case (Cons g gs)
  from group_rule_set [OF assms, of "sg_Id g"] obtain srs' where "getSecurityGroupRuleSet (sg_Id g) db = Some (srs', db)" by blast
  with Cons show ?case by (cases "IsEqual srs srs'") auto
qed simp

lemma SyncRules_ok:
  "faults db = [] \<Longrightarrow> SyncRules g rules db = db\<lparr>group_rules := group_rules db @ map (\<lambda>r. newFromCloudSecurityGroup r g) rules\<rparr>"
  by (induction rules arbitrary: db) (simp_all add: insert_rule_def)

lemma stored_rows_cover:
  assumes "\<forall>r \<in> set rules. rule_ok r" and "g \<notin> gr_SecgroupID ` set (group_rules db)" and "rows_valid db"
  defines "db' \<equiv> db\<lparr>group_rules := group_rules db @ map (\<lambda>r. newFromCloudSecurityGroup r g) rules\<rparr>"
  shows "rows_valid db'" and "rows_cover g db' action dir p \<longleftrightarrow> (\<exists>r \<in> set rules. Action r = action \<and> dir_match dir r p)"
proof -
  have read: "\<exists>r'. toRule (newFromCloudSecurityGroup r g) = Inr r' \<and> rule_ok r' \<and> Action r' = Action r \<and> (dir_match dir r' p \<longleftrightarrow> dir_match dir r p)"
    if "r \<in> set rules" for r
  proof -
    have "rule_ok r" using assms(1) that by blast
    from stored_rule_read [OF this, of g] show ?thesis by (auto simp: dir_match_def)
  qed
  show "rows_valid db'" using read assms(3) by (fastforce simp: rows_valid_def db'_def)
  have gid: "gr_SecgroupID (newFromCloudSecurityGroup r g) = g" for r by (simp add: newFromCloudSecurityGroup_def)
  have "rows_cover g db' action dir p \<longleftrightarrow>
      (\<exists>r \<in> set rules. \<exists>r'. toRule (newFromCloudSecurityGroup r g) = Inr r' \<and> Action r' = action \<and> dir_match dir r' p)"
    using assms(2) gid by (auto simp: rows_cover_def db'_def)
  also have "\<dots> \<longleftrightarrow> (\<exists>r \<in> set rules. Action r = action \<and> dir_match dir r p)" using read by fastforce
  finally show "rows_cover g db' action dir p \<longleftrightarrow> (\<exists>r \<in> set rules. Action r = action \<and> dir_match dir r p)" .
qed

lemma AddRules_keys: "AddRules srs rules = Some srs' \<Longrightarrow> distinct (map fst srs) \<Longrightarrow> distinct (map fst srs')"
proof (induction rules arbitrary: srs)
  case (Cons r rules)
  then obtain s where s: "AddRule srs r = Some s" "AddRules s rules = Some srs'" by (auto split: bind_splits)
  then have "distinct (map fst s)" using Cons.prems(2) by (auto simp: AddRule_def Let_def distinct_update split: bind_splits)
  with Cons.IH [OF s(2)] show ?case by blast
qed simp

lemma IsEqual_refl: "distinct (map fst srs) \<Longrightarrow> IsEqual srs srs"
  by (auto simp: IsEqual_def list_all_iff getSubRuleSet_def sub_isEqual_def isRuleEqual_refl)

section \<open>Properties\<close>

text \<open>
  C18. When uniting security groups succeeds and no access to the database fails, every
  reference to a united group in the guests, in the lists of further groups of guests and in
  the records of public clouds is a reference to the remaining group, other references are
  unchanged, and exactly the united groups and their rules are gone. This is for unions of
  other groups into a group, and for guests whose hypervisor takes part in security groups.
\<close>

theorem PerformUnion_renames:
  assumes "faults db = []" and "tables_ok db" and "supported db"
    and "PerformUnion fetch self ids db = Some (None, db')" and "sg_Id self \<notin> G" and "G = (sg_Id \<circ> the \<circ> fetch) ` set ids"
  shows "guests db' = map (\<lambda>g. g\<lparr>gu_SecgrpId := renamed G (sg_Id self) (gu_SecgrpId g),
             gu_AdminSecgrpId := renamed G (sg_Id self) (gu_AdminSecgrpId g)\<rparr>) (guests db) \<and>
     guestsecgroups db' = map (\<lambda>x. x\<lparr>gs_SecgroupId := renamed G (sg_Id self) (gs_SecgroupId x)\<rparr>) (guestsecgroups db) \<and>
     caches db' = map (\<lambda>c. c\<lparr>sc_SecgroupId := renamed G (sg_Id self) (sc_SecgroupId c)\<rparr>) (caches db) \<and>
     group_rules db' = filter (\<lambda>r. gr_SecgroupID r \<notin> G) (group_rules db) \<and>
     map sg_Id (secgroups db') = filter (\<lambda>x. x \<notin> G) (map sg_Id (secgroups db))"
proof -
  obtain srs d res d' where s: "getSecurityGroupRuleSet (sg_Id self) db = Some (srs, d)" "union_check fetch self srs ids d = Some (res, d')"
    and e: "(None, db') = (case res of Inl err \<Rightarrow> (Some err, d') | Inr gs \<Rightarrow>
      (case union_loop (sg_Id self) gs d' of (Some err, db) \<Rightarrow> (Some err, db) | (None, db) \<Rightarrow> (None, DoSync (sg_Id self) db)))"
    using assms(4) by (auto simp: PerformUnion_def split: bind_splits if_splits)
  have d: "d = db" by (rule rule_set_keeps [OF assms(1) s(1)])
  obtain gs where gs: "res = Inr gs" using e by (cases res) auto
  have d': "d' = db" "map Some gs = map fetch ids" using union_check_keeps [OF assms(1) s(2) [unfolded d]] gs by auto
  have "gs = map (the \<circ> fetch) ids" using arg_cong [OF d'(2), of "map the"] by (simp add: o_def)
  then have G: "set (map sg_Id gs) = G" using assms(6) by (simp add: image_image)
  have "union_loop (sg_Id self) gs db = (None, fold (united (sg_Id self)) (map sg_Id gs) db)"
    by (rule union_loop_ok [OF assms(1-3)])
  also have "\<dots> = (None, renamed_db G (sg_Id self) db)" using fold_united [of "sg_Id self" "map sg_Id gs" db] assms(5) unfolding G by simp
  finally have "db' = DoSync (sg_Id self) (renamed_db G (sg_Id self) db)" using e unfolding gs d'(1) by simp
  moreover have "faults (renamed_db G (sg_Id self) db) = []" using assms(1) by (simp add: renamed_db_def)
  moreover have "map sg_Id (map (\<lambda>g. if sg_Id g = i then g\<lparr>sg_IsDirty := True\<rparr> else g) xs) = map sg_Id xs" for i and xs :: "SSecurityGroup list"
    by (rule map_same_key) simp
  ultimately show ?thesis by (simp add: DoSync_def update_group_def renamed_db_def Let_def filter_map o_def del: map_map)
qed

text \<open>
  Uniting a group with itself is not refused, and deletes it: when no access to the
  database fails and the rules of the group can be collected, the request to unite a group
  with a name of the group itself succeeds, the group is gone, and all guests that refer to
  it still do.
\<close>

theorem self_union_deletes_group:
  assumes "faults db = []" and "tables_ok db" and "supported db" and "fetch name = Some self"
    and "getSecurityGroupRuleSet (sg_Id self) db \<noteq> None"
  shows "\<exists>db'. PerformUnion fetch self [name] db = Some (None, db') \<and> guests db' = guests db \<and> sg_Id self \<notin> sg_Id ` set (secgroups db')"
proof -
  obtain srs d where s: "getSecurityGroupRuleSet (sg_Id self) db = Some (srs, d)" using assms(5) by auto
  have d: "d = db" by (rule rule_set_keeps [OF assms(1) s])
  have "distinct (map fst srs)"
    using s AddRules_keys [of "[]"] by (auto simp: getSecurityGroupRuleSet_def split: prod.splits bind_splits)
  then have "IsEqual srs srs" by (rule IsEqual_refl)
  then have c: "union_check fetch self srs [name] db = Some (Inr [self], db)" using s d assms(4) by simp
  let ?u = "united (sg_Id self) (sg_Id self) db"
  have "union_loop (sg_Id self) [self] db = (None, ?u)" using union_loop_ok [OF assms(1-3), of "sg_Id self" "[self]"] by simp
  then have "PerformUnion fetch self [name] db = Some (None, DoSync (sg_Id self) ?u)"
    using s d c by (simp add: PerformUnion_def)
  moreover have "rename_guest g g x = x" for g x by (simp add: rename_guest_def)
  then have "guests ?u = guests db" by (simp add: united_def map_idI)
  ultimately show ?thesis using assms(1) by (auto simp: DoSync_def update_group_def united_def Let_def)
qed



definition demo_group :: "string \<Rightarrow> SSecurityGroup" where
  "demo_group i = \<lparr>sg_Id = i, sg_Name = i, sg_Description = [], sg_ProjectId = ''p'', sg_IsDirty = False, sg_PendingDeleted = False\<rparr>"

definition demo_db :: DB where
  "demo_db = \<lparr>secgroups = [demo_group ''a'', demo_group ''b''], group_rules = [],
     caches = [\<lparr>sc_Id = ''c'', sc_SecgroupId = ''b'', sc_VpcId = ''v'', sc_CloudregionId = ''r'', sc_ManagerId = ''m'', sc_ExternalId = ''x''\<rparr>],
     guests = [\<lparr>gu_Id = ''g'', gu_Hypervisor = ''kvm'', gu_Status = ''running'', gu_SecgrpId = ''b'', gu_AdminSecgrpId = []\<rparr>],
     guestsecgroups = [], faults = [], timers = [], synced = []\<rparr>"

definition demo_fetch :: "string \<Rightarrow> SSecurityGroup option" where
  "demo_fetch i = find (\<lambda>g. sg_Id g = i) (secgroups demo_db)"

lemma demo_db_ok: "faults demo_db = []" "tables_ok demo_db" "supported demo_db" "rows_valid demo_db"
  by (simp_all add: demo_db_def demo_group_def tables_ok_def supported_def excluded_def rows_valid_def)

lemma demo_rule_set: "getSecurityGroupRuleSet i demo_db = Some ([], demo_db)"
  by (simp add: getSecurityGroupRuleSet_def GetSecRules_def getSecurityRules_def demo_db_def readable_def map_filter_simps)

lemma demo_fetch_b: "demo_fetch ''b'' = Some (demo_group ''b'')" "sg_Id (demo_group i) = i"
  by (simp_all add: demo_fetch_def demo_db_def demo_group_def)

lemma PerformUnion_renames_witness:
  "\<exists>db'. PerformUnion demo_fetch (demo_group ''a'') [''b''] demo_db = Some (None, db') \<and> map gu_SecgrpId (guests db') = [''a''] \<and>
     map sc_SecgroupId (caches db') = [''a''] \<and> map sg_Id (secgroups db') = [''a'']"
proof -
  have uc: "union_check demo_fetch (demo_group ''a'') [] [''b''] demo_db = Some (Inr [demo_group ''b''], demo_db)"
    by (simp add: demo_fetch_b demo_rule_set IsEqual_def)
  obtain d where d: "union_loop ''a'' [demo_group ''b''] demo_db = (None, d)" using union_loop_ok [OF demo_db_ok(1-3)] by blast
  have u: "PerformUnion demo_fetch (demo_group ''a'') [''b''] demo_db = Some (None, DoSync ''a'' d)"
    unfolding PerformUnion_def demo_fetch_b(2) demo_rule_set by (simp add: uc d demo_fetch_b(2) del: union_loop.simps union_check.simps)
  have "sg_Id (demo_group ''a'') \<notin> {''b''}" "{''b''} = (sg_Id \<circ> the \<circ> demo_fetch) ` set [''b'']" by (simp_all add: demo_fetch_b)
  note r = PerformUnion_renames [OF demo_db_ok(1-3) u this]
  have "map gu_SecgrpId (guests (DoSync ''a'' d)) = [''a'']" "map sc_SecgroupId (caches (DoSync ''a'' d)) = [''a'']"
    "map sg_Id (secgroups (DoSync ''a'' d)) = [''a'']"
    using r by (simp_all add: demo_db_def demo_group_def renamed_def)
  with u show ?thesis by (intro exI [of _ "DoSync ''a'' d"] conjI)
qed

lemma self_union_deletes_group_witness:
  "\<exists>db'. PerformUnion demo_fetch (demo_group ''b'') [''b''] demo_db = Some (None, db') \<and> guests db' = guests demo_db \<and>
     sg_Id (demo_group ''b'') \<notin> sg_Id ` set (secgroups db')"
  by (rule self_union_deletes_group [OF demo_db_ok(1-3)]) (simp_all add: demo_rule_set, simp add: demo_fetch_def demo_db_def demo_group_def)



end
