(* ===== verification/Spec2Isabelle.thy ===== *)
theory Spec2Isabelle
  imports Ring Worker_Manager Lock_Manager Router Rbac Hash_Cache Policy_Manager Quota Disk_Config Ethernet
    Netutils Sec_Rules Rule_Text Rule_Sets Secgroup_Rules Secgroups
begin

text \<open>
  A verification development for the Yunion OneCloud platform: the server side of a cloud
  management system written in Go, whose services (region, image, scheduler, bare metal agent
  and others) share one HTTP server, one access control library and one set of utilities.

  \<^bold>\<open>Conventions.\<close> Definitions keep the names of the Go functions and follow their branches in
  order. A panic is the value \<open>None\<close> of an option, a returned error is \<open>Inl\<close> of a sum or the
  second component of a pair. Strings are \<open>string\<close>, slices are lists, and a slice that the code
  compares with \<^verbatim>\<open>nil\<close> is an optional list. 64-bit integers whose overflow matters are \<open>int\<close>
  with \<open>wrap64\<close> written out; bytes and header fields are words of their width. Values reached
  through shared pointers live on explicit heaps. Goroutines are step relations whose steps
  are the critical sections of the code; a loop that may not end is a
  \<open>partial_function (option)\<close>, and that it ends, or does not, is a theorem. Log output is
  left out everywhere.

  \<^bold>\<open>Parts and theories.\<close>

  \<^item> \<open>Go_Prelude\<close>, \<open>Go_Strconv\<close>, \<open>Go_Bytes\<close>: the part of the Go language and library that the
    sources use (integers with overflow, slices, decimal text, string functions, byte order,
    \<^verbatim>\<open>copy\<close>), the locale \<open>inductive_invariant\<close> for step relations, and the shared lemmas.
  \<^item> \<open>Ring\<close> and \<open>Worker_Manager\<close>: \<^verbatim>\<open>pkg/appsrv/ring.go\<close> and \<^verbatim>\<open>workers.go\<close>. The ring buffer
    refines a bounded queue. The worker pool is a step relation over the pushes of requests,
    the loop of each worker and the detaching of slow workers: the number of active workers
    is bounded, tasks start in order, and the two ways in which a task or a worker is lost
    are reachable states.
  \<^item> \<open>Lock_Manager\<close>: \<^verbatim>\<open>pkg/cloudcommon/db/lockman\<close>. The in-memory locks with their FIFO of
    waiters as steps: mutual exclusion and no lost wake-up under the condition that the
    record stays in the table, and the race between lookup and deletion without it.
  \<^item> \<open>Router\<close>: \<^verbatim>\<open>pkg/appsrv/radix.go\<close>, \<^verbatim>\<open>appsrv.go\<close> and \<^verbatim>\<open>path.go\<close>. The radix tree of
    routes with regular expressions (an argument) refines a map from patterns to handlers;
    dispatch finds the longest registered route.
  \<^item> \<open>Rbac\<close>: \<^verbatim>\<open>pkg/util/rbacutils\<close>. Policies, their JSON form with the aliasing of Go slices,
    matching and compaction of rules.
  \<^item> \<open>Hash_Cache\<close> and \<open>Policy_Manager\<close>: \<^verbatim>\<open>pkg/util/hashcache\<close> and \<^verbatim>\<open>pkg/cloudcommon/policy\<close>.
    The decision on a request with and without the cache, and the paging fetch of policies.
  \<^item> \<open>Quota\<close>: \<^verbatim>\<open>pkg/cloudcommon/db/quotas\<close> and the quota types of the compute and the image
    service, which interpret the locale \<open>quota_type\<close>. Interleaved requests never exceed the
    quota when counters do not overflow; the HTTP handlers rest on \<open>Policy_Manager\<close>.
  \<^item> \<open>Disk_Config\<close>: \<^verbatim>\<open>pkg/compute/baremetal/diskconfig.go\<close> and the textual disk
    configurations of \<^verbatim>\<open>pkg/cloudcommon/cmdline/parser.go\<close>.
  \<^item> \<open>Ethernet\<close>: \<^verbatim>\<open>pkg/util/ethernet\<close>, frames with VLAN tags and their check sequence.

  \<^item> \<open>Go_Net\<close> and \<open>Netutils\<close>: the part of Go's \<^verbatim>\<open>net\<close> package the sources use, and
    \<^verbatim>\<open>vendor/yunion.io/x/pkg/util/netutils\<close>. Textual addresses round trip, a range is
    partitioned by the networks computed from it, and ranges are subtracted as sets.
  \<^item> \<open>Sec_Rules\<close>, \<open>Rule_Text\<close> and \<open>Rule_Sets\<close>: \<^verbatim>\<open>vendor/yunion.io/x/pkg/util/secrules\<close>.
    The list of allow rules computed from prioritised allow and deny rules lets exactly the
    packets pass that the first matching rule allows, in the cases that the code handles; a
    printed rule is read back as a rule that matches the same packets; filing rules in a
    rule set and merging them keeps the packets they match, and rule sets that compare equal
    allow the same packets. \<^verbatim>\<open>SecurityRuleSetToAllowSet\<close> of \<^verbatim>\<open>pkg/util/aws\<close> rests on the first.
  \<^item> \<open>Secgroup_Rules\<close> and \<open>Secgroups\<close>: \<^verbatim>\<open>secgrouprules.go\<close>, \<^verbatim>\<open>secgroups.go\<close> and the tables of
    \<^verbatim>\<open>guestsecgroups.go\<close> and \<^verbatim>\<open>secgroupcache.go\<close> in \<^verbatim>\<open>pkg/compute/models\<close>. A rule that passes
    validation or comes from a public cloud is stored as a row that is read back as the same
    rule; the database is a record of tables whose accesses may fail, and uniting, importing
    and synchronising groups are functions on it.

  \<^bold>\<open>Bounds.\<close> No model uses fuel: structural recursion, \<open>function\<close> with a measure, or
  \<open>partial_function (option)\<close> with a proof that the value is \<open>Some\<close>.

  \<^bold>\<open>Not modelled.\<close> The database layer (SQL and reflection) and the resource models on top of
  it other than security groups and quotas; the bindings to the APIs of public clouds in
  \<^verbatim>\<open>pkg/util\<close>; the agents that drive QEMU, IPMI, storage and network devices (\<^verbatim>\<open>pkg/hostman\<close>,
  \<^verbatim>\<open>pkg/baremetal\<close>, \<^verbatim>\<open>pkg/lbagent\<close>); the scheduler; the image, DNS, web console, log and
  configuration services; the client library and the command line clients; and the service
  main programs. They are mostly input and output around calls of external systems. Vendored
  code other than the libraries above is used through the functions the models need.
\<close>

end
